(* ===== verification/Zend_Prelude.thy ===== *)
theory Zend_Prelude
  imports Main "HOL-Library.Word" "HOL-Library.Monad_Syntax" "HOL-Library.Multiset"
begin

text \<open>
  Shared vocabulary of the development. C pointers into a heap of one node type are
  \<open>nat option\<close> values (\<open>None\<close> is \<open>NULL\<close>); a heap is a partial map from
  addresses to nodes; an access through a dangling pointer makes the whole operation
  \<open>None\<close>. The Zend sources keep most of their data in doubly linked lists threaded
  through such nodes, so this theory holds one small library of facts on the links of a
  doubly linked segment (\<open>dseg\<close>) that the hash table (twice) and the linked list use.
\<close>

named_theorems link_simps \<open>rewriting the links of a doubly linked segment\<close>
named_theorems heap_simps \<open>reading back what an operation wrote to a heap\<close>

type_synonym ulong = "64 word"
type_synonym uint = "32 word"
type_synonym ptr = "nat option"
type_synonym 'b heap = "nat \<Rightarrow> 'b option"
type_synonym links = "nat \<Rightarrow> (ptr \<times> ptr) option"

datatype zresult = SUCCESS | FAILURE

text \<open>
  The address the allocator returns: the first address below the limit that is not in
  use (so a freed address is handed out again), else the limit itself.
\<close>

definition fresh_addr :: "'b heap \<Rightarrow> nat \<Rightarrow> nat" where
  "fresh_addr m lim = (case find (\<lambda>a. m a = None) [0..<lim] of Some a \<Rightarrow> a | None \<Rightarrow> lim)"

definition heap_bounded :: "'b heap \<Rightarrow> nat \<Rightarrow> bool" where
  "heap_bounded m lim \<longleftrightarrow> (\<forall>a. lim \<le> a \<longrightarrow> m a = None)"

text \<open>First and last element of a list with a default, as pointers.\<close>

definition hd_or :: "ptr \<Rightarrow> nat list \<Rightarrow> ptr" where
  "hd_or r xs = (case xs of [] \<Rightarrow> r | x # _ \<Rightarrow> Some x)"

definition last_or :: "ptr \<Rightarrow> nat list \<Rightarrow> ptr" where
  "last_or q xs = (if xs = [] then q else Some (last xs))"

text \<open>
  \<open>dseg L q xs r\<close>: the nodes \<open>xs\<close> are linked in this order, the first one points
  back to \<open>q\<close> and the last one points on to \<open>r\<close>. \<open>L\<close> maps an address to its
  (next, previous) pointers.
\<close>

fun dseg :: "links \<Rightarrow> ptr \<Rightarrow> nat list \<Rightarrow> ptr \<Rightarrow> bool" where
  "dseg L q [] r = True"
| "dseg L q (a # as) r = (L a = Some (hd_or r as, q) \<and> dseg L (Some a) as r)"

text \<open>Overwriting one link of a node that is there.\<close>

definition set_next :: "links \<Rightarrow> nat \<Rightarrow> ptr \<Rightarrow> links" where
  "set_next L a v = (case L a of None \<Rightarrow> L | Some (n, p) \<Rightarrow> L(a \<mapsto> (v, p)))"

definition set_prev :: "links \<Rightarrow> nat \<Rightarrow> ptr \<Rightarrow> links" where
  "set_prev L a v = (case L a of None \<Rightarrow> L | Some (n, p) \<Rightarrow> L(a \<mapsto> (n, v)))"

text \<open>The same for the node a pointer refers to; nothing happens through \<open>NULL\<close>.\<close>

definition set_next_at :: "links \<Rightarrow> ptr \<Rightarrow> ptr \<Rightarrow> links" where
  "set_next_at L p v = (case p of None \<Rightarrow> L | Some a \<Rightarrow> set_next L a v)"

definition set_prev_at :: "links \<Rightarrow> ptr \<Rightarrow> ptr \<Rightarrow> links" where
  "set_prev_at L p v = (case p of None \<Rightarrow> L | Some a \<Rightarrow> set_prev L a v)"

text \<open>A list with its head and tail pointers.\<close>

definition list_inv :: "links \<Rightarrow> ptr \<Rightarrow> ptr \<Rightarrow> nat list \<Rightarrow> bool" where
  "list_inv L hp tp xs \<longleftrightarrow>
     hp = hd_or None xs \<and> tp = last_or None xs \<and> dseg L None xs None \<and> distinct xs"

subsection \<open>Words\<close>

lemma unat_uint_less: "unat (x :: uint) < 2 ^ 32"
  using unsigned_less [of x, where ?'a = nat] by simp

lemma unat_ulong_less: "unat (x :: ulong) < 2 ^ 64"
  using unsigned_less [of x, where ?'a = nat] by simp

lemma unat_ucast_uint_ulong: "unat (ucast (x :: uint) :: ulong) = unat x"
  using unat_uint_less [of x] by (simp add: unsigned_ucast_eq take_bit_nat_eq_self)

lemma unat_pred_less: "x \<noteq> 0 \<Longrightarrow> unat (x - 1 :: 'a::len word) < unat x"
  by (metis One_nat_def diff_Suc_less unat_gt_0 unat_minus_one)

lemma unat_Suc_uint: "unat (x :: uint) < 2 ^ 32 - 1 \<Longrightarrow> unat (x + 1) = Suc (unat x)"
  by (simp add: unat_word_ariths)

lemma find_SomeD: "List.find P xs = Some x \<Longrightarrow> x \<in> set xs \<and> P x"
  by (auto simp: find_Some_iff)

subsection \<open>Fresh addresses\<close>

lemma fresh_addr_free: "heap_bounded m lim \<Longrightarrow> m (fresh_addr m lim) = None"
  by (auto simp: fresh_addr_def heap_bounded_def find_Some_iff split: option.split)

lemma heap_bounded_alloc:
  "heap_bounded m lim \<Longrightarrow>
   heap_bounded (m(fresh_addr m lim \<mapsto> b)) (max lim (Suc (fresh_addr m lim)))"
  by (auto simp: heap_bounded_def)

lemma heap_bounded_upd: "heap_bounded m lim \<Longrightarrow> m a = Some b \<Longrightarrow> heap_bounded (m(a \<mapsto> b')) lim"
  by (auto simp: heap_bounded_def)

lemma heap_bounded_free: "heap_bounded m lim \<Longrightarrow> heap_bounded (m(a := None)) lim"
  by (auto simp: heap_bounded_def)

lemma heap_bounded_dom: "heap_bounded m lim \<Longrightarrow> dom m' = dom m \<Longrightarrow> heap_bounded m' lim"
  by (auto simp: heap_bounded_def simp flip: domIff)

lemma heap_bounded_finite: "heap_bounded m lim \<Longrightarrow> finite (dom m)"
  by (rule finite_subset [of _ "{..<lim}"]) (auto simp: heap_bounded_def not_less [symmetric])

subsection \<open>Segments\<close>

lemma hd_or_simps [simp]: "hd_or r [] = r" "hd_or r (x # xs) = Some x"
  by (simp_all add: hd_or_def)

lemma last_or_simps [simp]: "last_or q [] = q" "last_or q (xs @ [x]) = Some x"
  by (simp_all add: last_or_def)

lemma last_or_Cons [simp]: "last_or q (x # xs) = last_or (Some x) xs"
  by (simp add: last_or_def)

lemma hd_or_append [simp]: "hd_or r (xs @ ys) = hd_or (hd_or r ys) xs"
  by (cases xs) simp_all

lemma last_or_append [simp]: "last_or q (xs @ ys) = last_or (last_or q xs) ys"
  by (simp add: last_or_def)

lemma hd_or_None_iff [simp]: "hd_or None xs = None \<longleftrightarrow> xs = []"
  by (cases xs) simp_all

lemma last_or_None_iff [simp]: "last_or None xs = None \<longleftrightarrow> xs = []"
  by (simp add: last_or_def)

lemma last_or_Some_neq [simp]: "last_or (Some x) xs \<noteq> None"
  by (simp add: last_or_def)

lemma last_or_SomeD: "last_or None xs = Some z \<Longrightarrow> \<exists>ys. xs = ys @ [z]"
  by (cases xs rule: rev_cases) simp_all

lemma hd_or_SomeD: "hd_or None xs = Some z \<Longrightarrow> \<exists>ys. xs = z # ys"
  by (cases xs) simp_all

lemma dseg_append [simp]:
  "dseg L q (xs @ ys) r \<longleftrightarrow> dseg L q xs (hd_or r ys) \<and> dseg L (last_or q xs) ys r"
  by (induction xs arbitrary: q) auto

lemma dseg_cong: "(\<And>a. a \<in> set xs \<Longrightarrow> L a = L' a) \<Longrightarrow> dseg L q xs r = dseg L' q xs r"
  by (induction xs arbitrary: q) auto

lemma dseg_upd [simp]: "a \<notin> set xs \<Longrightarrow> dseg (L(a := v)) q xs r = dseg L q xs r"
  by (rule dseg_cong) auto

lemma dseg_dom: "dseg L q xs r \<Longrightarrow> a \<in> set xs \<Longrightarrow> \<exists>n p. L a = Some (n, p)"
  by (induction xs arbitrary: q) auto

lemma set_next_other [simp]: "b \<noteq> a \<Longrightarrow> set_next L a v b = L b"
  by (simp add: set_next_def split: option.split)

lemma set_prev_other [simp]: "b \<noteq> a \<Longrightarrow> set_prev L a v b = L b"
  by (simp add: set_prev_def split: option.split)

lemma set_next_same: "L a = Some (n, p) \<Longrightarrow> set_next L a v a = Some (v, p)"
  by (simp add: set_next_def)

lemma set_prev_same: "L a = Some (n, p) \<Longrightarrow> set_prev L a v a = Some (n, v)"
  by (simp add: set_prev_def)

lemma dseg_set_next_other [simp]: "a \<notin> set xs \<Longrightarrow> dseg (set_next L a v) q xs r = dseg L q xs r"
  by (rule dseg_cong, rule set_next_other) auto

lemma dseg_set_prev_other [simp]: "a \<notin> set xs \<Longrightarrow> dseg (set_prev L a v) q xs r = dseg L q xs r"
  by (rule dseg_cong, rule set_prev_other) auto

text \<open>The out-going link of a non-empty segment can be redirected, and the in-coming one.\<close>

lemma dseg_redirect_next:
  "dseg L q xs r \<Longrightarrow> distinct xs \<Longrightarrow> dseg (set_next_at L (last_or None xs) r') q xs r'"
  by (cases xs rule: rev_cases) (auto simp: set_next_at_def set_next_same)

lemma dseg_redirect_prev:
  "dseg L q xs r \<Longrightarrow> distinct xs \<Longrightarrow> dseg (set_prev_at L (hd_or None xs) q') q' xs r"
  by (cases xs) (auto simp: set_prev_at_def set_prev_same)

lemma last_or_in: "last_or None xs = Some a \<Longrightarrow> a \<in> set xs"
  by (auto simp: last_or_def split: if_splits)

lemma hd_or_in: "hd_or None xs = Some a \<Longrightarrow> a \<in> set xs"
  by (cases xs) auto

text \<open>Nodes outside a segment keep their links when its first or last node is relinked.\<close>

lemma set_next_last_other [simp]:
  "a \<notin> set xs \<Longrightarrow> set_next_at L (last_or None xs) v a = L a"
  by (auto simp: set_next_at_def split: option.split dest: last_or_in intro!: set_next_other)

lemma set_prev_hd_other [simp]:
  "a \<notin> set xs \<Longrightarrow> set_prev_at L (hd_or None xs) v a = L a"
  by (auto simp: set_prev_at_def split: option.split dest: hd_or_in intro!: set_prev_other)

lemma dseg_next_last_other [simp]:
  "set xs \<inter> set ys = {} \<Longrightarrow> dseg (set_next_at L (last_or None xs) v) q ys r = dseg L q ys r"
  by (rule dseg_cong, rule set_next_last_other) auto

lemma dseg_prev_hd_other [simp]:
  "set xs \<inter> set ys = {} \<Longrightarrow> dseg (set_prev_at L (hd_or None xs) v) q ys r = dseg L q ys r"
  by (rule dseg_cong, rule set_prev_hd_other) auto

text \<open>Unlinking a node: the neighbours are joined.\<close>

lemma dseg_unlink:
  assumes seg: "dseg L None (us @ a # vs) None" and dist: "distinct (us @ a # vs)"
  shows "dseg (set_prev_at (set_next_at L (last_or None us) (hd_or None vs))
                 (hd_or None vs) (last_or None us)) None (us @ vs) None"
proof -
  let ?L1 = "set_next_at L (last_or None us) (hd_or None vs)"
  let ?L2 = "set_prev_at ?L1 (hd_or None vs) (last_or None us)"
  have "dseg ?L1 None us (hd_or None vs)"
    using seg dist by (intro dseg_redirect_next) auto
  moreover have "dseg ?L1 (Some a) vs None"
    using seg dist by simp
  ultimately have "dseg ?L2 None us (hd_or None vs)" "dseg ?L2 (last_or None us) vs None"
    using dist by (auto simp: Int_commute intro: dseg_redirect_prev)
  then show ?thesis by simp
qed

lemma dseg_at: "dseg L None (us @ a # vs) None \<Longrightarrow> L a = Some (hd_or None vs, last_or None us)"
  by simp

text \<open>Linking a new node between two parts of a list.\<close>

lemma dseg_insert:
  assumes seg: "dseg L None (us @ vs) None" and dist: "distinct (us @ vs)"
    and a: "a \<notin> set us" "a \<notin> set vs"
  shows "dseg (set_prev_at (set_next_at (L(a \<mapsto> (hd_or None vs, last_or None us)))
                 (last_or None us) (Some a)) (hd_or None vs) (Some a)) None (us @ a # vs) None"
proof -
  let ?L0 = "L(a \<mapsto> (hd_or None vs, last_or None us))"
  let ?L1 = "set_next_at ?L0 (last_or None us) (Some a)"
  let ?L2 = "set_prev_at ?L1 (hd_or None vs) (Some a)"
  have "dseg ?L1 None us (Some a)"
    using seg dist a by (intro dseg_redirect_next) auto
  moreover have "dseg ?L1 (last_or None us) vs None" "?L1 a = ?L0 a"
    using seg dist a by simp_all
  ultimately have "dseg ?L2 None us (Some a)" "dseg ?L2 (Some a) vs None" "?L2 a = ?L0 a"
    using dist a by (auto simp: Int_commute intro: dseg_redirect_prev)
  then show ?thesis by simp
qed

subsection \<open>Lists with head and tail\<close>

lemma list_inv_cong: "(\<And>a. a \<in> set xs \<Longrightarrow> L a = L' a) \<Longrightarrow> list_inv L h t xs = list_inv L' h t xs"
  unfolding list_inv_def using dseg_cong by metis

lemma list_inv_empty: "list_inv L None None []"
  by (simp add: list_inv_def)

lemma list_inv_insert:
  assumes "list_inv L h t (us @ vs)" "a \<notin> set us" "a \<notin> set vs"
  shows "list_inv (set_prev_at (set_next_at (L(a \<mapsto> (hd_or None vs, last_or None us)))
             (last_or None us) (Some a)) (hd_or None vs) (Some a))
           (if us = [] then Some a else h) (if vs = [] then Some a else t) (us @ a # vs)"
  using assms dseg_insert [of L us vs a] unfolding list_inv_def
  by (cases us; cases vs rule: rev_cases) auto

lemma list_inv_delete:
  assumes "list_inv L h t (us @ a # vs)"
  shows "list_inv (set_prev_at (set_next_at L (last_or None us) (hd_or None vs))
                 (hd_or None vs) (last_or None us))
           (if us = [] then hd_or None vs else h) (if vs = [] then last_or None us else t) (us @ vs)"
  using assms dseg_unlink [of L us a vs] unfolding list_inv_def
  by (cases us; cases vs rule: rev_cases) auto

lemma list_inv_at: "list_inv L h t (us @ a # vs) \<Longrightarrow> L a = Some (hd_or None vs, last_or None us)"
  by (simp add: list_inv_def)

end
