(* ===== verification/Zend_Hash.thy ===== *)
theory Zend_Hash
  imports Zend_Prelude
begin

text \<open>
  The hash table of \<^verbatim>\<open>Zend/zend_hash.c\<close> and \<^verbatim>\<open>Zend/zend_hash.h\<close>: its data and the
  operations that initialise, grow, search, insert and delete. Buckets live in a heap and
  are threaded on two doubly linked lists, the collision chain of their slot
  (\<open>pNext\<close>, \<open>pLast\<close>) and the list of all elements in insertion order
  (\<open>pListNext\<close>, \<open>pListLast\<close>), exactly as in the C structures. \<open>ulong\<close> is 64 bits
  and \<open>uint\<close> 32 bits (LP64), \<open>char\<close> is signed.

  An operation is \<open>None\<close> when the C code would follow a dangling pointer, index
  \<open>arBuckets\<close> out of range, read an uninitialised pointer, or loop forever. A destructor
  call is recorded in the log \<open>dtor_log\<close>; callbacks that re-enter the table are not
  modelled. Interrupt blocking and the debug-only consistency flag are omitted.
\<close>

unbundle bit_operations_syntax

subsection \<open>Data\<close>

text \<open>
  A \<open>char\<close> pointer with the bytes it points to. An interned string has one address per
  content (\<^verbatim>\<open>zend_new_interned_string\<close>), so it is identified with its content; a
  private buffer belongs to one caller or to one bucket. \<open>CUninit\<close> is a pointer field that
  was never assigned.
\<close>

datatype charptr = CNull | CInterned string | CPrivate string | CUninit

fun chars :: "charptr \<Rightarrow> string" where
  "chars (CInterned s) = s"
| "chars (CPrivate s) = s"
| "chars CNull = []"
| "chars CUninit = []"

fun IS_INTERNED :: "charptr \<Rightarrow> bool" where
  "IS_INTERNED (CInterned s) = True"
| "IS_INTERNED _ = False"

text \<open>
  Pointer comparison \<^verbatim>\<open>p->arKey == arKey\<close>: the caller's private buffer is never the
  bucket's own copy. Reading an uninitialised pointer has no result.
\<close>

fun ptr_eq :: "charptr \<Rightarrow> charptr \<Rightarrow> bool option" where
  "ptr_eq CUninit _ = None"
| "ptr_eq _ CUninit = None"
| "ptr_eq CNull CNull = Some True"
| "ptr_eq (CInterned s) (CInterned t) = Some (s = t)"
| "ptr_eq _ _ = Some False"

definition memcmp_eq :: "charptr \<Rightarrow> charptr \<Rightarrow> uint \<Rightarrow> bool" where
  "memcmp_eq a b n = (take (unat n) (chars a) = take (unat n) (chars b))"

text \<open>
  Where a bucket keeps its element: in \<open>pDataPtr\<close> inside the bucket when the element
  has the size of a pointer, else in a block of its own.
\<close>

datatype 'v storage = DInline (stored: 'v) | DBlock (stored: 'v)

record 'v Bucket =
  bkt_h :: ulong
  nKeyLength :: uint
  pData :: "'v storage"
  pListNext :: ptr
  pListLast :: ptr
  pNext :: ptr
  pLast :: ptr
  arKey :: charptr

record 'v HashTable =
  nTableSize :: uint
  nTableMask :: uint
  nNumOfElements :: uint
  nNextFreeElement :: ulong
  pInternalPointer :: ptr
  pListHead :: ptr
  pListTail :: ptr
  arBuckets :: "ptr list"
  pDestructor :: bool
  persistent :: bool
  nApplyCount :: "8 word"
  bApplyProtection :: bool
  bheap :: "'v Bucket heap"
  blimit :: nat
  dtor_log :: "'v list"

definition sizeof_ptr :: uint where "sizeof_ptr = 8"
definition LONG_MAX :: ulong where "LONG_MAX = 0x7FFFFFFFFFFFFFFF"

definition HASH_UPDATE :: uint where "HASH_UPDATE = 1"
definition HASH_ADD :: uint where "HASH_ADD = 2"
definition HASH_NEXT_INSERT :: uint where "HASH_NEXT_INSERT = 4"

subsection \<open>The string hash\<close>

definition sign_extend_char :: "char \<Rightarrow> ulong" where
  "sign_extend_char c = (let n = (of_char c :: int) in word_of_int (if n < 128 then n else n - 256))"

text \<open>\<^verbatim>\<open>hash = ((hash << 5) + hash) + *arKey++\<close>\<close>

definition hash_char :: "ulong \<times> string \<Rightarrow> (ulong \<times> string) option" where
  "hash_char st = (case st of (hv, []) \<Rightarrow> None
     | (hv, c # cs) \<Rightarrow> Some (push_bit 5 hv + hv + sign_extend_char c, cs))"

text \<open>The loop unrolled eight times.\<close>

function hash_blocks :: "ulong \<times> string \<Rightarrow> nat \<Rightarrow> ((ulong \<times> string) \<times> nat) option" where
  "hash_blocks st n =
     (if n \<ge> 8 then do {
        st \<leftarrow> hash_char st; st \<leftarrow> hash_char st; st \<leftarrow> hash_char st; st \<leftarrow> hash_char st;
        st \<leftarrow> hash_char st; st \<leftarrow> hash_char st; st \<leftarrow> hash_char st; st \<leftarrow> hash_char st;
        hash_blocks st (n - 8) }
      else Some (st, n))"
  by pat_completeness auto
termination
  by (relation "measure snd") auto

declare hash_blocks.simps [simp del]

text \<open>The switch on the remaining length, whose cases fall through.\<close>

fun hash_switch :: "ulong \<times> string \<Rightarrow> nat \<Rightarrow> (ulong \<times> string) option" where
  "hash_switch st 0 = Some st"
| "hash_switch st (Suc n) = do { st \<leftarrow> hash_char st; hash_switch st n }"

definition zend_inline_hash_func :: "string \<Rightarrow> uint \<Rightarrow> ulong option" where
  "zend_inline_hash_func key klen = do {
     (st, n) \<leftarrow> hash_blocks (5381, key) (unat klen);
     (hv, _) \<leftarrow> hash_switch st n;
     Some hv }"

definition zend_hash_func :: "string \<Rightarrow> uint \<Rightarrow> ulong option" where
  "zend_hash_func key klen = zend_inline_hash_func key klen"

subsection \<open>Reading and writing the table\<close>

text \<open>A write through a bucket pointer, and the access \<^verbatim>\<open>ht->arBuckets[i]\<close>.\<close>

definition wr :: "nat \<Rightarrow> ('v Bucket \<Rightarrow> 'v Bucket) \<Rightarrow> 'v HashTable \<Rightarrow> 'v HashTable option" where
  "wr a f ht = (case bheap ht a of None \<Rightarrow> None | Some b \<Rightarrow> Some (ht\<lparr>bheap := (bheap ht)(a \<mapsto> f b)\<rparr>))"

definition rd_slot :: "nat \<Rightarrow> 'v HashTable \<Rightarrow> ptr option" where
  "rd_slot i ht = (if i < length (arBuckets ht) then Some (arBuckets ht ! i) else None)"

definition wr_slot :: "nat \<Rightarrow> ptr \<Rightarrow> 'v HashTable \<Rightarrow> 'v HashTable option" where
  "wr_slot i p ht =
     (if i < length (arBuckets ht) then Some (ht\<lparr>arBuckets := (arBuckets ht)[i := p]\<rparr>) else None)"

definition nIndex :: "ulong \<Rightarrow> 'v HashTable \<Rightarrow> nat" where
  "nIndex hv ht = unat (hv AND ucast (nTableMask ht))"

definition pemalloc_bucket :: "'v Bucket \<Rightarrow> 'v HashTable \<Rightarrow> nat \<times> 'v HashTable" where
  "pemalloc_bucket b ht =
     (let a = fresh_addr (bheap ht) (blimit ht)
      in (a, ht\<lparr>bheap := (bheap ht)(a \<mapsto> b), blimit := max (blimit ht) (Suc a)\<rparr>))"

definition pefree_bucket :: "nat \<Rightarrow> 'v HashTable \<Rightarrow> 'v HashTable option" where
  "pefree_bucket a ht =
     (case bheap ht a of None \<Rightarrow> None | Some b \<Rightarrow> Some (ht\<lparr>bheap := (bheap ht)(a := None)\<rparr>))"

definition run_dtor :: "'v \<Rightarrow> 'v HashTable \<Rightarrow> 'v HashTable" where
  "run_dtor v ht = (if pDestructor ht then ht\<lparr>dtor_log := dtor_log ht @ [v]\<rparr> else ht)"

definition CONNECT_TO_BUCKET_DLLIST :: "nat \<Rightarrow> ptr \<Rightarrow> 'v HashTable \<Rightarrow> 'v HashTable option" where
  "CONNECT_TO_BUCKET_DLLIST a list_head ht = do {
     ht \<leftarrow> wr a (\<lambda>b. b\<lparr>pNext := list_head, pLast := None\<rparr>) ht;
     (case list_head of None \<Rightarrow> Some ht | Some n \<Rightarrow> wr n (\<lambda>b. b\<lparr>pLast := Some a\<rparr>) ht) }"

definition CONNECT_TO_GLOBAL_DLLIST_EX ::
    "nat \<Rightarrow> ptr \<Rightarrow> ptr \<Rightarrow> 'v HashTable \<Rightarrow> 'v HashTable option" where
  "CONNECT_TO_GLOBAL_DLLIST_EX a lst nxt ht = do {
     ht \<leftarrow> wr a (\<lambda>b. b\<lparr>pListLast := lst, pListNext := nxt\<rparr>) ht;
     ht \<leftarrow> (case lst of Some l \<Rightarrow> wr l (\<lambda>b. b\<lparr>pListNext := Some a\<rparr>) ht
                       | None \<Rightarrow> Some (ht\<lparr>pListHead := Some a\<rparr>));
     (case nxt of Some n \<Rightarrow> wr n (\<lambda>b. b\<lparr>pListLast := Some a\<rparr>) ht
                 | None \<Rightarrow> Some (ht\<lparr>pListTail := Some a\<rparr>)) }"

definition CONNECT_TO_GLOBAL_DLLIST :: "nat \<Rightarrow> 'v HashTable \<Rightarrow> 'v HashTable option" where
  "CONNECT_TO_GLOBAL_DLLIST a ht = do {
     ht \<leftarrow> CONNECT_TO_GLOBAL_DLLIST_EX a (pListTail ht) None ht;
     Some (if pInternalPointer ht = None then ht\<lparr>pInternalPointer := Some a\<rparr> else ht) }"

text \<open>
  \<open>UPDATE_DATA\<close> and \<open>INIT_DATA\<close> store an element of the given size; the freed and
  reallocated data blocks themselves are not tracked.
\<close>

definition INIT_DATA :: "uint \<Rightarrow> 'v \<Rightarrow> 'v storage" where
  "INIT_DATA sz v = (if sz = sizeof_ptr then DInline v else DBlock v)"

definition UPDATE_DATA :: "uint \<Rightarrow> 'v \<Rightarrow> 'v storage \<Rightarrow> 'v storage" where
  "UPDATE_DATA sz v old =
     (if sz = sizeof_ptr then (case old of DInline _ \<Rightarrow> DInline v | DBlock _ \<Rightarrow> DInline v)
      else (case old of DInline _ \<Rightarrow> DBlock v | DBlock _ \<Rightarrow> DBlock v))"

definition CHECK_INIT :: "'v HashTable \<Rightarrow> 'v HashTable" where
  "CHECK_INIT ht =
     (if nTableMask ht = 0
      then ht\<lparr>arBuckets := replicate (unat (nTableSize ht)) None, nTableMask := nTableSize ht - 1\<rparr>
      else ht)"

subsection \<open>Deleting a bucket\<close>

text \<open>
  \<open>i_zend_hash_bucket_delete\<close> in its three parts: unlink from the collision chain,
  unlink from the list of all elements, then the counters, the destructor and the frees.
\<close>

definition bucket_unchain :: "nat \<Rightarrow> 'v HashTable \<Rightarrow> 'v HashTable option" where
  "bucket_unchain p ht = do {
     b \<leftarrow> bheap ht p;
     ht \<leftarrow> (case pLast b of Some l \<Rightarrow> wr l (\<lambda>c. c\<lparr>pNext := pNext b\<rparr>) ht
                          | None \<Rightarrow> wr_slot (nIndex (bkt_h b) ht) (pNext b) ht);
     (case pNext b of Some n \<Rightarrow> wr n (\<lambda>c. c\<lparr>pLast := pLast b\<rparr>) ht | None \<Rightarrow> Some ht) }"

definition bucket_unlist :: "nat \<Rightarrow> 'v HashTable \<Rightarrow> 'v HashTable option" where
  "bucket_unlist p ht = do {
     b \<leftarrow> bheap ht p;
     ht \<leftarrow> (case pListLast b of Some l \<Rightarrow> wr l (\<lambda>c. c\<lparr>pListNext := pListNext b\<rparr>) ht
                              | None \<Rightarrow> Some (ht\<lparr>pListHead := pListNext b\<rparr>));
     (case pListNext b of Some n \<Rightarrow> wr n (\<lambda>c. c\<lparr>pListLast := pListLast b\<rparr>) ht
                        | None \<Rightarrow> Some (ht\<lparr>pListTail := pListLast b\<rparr>)) }"

definition i_zend_hash_bucket_delete :: "nat \<Rightarrow> 'v HashTable \<Rightarrow> 'v HashTable option" where
  "i_zend_hash_bucket_delete p ht = do {
     ht \<leftarrow> bucket_unchain p ht;
     ht \<leftarrow> bucket_unlist p ht;
     b \<leftarrow> bheap ht p;
     let ht = (if pInternalPointer ht = Some p then ht\<lparr>pInternalPointer := pListNext b\<rparr> else ht);
     let ht = ht\<lparr>nNumOfElements := nNumOfElements ht - 1\<rparr>;
     let ht = run_dtor (stored (pData b)) ht;
     pefree_bucket p ht }"

definition zend_hash_bucket_delete :: "nat \<Rightarrow> 'v HashTable \<Rightarrow> 'v HashTable option" where
  "zend_hash_bucket_delete p ht = i_zend_hash_bucket_delete p ht"

subsection \<open>Initialisation\<close>

text \<open>The loop \<^verbatim>\<open>while ((1U << i) < nSize) i++\<close>; it stops by 31 for sizes below 2^31.\<close>

function init_shift :: "uint \<Rightarrow> nat \<Rightarrow> nat" where
  "init_shift nSize i = (if i < 31 \<and> push_bit i 1 < nSize then init_shift nSize (Suc i) else i)"
  by pat_completeness auto
termination
  by (relation "measure (\<lambda>(n, i). 31 - i)") auto

declare init_shift.simps [simp del]

definition zend_hash_init :: "uint \<Rightarrow> bool \<Rightarrow> bool \<Rightarrow> 'v HashTable" where
  "zend_hash_init nSize dtor persist =
     \<lparr> nTableSize = (if nSize \<ge> 0x80000000 then 0x80000000 else push_bit (init_shift nSize 3) 1),
       nTableMask = 0, nNumOfElements = 0, nNextFreeElement = 0,
       pInternalPointer = None, pListHead = None, pListTail = None, arBuckets = [None],
       pDestructor = dtor, persistent = persist, nApplyCount = 0, bApplyProtection = True,
       bheap = Map.empty, blimit = 0, dtor_log = [] \<rparr>"

definition zend_hash_init_ex :: "uint \<Rightarrow> bool \<Rightarrow> bool \<Rightarrow> bool \<Rightarrow> 'v HashTable" where
  "zend_hash_init_ex nSize dtor persist protect =
     (zend_hash_init nSize dtor persist)\<lparr>bApplyProtection := protect\<rparr>"

definition zend_hash_set_apply_protection :: "bool \<Rightarrow> 'v HashTable \<Rightarrow> 'v HashTable" where
  "zend_hash_set_apply_protection protect ht = ht\<lparr>bApplyProtection := protect\<rparr>"

subsection \<open>Searching a collision chain\<close>

text \<open>The loop \<^verbatim>\<open>while (p != NULL) { if (match) ...; p = p->pNext; }\<close>.\<close>

partial_function (option) chain_search ::
    "('v Bucket \<Rightarrow> bool option) \<Rightarrow> 'v Bucket heap \<Rightarrow> ptr \<Rightarrow> ptr option" where
  "chain_search match m p =
     (case p of None \<Rightarrow> Some None
      | Some a \<Rightarrow> do {
          b \<leftarrow> m a;
          hit \<leftarrow> match b;
          if hit then Some (Some a) else chain_search match m (pNext b) })"

declare chain_search.simps [code]

definition str_match :: "charptr \<Rightarrow> uint \<Rightarrow> ulong \<Rightarrow> 'v Bucket \<Rightarrow> bool option" where
  "str_match key klen hv b = do {
     same \<leftarrow> ptr_eq (arKey b) key;
     Some (same \<or> (bkt_h b = hv \<and> nKeyLength b = klen \<and> memcmp_eq (arKey b) key klen)) }"

definition int_match :: "ulong \<Rightarrow> 'v Bucket \<Rightarrow> bool option" where
  "int_match hv b = Some (nKeyLength b = 0 \<and> bkt_h b = hv)"

definition del_match :: "charptr \<Rightarrow> uint \<Rightarrow> ulong \<Rightarrow> 'v Bucket \<Rightarrow> bool option" where
  "del_match key klen hv b =
     Some (bkt_h b = hv \<and> nKeyLength b = klen \<and> (nKeyLength b = 0 \<or> memcmp_eq (arKey b) key klen))"

definition find_bucket ::
    "('v Bucket \<Rightarrow> bool option) \<Rightarrow> ulong \<Rightarrow> 'v HashTable \<Rightarrow> ptr option" where
  "find_bucket match hv ht = do {
     p \<leftarrow> rd_slot (nIndex hv ht) ht;
     chain_search match (bheap ht) p }"

subsection \<open>Rehashing and growing\<close>

partial_function (option) rehash_loop :: "ptr \<Rightarrow> 'v HashTable \<Rightarrow> 'v HashTable option" where
  "rehash_loop p ht =
     (case p of None \<Rightarrow> Some ht
      | Some a \<Rightarrow> do {
          b \<leftarrow> bheap ht a;
          hd \<leftarrow> rd_slot (nIndex (bkt_h b) ht) ht;
          ht \<leftarrow> CONNECT_TO_BUCKET_DLLIST a hd ht;
          ht \<leftarrow> wr_slot (nIndex (bkt_h b) ht) (Some a) ht;
          b \<leftarrow> bheap ht a;
          rehash_loop (pListNext b) ht })"

declare rehash_loop.simps [code]

definition zend_hash_rehash :: "'v HashTable \<Rightarrow> 'v HashTable option" where
  "zend_hash_rehash ht =
     (if nNumOfElements ht = 0 then Some ht
      else rehash_loop (pListHead ht) (ht\<lparr>arBuckets := replicate (unat (nTableSize ht)) None\<rparr>))"

definition zend_hash_do_resize :: "'v HashTable \<Rightarrow> 'v HashTable option" where
  "zend_hash_do_resize ht =
     (if push_bit 1 (nTableSize ht) > 0
      then zend_hash_rehash
             (ht\<lparr>arBuckets := arBuckets ht @ replicate (unat (nTableSize ht)) None,
                 nTableSize := push_bit 1 (nTableSize ht),
                 nTableMask := push_bit 1 (nTableSize ht) - 1\<rparr>)
      else Some ht)"

definition ZEND_HASH_IF_FULL_DO_RESIZE :: "'v HashTable \<Rightarrow> 'v HashTable option" where
  "ZEND_HASH_IF_FULL_DO_RESIZE ht =
     (if nNumOfElements ht > nTableSize ht then zend_hash_do_resize ht else Some ht)"

subsection \<open>Insertion and update\<close>

text \<open>Overwriting the element of a bucket that was found.\<close>

definition update_found :: "nat \<Rightarrow> 'v \<Rightarrow> uint \<Rightarrow> 'v HashTable \<Rightarrow> 'v HashTable option" where
  "update_found p v sz ht = do {
     b \<leftarrow> bheap ht p;
     wr p (\<lambda>b. b\<lparr>pData := UPDATE_DATA sz v (pData b)\<rparr>) (run_dtor (stored (pData b)) ht) }"

definition new_str_bucket :: "charptr \<Rightarrow> uint \<Rightarrow> ulong \<Rightarrow> 'v \<Rightarrow> uint \<Rightarrow> 'v Bucket" where
  "new_str_bucket key klen hv v sz =
     \<lparr> bkt_h = hv, nKeyLength = klen, pData = INIT_DATA sz v,
       pListNext = None, pListLast = None, pNext = None, pLast = None,
       arKey = (if IS_INTERNED key then key else CPrivate (take (unat klen) (chars key))) \<rparr>"

definition new_int_bucket :: "ulong \<Rightarrow> 'v \<Rightarrow> uint \<Rightarrow> 'v Bucket" where
  "new_int_bucket hv v sz =
     \<lparr> bkt_h = hv, nKeyLength = 0, pData = INIT_DATA sz v,
       pListNext = None, pListLast = None, pNext = None, pLast = None, arKey = CNull \<rparr>"

text \<open>
  Linking a new bucket into its chain, its slot and the element list, in the order of
  \<open>_zend_hash_quick_add_or_update\<close> and \<open>_zend_hash_index_update_or_next_insert\<close>.
\<close>

definition link_bucket :: "nat \<Rightarrow> ulong \<Rightarrow> 'v HashTable \<Rightarrow> 'v HashTable option" where
  "link_bucket a hv ht = do {
     hd \<leftarrow> rd_slot (nIndex hv ht) ht;
     ht \<leftarrow> CONNECT_TO_BUCKET_DLLIST a hd ht;
     ht \<leftarrow> wr_slot (nIndex hv ht) (Some a) ht;
     CONNECT_TO_GLOBAL_DLLIST a ht }"

definition zend_hash_quick_add_or_update ::
    "charptr \<Rightarrow> uint \<Rightarrow> ulong \<Rightarrow> 'v \<Rightarrow> uint \<Rightarrow> uint \<Rightarrow> 'v HashTable \<Rightarrow>
     (zresult \<times> ptr \<times> 'v HashTable) option" where
  "zend_hash_quick_add_or_update key klen hv v sz flag ht0 = do {
     let ht = CHECK_INIT ht0;
     p \<leftarrow> find_bucket (str_match key klen hv) hv ht;
     (case p of
        Some a \<Rightarrow>
          if flag AND HASH_ADD \<noteq> 0 then Some (FAILURE, None, ht)
          else do { ht \<leftarrow> update_found a v sz ht; Some (SUCCESS, Some a, ht) }
      | None \<Rightarrow> do {
          let (a, ht) = pemalloc_bucket (new_str_bucket key klen hv v sz) ht;
          ht \<leftarrow> link_bucket a hv ht;
          ht \<leftarrow> ZEND_HASH_IF_FULL_DO_RESIZE (ht\<lparr>nNumOfElements := nNumOfElements ht + 1\<rparr>);
          Some (SUCCESS, Some a, ht) }) }"

definition zend_hash_add_or_update ::
    "charptr \<Rightarrow> uint \<Rightarrow> 'v \<Rightarrow> uint \<Rightarrow> uint \<Rightarrow> 'v HashTable \<Rightarrow>
     (zresult \<times> ptr \<times> 'v HashTable) option" where
  "zend_hash_add_or_update key klen v sz flag ht0 = do {
     let ht = CHECK_INIT ht0;
     hv \<leftarrow> zend_inline_hash_func (chars key) klen;
     p \<leftarrow> find_bucket (str_match key klen hv) hv ht;
     (case p of
        Some a \<Rightarrow>
          if flag AND HASH_ADD \<noteq> 0 then Some (FAILURE, None, ht)
          else do { ht \<leftarrow> update_found a v sz ht; Some (SUCCESS, Some a, ht) }
      | None \<Rightarrow> do {
          let (a, ht) = pemalloc_bucket (new_str_bucket key klen hv v sz) ht;
          hd \<leftarrow> rd_slot (nIndex hv ht) ht;
          ht \<leftarrow> CONNECT_TO_BUCKET_DLLIST a hd ht;
          ht \<leftarrow> CONNECT_TO_GLOBAL_DLLIST a ht;
          ht \<leftarrow> wr_slot (nIndex hv ht) (Some a) ht;
          ht \<leftarrow> ZEND_HASH_IF_FULL_DO_RESIZE (ht\<lparr>nNumOfElements := nNumOfElements ht + 1\<rparr>);
          Some (SUCCESS, Some a, ht) }) }"

definition zend_hash_update ::
    "charptr \<Rightarrow> uint \<Rightarrow> 'v \<Rightarrow> uint \<Rightarrow> 'v HashTable \<Rightarrow> (zresult \<times> ptr \<times> 'v HashTable) option" where
  "zend_hash_update key klen v sz ht = zend_hash_add_or_update key klen v sz HASH_UPDATE ht"

definition zend_hash_add ::
    "charptr \<Rightarrow> uint \<Rightarrow> 'v \<Rightarrow> uint \<Rightarrow> 'v HashTable \<Rightarrow> (zresult \<times> ptr \<times> 'v HashTable) option" where
  "zend_hash_add key klen v sz ht = zend_hash_add_or_update key klen v sz HASH_ADD ht"

text \<open>\<open>dummy\<close> is the element \<^verbatim>\<open>(void *) 1\<close>.\<close>

definition zend_hash_add_empty_element ::
    "charptr \<Rightarrow> uint \<Rightarrow> 'v \<Rightarrow> 'v HashTable \<Rightarrow> (zresult \<times> ptr \<times> 'v HashTable) option" where
  "zend_hash_add_empty_element key klen dummy ht = zend_hash_add key klen dummy sizeof_ptr ht"

definition bump_next_free :: "ulong \<Rightarrow> 'v HashTable \<Rightarrow> 'v HashTable" where
  "bump_next_free hv ht =
     (if sint hv \<ge> sint (nNextFreeElement ht)
      then ht\<lparr>nNextFreeElement := (if hv < LONG_MAX then hv + 1 else LONG_MAX)\<rparr>
      else ht)"

definition zend_hash_index_update_or_next_insert ::
    "ulong \<Rightarrow> 'v \<Rightarrow> uint \<Rightarrow> uint \<Rightarrow> 'v HashTable \<Rightarrow> (zresult \<times> ptr \<times> 'v HashTable) option" where
  "zend_hash_index_update_or_next_insert h0 v sz flag ht0 = do {
     let ht = CHECK_INIT ht0;
     let hv = (if flag AND HASH_NEXT_INSERT \<noteq> 0 then nNextFreeElement ht else h0);
     p \<leftarrow> find_bucket (int_match hv) hv ht;
     (case p of
        Some a \<Rightarrow>
          if flag AND HASH_NEXT_INSERT \<noteq> 0 \<or> flag AND HASH_ADD \<noteq> 0 then Some (FAILURE, None, ht)
          else do { ht \<leftarrow> update_found a v sz ht; Some (SUCCESS, Some a, ht) }
      | None \<Rightarrow> do {
          let (a, ht) = pemalloc_bucket (new_int_bucket hv v sz) ht;
          ht \<leftarrow> link_bucket a hv ht;
          let ht = bump_next_free hv ht;
          ht \<leftarrow> ZEND_HASH_IF_FULL_DO_RESIZE (ht\<lparr>nNumOfElements := nNumOfElements ht + 1\<rparr>);
          Some (SUCCESS, Some a, ht) }) }"

definition zend_hash_index_update ::
    "ulong \<Rightarrow> 'v \<Rightarrow> uint \<Rightarrow> 'v HashTable \<Rightarrow> (zresult \<times> ptr \<times> 'v HashTable) option" where
  "zend_hash_index_update hv v sz ht =
     zend_hash_index_update_or_next_insert hv v sz HASH_UPDATE ht"

definition zend_hash_next_index_insert ::
    "'v \<Rightarrow> uint \<Rightarrow> 'v HashTable \<Rightarrow> (zresult \<times> ptr \<times> 'v HashTable) option" where
  "zend_hash_next_index_insert v sz ht =
     zend_hash_index_update_or_next_insert 0 v sz HASH_NEXT_INSERT ht"

subsection \<open>Deletion\<close>

datatype del_flag = HASH_DEL_KEY | HASH_DEL_INDEX | HASH_DEL_KEY_QUICK

definition zend_hash_del_key_or_index ::
    "charptr \<Rightarrow> uint \<Rightarrow> ulong \<Rightarrow> del_flag \<Rightarrow> 'v HashTable \<Rightarrow> (zresult \<times> 'v HashTable) option" where
  "zend_hash_del_key_or_index key klen h0 flag ht = do {
     hv \<leftarrow> (if flag = HASH_DEL_KEY then zend_inline_hash_func (chars key) klen else Some h0);
     p \<leftarrow> find_bucket (del_match key klen hv) hv ht;
     (case p of
        Some a \<Rightarrow> do { ht \<leftarrow> i_zend_hash_bucket_delete a ht; Some (SUCCESS, ht) }
      | None \<Rightarrow> Some (FAILURE, ht)) }"

definition zend_hash_del :: "charptr \<Rightarrow> uint \<Rightarrow> 'v HashTable \<Rightarrow> (zresult \<times> 'v HashTable) option" where
  "zend_hash_del key klen ht = zend_hash_del_key_or_index key klen 0 HASH_DEL_KEY ht"

definition zend_hash_quick_del ::
    "charptr \<Rightarrow> uint \<Rightarrow> ulong \<Rightarrow> 'v HashTable \<Rightarrow> (zresult \<times> 'v HashTable) option" where
  "zend_hash_quick_del key klen hv ht = zend_hash_del_key_or_index key klen hv HASH_DEL_KEY_QUICK ht"

definition zend_hash_index_del :: "ulong \<Rightarrow> 'v HashTable \<Rightarrow> (zresult \<times> 'v HashTable) option" where
  "zend_hash_index_del hv ht = zend_hash_del_key_or_index CNull 0 hv HASH_DEL_INDEX ht"

subsection \<open>Lookup\<close>

text \<open>\<open>Some (Some v)\<close>: found (\<open>SUCCESS\<close>), \<open>*pData = v\<close>; \<open>Some None\<close>: \<open>FAILURE\<close>.\<close>

definition data_at :: "ptr \<Rightarrow> 'v HashTable \<Rightarrow> 'v option option" where
  "data_at p ht =
     (case p of None \<Rightarrow> Some None
      | Some a \<Rightarrow> (case bheap ht a of None \<Rightarrow> None | Some b \<Rightarrow> Some (Some (stored (pData b)))))"

definition zend_hash_find :: "charptr \<Rightarrow> uint \<Rightarrow> 'v HashTable \<Rightarrow> 'v option option" where
  "zend_hash_find key klen ht = do {
     hv \<leftarrow> zend_inline_hash_func (chars key) klen;
     p \<leftarrow> find_bucket (str_match key klen hv) hv ht;
     data_at p ht }"

definition zend_hash_quick_find :: "charptr \<Rightarrow> uint \<Rightarrow> ulong \<Rightarrow> 'v HashTable \<Rightarrow> 'v option option" where
  "zend_hash_quick_find key klen hv ht = do {
     p \<leftarrow> find_bucket (str_match key klen hv) hv ht;
     data_at p ht }"

definition zend_hash_exists :: "charptr \<Rightarrow> uint \<Rightarrow> 'v HashTable \<Rightarrow> bool option" where
  "zend_hash_exists key klen ht = do {
     hv \<leftarrow> zend_inline_hash_func (chars key) klen;
     p \<leftarrow> find_bucket (str_match key klen hv) hv ht;
     Some (p \<noteq> None) }"

definition zend_hash_quick_exists :: "charptr \<Rightarrow> uint \<Rightarrow> ulong \<Rightarrow> 'v HashTable \<Rightarrow> bool option" where
  "zend_hash_quick_exists key klen hv ht = do {
     p \<leftarrow> find_bucket (str_match key klen hv) hv ht;
     Some (p \<noteq> None) }"

definition zend_hash_index_find :: "ulong \<Rightarrow> 'v HashTable \<Rightarrow> 'v option option" where
  "zend_hash_index_find hv ht = do {
     p \<leftarrow> find_bucket (int_match hv) hv ht;
     data_at p ht }"

definition zend_hash_index_exists :: "ulong \<Rightarrow> 'v HashTable \<Rightarrow> bool option" where
  "zend_hash_index_exists hv ht = do {
     p \<leftarrow> find_bucket (int_match hv) hv ht;
     Some (p \<noteq> None) }"

definition zend_hash_num_elements :: "'v HashTable \<Rightarrow> uint" where
  "zend_hash_num_elements ht = nNumOfElements ht"

definition zend_hash_next_free_element :: "'v HashTable \<Rightarrow> ulong" where
  "zend_hash_next_free_element ht = nNextFreeElement ht"

end
