(* ===== verification/Zend_Hash_Rep.thy ===== *)
theory Zend_Hash_Rep
  imports Zend_Hash
begin

text \<open>
  The representation invariant of the hash table. A bucket heap is read through three
  views that the operations change independently: the links of the element list, the
  links of the collision chains, and the keys and elements. \<open>hash_struct\<close> says that the
  list links thread all live buckets in order, that every slot heads the chain of exactly
  the buckets that hash to it, and that the counters agree; the lemmas show that linking,
  unlinking, rehashing and growing keep it.
\<close>

unbundle bit_operations_syntax

subsection \<open>Views of the bucket heap\<close>

type_synonym 'v binfo = "ulong \<times> uint \<times> charptr \<times> 'v storage"

definition lview :: "'v Bucket heap \<Rightarrow> links" where
  "lview m a = map_option (\<lambda>b. (pListNext b, pListLast b)) (m a)"

definition cview :: "'v Bucket heap \<Rightarrow> links" where
  "cview m a = map_option (\<lambda>b. (pNext b, pLast b)) (m a)"

definition binfo_of :: "'v Bucket \<Rightarrow> 'v binfo" where
  "binfo_of b = (bkt_h b, nKeyLength b, arKey b, pData b)"

definition iview :: "'v Bucket heap \<Rightarrow> nat \<Rightarrow> 'v binfo option" where
  "iview m a = map_option binfo_of (m a)"

text \<open>The slot of a bucket.\<close>

definition slot_of :: "uint \<Rightarrow> (nat \<Rightarrow> 'v binfo option) \<Rightarrow> nat \<Rightarrow> nat" where
  "slot_of msk I a = unat (fst (the (I a)) AND ucast msk)"

text \<open>A chain of exactly the buckets \<open>S\<close>, and the chains of all slots.\<close>

definition chain_at :: "links \<Rightarrow> ptr \<Rightarrow> nat list \<Rightarrow> nat set \<Rightarrow> bool" where
  "chain_at L p c S \<longleftrightarrow> p = hd_or None c \<and> dseg L None c None \<and> distinct c \<and> set c = S"

definition chain_inv :: "links \<Rightarrow> ptr list \<Rightarrow> (nat \<Rightarrow> nat) \<Rightarrow> nat set \<Rightarrow> bool" where
  "chain_inv L B ix A \<longleftrightarrow>
     (\<forall>a\<in>A. ix a < length B) \<and>
     (\<forall>i<length B. \<exists>c. chain_at L (B ! i) c {a \<in> A. ix a = i})"

definition table_ok :: "'v HashTable \<Rightarrow> bool" where
  "table_ok ht \<longleftrightarrow>
     (\<exists>k. 3 \<le> k \<and> k \<le> 31 \<and> unat (nTableSize ht) = 2 ^ k) \<and>
     (nTableMask ht = 0 \<longrightarrow> arBuckets ht = [None]) \<and>
     (nTableMask ht \<noteq> 0 \<longrightarrow>
        nTableMask ht = nTableSize ht - 1 \<and> length (arBuckets ht) = unat (nTableSize ht))"

definition heap_struct :: "'v HashTable \<Rightarrow> nat list \<Rightarrow> bool" where
  "heap_struct ht ps \<longleftrightarrow>
     list_inv (lview (bheap ht)) (pListHead ht) (pListTail ht) ps \<and>
     set ps = dom (bheap ht) \<and> heap_bounded (bheap ht) (blimit ht) \<and>
     (\<forall>p. pInternalPointer ht = Some p \<longrightarrow> p \<in> set ps)"

definition hash_struct :: "'v HashTable \<Rightarrow> nat list \<Rightarrow> bool" where
  "hash_struct ht ps \<longleftrightarrow>
     heap_struct ht ps \<and> table_ok ht \<and> unat (nNumOfElements ht) = length ps \<and>
     chain_inv (cview (bheap ht)) (arBuckets ht) (slot_of (nTableMask ht) (iview (bheap ht))) (set ps)"

text \<open>The fields that linking, unlinking and growing leave alone.\<close>

definition same_meta :: "'v HashTable \<Rightarrow> 'v HashTable \<Rightarrow> bool" where
  "same_meta ht ht' \<longleftrightarrow>
     nNextFreeElement ht' = nNextFreeElement ht \<and> pDestructor ht' = pDestructor ht \<and>
     persistent ht' = persistent ht \<and> nApplyCount ht' = nApplyCount ht \<and>
     bApplyProtection ht' = bApplyProtection ht \<and> dtor_log ht' = dtor_log ht"

subsection \<open>Reading the views back\<close>

lemma binfo_of_links [simp]:
  "binfo_of (b\<lparr>pNext := v\<rparr>) = binfo_of b" "binfo_of (b\<lparr>pLast := v\<rparr>) = binfo_of b"
  "binfo_of (b\<lparr>pListNext := v\<rparr>) = binfo_of b" "binfo_of (b\<lparr>pListLast := v\<rparr>) = binfo_of b"
  by (simp_all add: binfo_of_def)

lemma binfo_of_sel: "fst (binfo_of b) = bkt_h b"
  by (simp add: binfo_of_def)

lemma view_upd [heap_simps]:
  "lview (m(a \<mapsto> b)) = (lview m)(a \<mapsto> (pListNext b, pListLast b))"
  "cview (m(a \<mapsto> b)) = (cview m)(a \<mapsto> (pNext b, pLast b))"
  "iview (m(a \<mapsto> b)) = (iview m)(a \<mapsto> binfo_of b)"
  by (auto simp: lview_def cview_def iview_def)

lemma view_free [heap_simps]:
  "lview (m(a := None)) = (lview m)(a := None)"
  "cview (m(a := None)) = (cview m)(a := None)"
  "iview (m(a := None)) = (iview m)(a := None)"
  by (auto simp: lview_def cview_def iview_def)

lemma view_at [heap_simps]:
  "m a = Some b \<Longrightarrow> lview m a = Some (pListNext b, pListLast b)"
  "m a = Some b \<Longrightarrow> cview m a = Some (pNext b, pLast b)"
  "m a = Some b \<Longrightarrow> iview m a = Some (binfo_of b)"
  by (simp_all add: lview_def cview_def iview_def)

lemma view_dom:
  "lview m a = None \<longleftrightarrow> m a = None"
  "cview m a = None \<longleftrightarrow> m a = None"
  "iview m a = None \<longleftrightarrow> m a = None"
  by (simp_all add: lview_def cview_def iview_def)

lemma dom_iview: "dom (iview m) = dom m"
  by (auto simp: dom_def view_dom)

lemma iview_same_dom: "iview m' = iview m \<Longrightarrow> dom m' = dom m"
  by (metis dom_iview)

lemma fun_upd_same: "f a = Some x \<Longrightarrow> f(a \<mapsto> x) = f"
  by auto

lemma wr_eq: "bheap ht a = Some b \<Longrightarrow> wr a f ht = Some (ht\<lparr>bheap := (bheap ht)(a \<mapsto> f b)\<rparr>)"
  by (simp add: wr_def)

text \<open>What one pointer write does to the views.\<close>

lemma wr_list_links:
  assumes "bheap ht a = Some b"
  shows "lview ((bheap ht)(a \<mapsto> b\<lparr>pListNext := v\<rparr>)) = set_next (lview (bheap ht)) a v"
    "lview ((bheap ht)(a \<mapsto> b\<lparr>pListLast := v\<rparr>)) = set_prev (lview (bheap ht)) a v"
  using assms by (simp_all add: heap_simps set_next_def set_prev_def)

lemma wr_chain_links:
  assumes "bheap ht a = Some b"
  shows "cview ((bheap ht)(a \<mapsto> b\<lparr>pNext := v\<rparr>)) = set_next (cview (bheap ht)) a v"
    "cview ((bheap ht)(a \<mapsto> b\<lparr>pLast := v\<rparr>)) = set_prev (cview (bheap ht)) a v"
  using assms by (simp_all add: heap_simps set_next_def set_prev_def)

text \<open>
  A heap \<open>m'\<close> with given views of its own: the lemmas on the operations give the table
  as the old one with another heap of which only the views matter.
\<close>

definition same_chains :: "'v Bucket heap \<Rightarrow> 'v Bucket heap \<Rightarrow> bool" where
  "same_chains m m' \<longleftrightarrow> cview m' = cview m \<and> iview m' = iview m"

definition same_list :: "'v Bucket heap \<Rightarrow> 'v Bucket heap \<Rightarrow> bool" where
  "same_list m m' \<longleftrightarrow> lview m' = lview m \<and> iview m' = iview m"

lemma same_chains_trans: "same_chains m m1 \<Longrightarrow> same_chains m1 m2 \<Longrightarrow> same_chains m m2"
  by (simp add: same_chains_def)

lemma same_list_trans: "same_list m m1 \<Longrightarrow> same_list m1 m2 \<Longrightarrow> same_list m m2"
  by (simp add: same_list_def)

lemma same_list_upd:
  "m a = Some b \<Longrightarrow> same_list m (m(a \<mapsto> b\<lparr>pNext := v\<rparr>))"
  "m a = Some b \<Longrightarrow> same_list m (m(a \<mapsto> b\<lparr>pLast := v\<rparr>))"
  "m a = Some b \<Longrightarrow> same_list m (m(a \<mapsto> b\<lparr>pNext := v, pLast := w\<rparr>))"
  by (simp_all add: same_list_def heap_simps fun_upd_same)

lemma same_chains_upd:
  "m a = Some b \<Longrightarrow> same_chains m (m(a \<mapsto> b\<lparr>pListNext := v\<rparr>))"
  "m a = Some b \<Longrightarrow> same_chains m (m(a \<mapsto> b\<lparr>pListLast := v\<rparr>))"
  "m a = Some b \<Longrightarrow> same_chains m (m(a \<mapsto> b\<lparr>pListLast := v, pListNext := w\<rparr>))"
  by (simp_all add: same_chains_def heap_simps fun_upd_same)

subsection \<open>Chains\<close>

lemma chain_at_cong: "(\<And>a. a \<in> S \<Longrightarrow> L a = L' a) \<Longrightarrow> chain_at L p c S = chain_at L' p c S"
  unfolding chain_at_def by (metis dseg_cong)

lemma chain_at_insert:
  assumes "chain_at L p c S" "a \<notin> S"
  shows "chain_at (set_prev_at (L(a \<mapsto> (p, None))) p (Some a)) (Some a) (a # c) (insert a S)"
  using dseg_insert [of L "[]" c a] assms by (auto simp: chain_at_def set_next_at_def)

lemma chain_at_delete:
  assumes c: "chain_at L h c S" and a: "a \<in> S" and La: "L a = Some (n, p)"
  shows "\<exists>c'. chain_at (set_prev_at (set_next_at L p n) n p) (if p = None then n else h) c' (S - {a})"
    and "p = Some l \<Longrightarrow> l \<in> S" and "n = Some l \<Longrightarrow> l \<in> S"
proof -
  from c a obtain us vs where split: "c = us @ a # vs"
    by (auto simp: chain_at_def in_set_conv_decomp)
  from c La have np: "n = hd_or None vs" "p = last_or None us"
    by (auto simp: chain_at_def split)
  have "chain_at (set_prev_at (set_next_at L p n) n p) (if p = None then n else h) (us @ vs) (S - {a})"
    using dseg_unlink [of L us a vs] c unfolding np chain_at_def split by (cases us) auto
  then show "\<exists>c'. chain_at (set_prev_at (set_next_at L p n) n p) (if p = None then n else h) c' (S - {a})"
    by blast
  show "p = Some l \<Longrightarrow> l \<in> S" "n = Some l \<Longrightarrow> l \<in> S"
    using c unfolding np chain_at_def split by (auto dest: last_or_in hd_or_in)
qed

lemma chain_inv_empty: "chain_inv L (replicate n None) ix {}"
  by (simp add: chain_inv_def chain_at_def)

lemma chain_inv_cong:
  assumes "\<And>a. a \<in> A \<Longrightarrow> L a = L' a" and "\<And>a. a \<in> A \<Longrightarrow> ix a = ix' a"
  shows "chain_inv L B ix A = chain_inv L' B ix' A"
proof -
  have "{a \<in> A. ix a = i} = {a \<in> A. ix' a = i}" for i
    using assms(2) by auto
  moreover have "chain_at L p c {a \<in> A. ix' a = i} = chain_at L' p c {a \<in> A. ix' a = i}" for p c i
    by (rule chain_at_cong) (simp add: assms(1))
  ultimately show ?thesis
    using assms(2) by (simp add: chain_inv_def)
qed

lemma chain_invD: "chain_inv L B ix A \<Longrightarrow> i < length B \<Longrightarrow> \<exists>c. chain_at L (B ! i) c {a \<in> A. ix a = i}"
  by (simp add: chain_inv_def)

lemma chain_inv_head: "chain_inv L B ix A \<Longrightarrow> i < length B \<Longrightarrow> B ! i = Some n \<Longrightarrow> n \<in> A \<and> ix n = i"
  by (drule (1) chain_invD) (auto simp: chain_at_def dest!: sym [of "Some n"] hd_or_in)

lemma chain_inv_links: "chain_inv L B ix A \<Longrightarrow> a \<in> A \<Longrightarrow> \<exists>n p. L a = Some (n, p)"
proof -
  assume inv: "chain_inv L B ix A" and a: "a \<in> A"
  then have "ix a < length B" by (simp add: chain_inv_def)
  then obtain c where "chain_at L (B ! ix a) c {b \<in> A. ix b = ix a}"
    using chain_invD [OF inv] by blast
  with a show "\<exists>n p. L a = Some (n, p)"
    using dseg_dom [of L None c None a] by (auto simp: chain_at_def)
qed

lemma chain_inv_insert:
  assumes inv: "chain_inv L B ix A" and new: "a \<notin> A" and i: "ix a < length B"
  shows "chain_inv (set_prev_at (L(a \<mapsto> (B ! ix a, None))) (B ! ix a) (Some a))
           (B[ix a := Some a]) ix (insert a A)"
proof -
  let ?i = "ix a" and ?L = "set_prev_at (L(a \<mapsto> (B ! ix a, None))) (B ! ix a) (Some a)"
  have "\<exists>c. chain_at ?L (B[?i := Some a] ! j) c {b \<in> insert a A. ix b = j}"
    if j: "j < length B" for j
  proof (cases "j = ?i")
    case True
    obtain c where "chain_at L (B ! ?i) c {b \<in> A. ix b = ?i}"
      using chain_invD [OF inv i] by blast
    then have "chain_at ?L (Some a) (a # c) (insert a {b \<in> A. ix b = ?i})"
      by (rule chain_at_insert) (use new in simp)
    moreover have "insert a {b \<in> A. ix b = ?i} = {b \<in> insert a A. ix b = ?i}"
      by auto
    ultimately show ?thesis using True i by (auto simp del: insert_iff)
  next
    case False
    obtain c where c: "chain_at L (B ! j) c {b \<in> A. ix b = j}"
      using chain_invD [OF inv j] by blast
    have "?L b = L b" if "b \<in> {b \<in> A. ix b = j}" for b
      using that new False chain_inv_head [OF inv i]
      by (auto simp: set_prev_at_def set_prev_def split: option.split)
    then have "chain_at ?L (B ! j) c {b \<in> A. ix b = j}"
      using c chain_at_cong by (metis (no_types, lifting))
    moreover have "{b \<in> insert a A. ix b = j} = {b \<in> A. ix b = j}"
      using False by auto
    ultimately show ?thesis using False by (auto simp del: insert_iff)
  qed
  moreover have "\<forall>b\<in>insert a A. ix b < length (B[?i := Some a])"
    using inv i by (auto simp: chain_inv_def)
  ultimately show ?thesis
    by (simp add: chain_inv_def)
qed

lemma chain_inv_delete:
  assumes inv: "chain_inv L B ix A" and a: "a \<in> A" and La: "L a = Some (n, p)"
  shows "chain_inv (set_prev_at (set_next_at L p n) n p)
           (if p = None then B[ix a := n] else B) ix (A - {a})"
proof -
  let ?i = "ix a" and ?B = "if p = None then B[ix a := n] else B"
  let ?L = "set_prev_at (set_next_at L p n) n p" and ?S = "\<lambda>j. {b \<in> A. ix b = j}"
  have i: "?i < length B" and aS: "a \<in> ?S ?i"
    using inv a by (auto simp: chain_inv_def)
  obtain ci where ci: "chain_at L (B ! ?i) ci (?S ?i)"
    using chain_invD [OF inv i] by blast
  note del = chain_at_delete [OF ci aS La]
  have "\<exists>c. chain_at ?L (?B ! j) c {b \<in> A - {a}. ix b = j}" if j: "j < length B" for j
  proof (cases "j = ?i")
    case True
    have "{b \<in> A - {a}. ix b = ?i} = ?S ?i - {a}" by auto
    then show ?thesis using del(1) True i by auto
  next
    case False
    obtain c where c: "chain_at L (B ! j) c (?S j)"
      using chain_invD [OF inv j] by blast
    have "?L b = L b" if "b \<in> ?S j" for b
      using that False del(2,3)
      by (auto simp: set_prev_at_def set_next_at_def set_prev_def set_next_def split: option.split)
    then have "chain_at ?L (B ! j) c (?S j)"
      using c chain_at_cong by (metis (no_types, lifting))
    moreover have "{b \<in> A - {a}. ix b = j} = ?S j"
      using False by auto
    ultimately show ?thesis using False by auto
  qed
  moreover have "\<forall>b\<in>A - {a}. ix b < length ?B" "length ?B = length B"
    using inv by (auto simp: chain_inv_def)
  ultimately show ?thesis
    by (simp add: chain_inv_def)
qed

text \<open>Searching a chain finds the first bucket of the chain that matches.\<close>

lemma chain_search_dseg:
  "dseg (cview m) q cs None \<Longrightarrow> (\<And>a b. a \<in> set cs \<Longrightarrow> m a = Some b \<Longrightarrow> match b = Some (P a)) \<Longrightarrow>
   chain_search match m (hd_or None cs) = Some (List.find P cs)"
proof (induction cs arbitrary: q)
  case Nil
  then show ?case by (simp add: chain_search.simps)
next
  case (Cons a cs)
  then obtain b where b: "m a = Some b" "pNext b = hd_or None cs"
    by (auto simp: cview_def)
  moreover have "match b = Some (P a)"
    using Cons.prems(2) b by simp
  moreover have "chain_search match m (hd_or None cs) = Some (List.find P cs)"
    using Cons by auto
  ultimately show ?case
    by (simp add: chain_search.simps [of match m "Some a"])
qed

subsection \<open>Linking and unlinking a bucket\<close>

lemma connect_bucket:
  assumes "bheap ht a = Some b" and "\<And>n. hp = Some n \<Longrightarrow> n \<noteq> a \<and> n \<in> dom (bheap ht)"
  obtains m' where "CONNECT_TO_BUCKET_DLLIST a hp ht = Some (ht\<lparr>bheap := m'\<rparr>)"
    "same_list (bheap ht) m'"
    "cview m' = set_prev_at ((cview (bheap ht))(a \<mapsto> (hp, None))) hp (Some a)"
proof (cases hp)
  case None
  then show thesis
    using assms(1) that [of "(bheap ht)(a \<mapsto> b\<lparr>pNext := None, pLast := None\<rparr>)"]
    by (simp add: CONNECT_TO_BUCKET_DLLIST_def wr_def same_list_upd set_prev_at_def heap_simps)
next
  case (Some n)
  with assms obtain bn where "n \<noteq> a" "bheap ht n = Some bn" by auto
  with Some assms(1) show thesis
    using that [of "(bheap ht)(a \<mapsto> b\<lparr>pNext := hp, pLast := None\<rparr>, n \<mapsto> bn\<lparr>pLast := Some a\<rparr>)"]
    by (simp add: CONNECT_TO_BUCKET_DLLIST_def wr_def same_list_def set_prev_at_def set_prev_def
                  heap_simps fun_upd_same)
qed

lemma connect_global_ex:
  assumes "bheap ht a = Some b"
    and "\<And>l. lst = Some l \<Longrightarrow> l \<noteq> a \<and> l \<in> dom (bheap ht)"
    and "\<And>n. nxt = Some n \<Longrightarrow> n \<noteq> a \<and> n \<in> dom (bheap ht) \<and> lst \<noteq> Some n"
  obtains m' where
    "CONNECT_TO_GLOBAL_DLLIST_EX a lst nxt ht =
       Some (ht\<lparr>bheap := m', pListHead := (if lst = None then Some a else pListHead ht),
                pListTail := (if nxt = None then Some a else pListTail ht)\<rparr>)"
    "same_chains (bheap ht) m'"
    "lview m' = set_prev_at (set_next_at ((lview (bheap ht))(a \<mapsto> (nxt, lst))) lst (Some a)) nxt (Some a)"
proof -
  let ?m0 = "(bheap ht)(a \<mapsto> b\<lparr>pListLast := lst, pListNext := nxt\<rparr>)"
  let ?m1 = "case lst of None \<Rightarrow> ?m0
             | Some l \<Rightarrow> ?m0(l \<mapsto> (the (bheap ht l))\<lparr>pListNext := Some a\<rparr>)"
  let ?m2 = "case nxt of None \<Rightarrow> ?m1
             | Some n \<Rightarrow> ?m1(n \<mapsto> (the (bheap ht n))\<lparr>pListLast := Some a\<rparr>)"
  have "CONNECT_TO_GLOBAL_DLLIST_EX a lst nxt ht =
       Some (ht\<lparr>bheap := ?m2, pListHead := (if lst = None then Some a else pListHead ht),
                pListTail := (if nxt = None then Some a else pListTail ht)\<rparr>)"
    using assms by (auto simp: CONNECT_TO_GLOBAL_DLLIST_EX_def wr_def split: option.split)
  moreover have "same_chains (bheap ht) ?m2"
    using assms by (auto simp: same_chains_def heap_simps fun_upd_same split: option.split)
  moreover have "lview ?m2 =
      set_prev_at (set_next_at ((lview (bheap ht))(a \<mapsto> (nxt, lst))) lst (Some a)) nxt (Some a)"
    using assms
    by (auto simp: set_prev_at_def set_prev_def set_next_at_def set_next_def heap_simps
             split: option.split)
  ultimately show thesis by (rule that)
qed

lemma unchain:
  assumes "bheap ht p = Some b" and "pLast b = None \<Longrightarrow> nIndex (bkt_h b) ht < length (arBuckets ht)"
    and "\<And>l. pLast b = Some l \<Longrightarrow> l \<noteq> p \<and> l \<in> dom (bheap ht)"
    and "\<And>n. pNext b = Some n \<Longrightarrow> n \<noteq> p \<and> n \<in> dom (bheap ht) \<and> pLast b \<noteq> Some n"
  obtains m' where
    "bucket_unchain p ht =
       Some (ht\<lparr>bheap := m', arBuckets := (if pLast b = None
              then (arBuckets ht)[nIndex (bkt_h b) ht := pNext b] else arBuckets ht)\<rparr>)"
    "same_list (bheap ht) m'"
    "cview m' = set_prev_at (set_next_at (cview (bheap ht)) (pLast b) (pNext b)) (pNext b) (pLast b)"
proof -
  let ?m1 = "case pLast b of None \<Rightarrow> bheap ht
             | Some l \<Rightarrow> (bheap ht)(l \<mapsto> (the (bheap ht l))\<lparr>pNext := pNext b\<rparr>)"
  let ?m2 = "case pNext b of None \<Rightarrow> ?m1
             | Some n \<Rightarrow> ?m1(n \<mapsto> (the (bheap ht n))\<lparr>pLast := pLast b\<rparr>)"
  have "bucket_unchain p ht =
       Some (ht\<lparr>bheap := ?m2, arBuckets := (if pLast b = None
              then (arBuckets ht)[nIndex (bkt_h b) ht := pNext b] else arBuckets ht)\<rparr>)"
    using assms by (auto simp: bucket_unchain_def wr_def wr_slot_def split: option.split)
  moreover have "same_list (bheap ht) ?m2"
    using assms by (auto simp: same_list_def heap_simps fun_upd_same split: option.split)
  moreover have "cview ?m2 =
      set_prev_at (set_next_at (cview (bheap ht)) (pLast b) (pNext b)) (pNext b) (pLast b)"
    using assms
    by (auto simp: set_prev_at_def set_prev_def set_next_at_def set_next_def heap_simps
             split: option.split)
  ultimately show thesis by (rule that)
qed

lemma unlist:
  assumes "bheap ht p = Some b"
    and "\<And>l. pListLast b = Some l \<Longrightarrow> l \<noteq> p \<and> l \<in> dom (bheap ht)"
    and "\<And>n. pListNext b = Some n \<Longrightarrow> n \<noteq> p \<and> n \<in> dom (bheap ht) \<and> pListLast b \<noteq> Some n"
  obtains m' where
    "bucket_unlist p ht =
       Some (ht\<lparr>bheap := m', pListHead := (if pListLast b = None then pListNext b else pListHead ht),
                pListTail := (if pListNext b = None then pListLast b else pListTail ht)\<rparr>)"
    "same_chains (bheap ht) m'"
    "lview m' = set_prev_at (set_next_at (lview (bheap ht)) (pListLast b) (pListNext b))
                  (pListNext b) (pListLast b)"
proof -
  let ?m1 = "case pListLast b of None \<Rightarrow> bheap ht
             | Some l \<Rightarrow> (bheap ht)(l \<mapsto> (the (bheap ht l))\<lparr>pListNext := pListNext b\<rparr>)"
  let ?m2 = "case pListNext b of None \<Rightarrow> ?m1
             | Some n \<Rightarrow> ?m1(n \<mapsto> (the (bheap ht n))\<lparr>pListLast := pListLast b\<rparr>)"
  have "bucket_unlist p ht =
       Some (ht\<lparr>bheap := ?m2,
                pListHead := (if pListLast b = None then pListNext b else pListHead ht),
                pListTail := (if pListNext b = None then pListLast b else pListTail ht)\<rparr>)"
    using assms by (auto simp: bucket_unlist_def wr_def split: option.split)
  moreover have "same_chains (bheap ht) ?m2"
    using assms by (auto simp: same_chains_def heap_simps fun_upd_same split: option.split)
  moreover have "lview ?m2 = set_prev_at (set_next_at (lview (bheap ht)) (pListLast b) (pListNext b))
                  (pListNext b) (pListLast b)"
    using assms
    by (auto simp: set_prev_at_def set_prev_def set_next_at_def set_next_def heap_simps
             split: option.split)
  ultimately show thesis by (rule that)
qed

subsection \<open>Slots\<close>

lemma table_ok_pos: "table_ok ht \<Longrightarrow> 0 < unat (nTableSize ht)"
  by (auto simp: table_ok_def)

lemma table_size_ge: "table_ok ht \<Longrightarrow> 8 \<le> unat (nTableSize ht)"
proof -
  assume "table_ok ht"
  then obtain k where "3 \<le> k" "unat (nTableSize ht) = 2 ^ k" by (auto simp: table_ok_def)
  then show ?thesis using power_increasing [of 3 k "2::nat"] by simp
qed

lemma nIndex_bound: "table_ok ht \<Longrightarrow> nIndex hv ht < length (arBuckets ht)"
proof -
  assume ok: "table_ok ht"
  show ?thesis
  proof (cases "nTableMask ht = 0")
    case True
    with ok show ?thesis by (simp add: table_ok_def nIndex_def)
  next
    case False
    have "hv AND ucast (nTableMask ht) \<le> (ucast (nTableMask ht) :: 64 word)"
      by (rule word_and_le1)
    then have "nIndex hv ht \<le> unat (nTableMask ht)"
      by (simp add: nIndex_def word_le_nat_alt unat_ucast_uint_ulong)
    moreover have "unat (nTableMask ht) < unat (nTableSize ht)"
      using False ok unat_pred_less [of "nTableSize ht"] table_ok_pos [OF ok]
      by (simp add: table_ok_def unat_gt_0)
    ultimately show ?thesis using False ok by (simp add: table_ok_def)
  qed
qed

lemma slot_of_nIndex:
  "m a = Some b \<Longrightarrow> slot_of (nTableMask ht) (iview m) a = nIndex (bkt_h b) ht"
  by (simp add: slot_of_def nIndex_def heap_simps binfo_of_sel)

lemma hash_struct_fields:
  "bheap ht' = bheap ht \<Longrightarrow> blimit ht' = blimit ht \<Longrightarrow> pListHead ht' = pListHead ht \<Longrightarrow>
   pListTail ht' = pListTail ht \<Longrightarrow> pInternalPointer ht' = pInternalPointer ht \<Longrightarrow>
   nTableSize ht' = nTableSize ht \<Longrightarrow> nTableMask ht' = nTableMask ht \<Longrightarrow>
   nNumOfElements ht' = nNumOfElements ht \<Longrightarrow> arBuckets ht' = arBuckets ht \<Longrightarrow>
   hash_struct ht' ps = hash_struct ht ps"
  by (simp add: hash_struct_def heap_struct_def table_ok_def)

lemma hash_struct_meta [simp]:
  "hash_struct (ht\<lparr>nNextFreeElement := x\<rparr>) ps = hash_struct ht ps"
  "hash_struct (ht\<lparr>nApplyCount := c\<rparr>) ps = hash_struct ht ps"
  "hash_struct (ht\<lparr>bApplyProtection := v\<rparr>) ps = hash_struct ht ps"
  by (simp_all add: hash_struct_def heap_struct_def table_ok_def)

lemma hash_structD:
  assumes "hash_struct ht ps"
  shows "list_inv (lview (bheap ht)) (pListHead ht) (pListTail ht) ps" "set ps = dom (bheap ht)"
    "heap_bounded (bheap ht) (blimit ht)" "table_ok ht" "unat (nNumOfElements ht) = length ps"
    "chain_inv (cview (bheap ht)) (arBuckets ht) (slot_of (nTableMask ht) (iview (bheap ht))) (set ps)"
    "distinct ps" "pInternalPointer ht = Some p \<Longrightarrow> p \<in> set ps"
  using assms by (auto simp: hash_struct_def heap_struct_def list_inv_def)

text \<open>Searching the slot of a hash value finds a matching bucket of that slot, if there is one.\<close>

lemma find_bucket_spec:
  assumes hs: "hash_struct ht ps"
    and match: "\<And>a b. bheap ht a = Some b \<Longrightarrow> nIndex (bkt_h b) ht = nIndex hv ht \<Longrightarrow> match b = Some (P a)"
  obtains (none) "find_bucket match hv ht = Some None"
      "\<forall>a b. bheap ht a = Some b \<longrightarrow> nIndex (bkt_h b) ht = nIndex hv ht \<longrightarrow> \<not> P a"
  | (some) a b where "find_bucket match hv ht = Some (Some a)" "bheap ht a = Some b"
      "nIndex (bkt_h b) ht = nIndex hv ht" "P a"
proof -
  let ?i = "nIndex hv ht" and ?ix = "slot_of (nTableMask ht) (iview (bheap ht))"
  note D = hash_structD [OF hs]
  have i: "?i < length (arBuckets ht)" by (rule nIndex_bound [OF D(4)])
  obtain c where c: "chain_at (cview (bheap ht)) (arBuckets ht ! ?i) c {a \<in> set ps. ?ix a = ?i}"
    using chain_invD [OF D(6) i] by blast
  have mem: "a \<in> set c \<longleftrightarrow> (\<exists>b. bheap ht a = Some b \<and> nIndex (bkt_h b) ht = ?i)" for a
    using c D(2) by (auto simp: chain_at_def slot_of_nIndex)
  have "chain_search match (bheap ht) (hd_or None c) = Some (List.find P c)"
    using c match mem by (intro chain_search_dseg [of _ None]) (auto simp: chain_at_def)
  then have run: "find_bucket match hv ht = Some (List.find P c)"
    using i c by (simp add: find_bucket_def rd_slot_def chain_at_def)
  show thesis
  proof (cases "List.find P c")
    case None
    then show thesis using run mem by (intro none) (auto simp: find_None_iff)
  next
    case (Some a)
    then show thesis using run mem some by (auto dest!: find_SomeD)
  qed
qed

subsection \<open>Inserting a new bucket\<close>

lemma pemalloc_struct:
  assumes "hash_struct ht ps" "pemalloc_bucket b ht = (a, ht1)"
  shows "ht1 = ht\<lparr>bheap := (bheap ht)(a \<mapsto> b), blimit := max (blimit ht) (Suc a)\<rparr>"
    "a \<notin> set ps" "bheap ht a = None" "heap_bounded (bheap ht1) (blimit ht1)"
  using assms hash_structD(2,3) [OF assms(1)] heap_bounded_alloc [of "bheap ht" "blimit ht" b]
    fresh_addr_free [of "bheap ht" "blimit ht"]
  by (auto simp: pemalloc_bucket_def Let_def)

lemma slot_of_upd [simp]:
  "slot_of k (I(a \<mapsto> x)) c = (if c = a then unat (fst x AND ucast k) else slot_of k I c)"
  by (simp add: slot_of_def)

lemma link_bucket_struct:
  assumes hs: "hash_struct ht ps" and alloc: "pemalloc_bucket b ht = (a, ht1)"
    and len: "length ps < 2 ^ 32 - 1" and init: "nTableMask ht \<noteq> 0"
  obtains ht2 where "link_bucket a (bkt_h b) ht1 = Some ht2"
    "hash_struct (ht2\<lparr>nNumOfElements := nNumOfElements ht2 + 1\<rparr>) (ps @ [a])"
    "iview (bheap ht2) = (iview (bheap ht))(a \<mapsto> binfo_of b)"
    "same_meta ht ht2" "nTableMask ht2 = nTableMask ht" "nNumOfElements ht2 = nNumOfElements ht"
    "pInternalPointer ht2 = (if pInternalPointer ht = None then Some a else pInternalPointer ht)"
proof -
  note D = hash_structD [OF hs] and A = pemalloc_struct [OF hs alloc]
  let ?i = "nIndex (bkt_h b) ht" and ?B = "arBuckets ht"
  let ?ix = "slot_of (nTableMask ht) (iview (bheap ht1))"
  have i: "?i < length ?B" by (rule nIndex_bound [OF D(4)])
  have idx: "nIndex (bkt_h b) (ht1\<lparr>bheap := m\<rparr>) = ?i" "nIndex (bkt_h b) ht1 = ?i" for m
    by (simp_all add: nIndex_def A(1))
  have ixa: "?ix a = ?i" by (simp add: A(1) heap_simps nIndex_def binfo_of_sel)
  have ch1: "chain_inv (cview (bheap ht)) ?B ?ix (set ps)"
    using D(6) A(2) by (subst chain_inv_cong [of _ _ "cview (bheap ht)"]) (auto simp: A(1) heap_simps)
  have head: "?B ! ?i = Some n \<Longrightarrow> n \<noteq> a \<and> n \<in> dom (bheap ht1)" for n
    using chain_inv_head [OF ch1 i] A(2) D(2) by (auto simp: A(1))
  obtain m1 where m1: "CONNECT_TO_BUCKET_DLLIST a (?B ! ?i) ht1 = Some (ht1\<lparr>bheap := m1\<rparr>)"
    "same_list (bheap ht1) m1"
    "cview m1 = set_prev_at ((cview (bheap ht1))(a \<mapsto> (?B ! ?i, None))) (?B ! ?i) (Some a)"
    by (rule connect_bucket [of ht1 a b "?B ! ?i"]) (use A(1) head in auto)
  let ?ht2 = "ht1\<lparr>bheap := m1, arBuckets := ?B[?i := Some a]\<rparr>"
  have dom1: "dom m1 = insert a (set ps)"
    using m1(2) iview_same_dom [of m1 "bheap ht1"] D(2) by (auto simp: same_list_def A(1))
  obtain b1 where b1: "m1 a = Some b1" using dom1 by blast
  have tail: "pListTail ht = last_or None ps" using D(1) by (simp add: list_inv_def)
  obtain m2 where m2: "CONNECT_TO_GLOBAL_DLLIST_EX a (pListTail ht) None ?ht2 =
      Some (?ht2\<lparr>bheap := m2, pListHead := (if pListTail ht = None then Some a else pListHead ?ht2),
              pListTail := Some a\<rparr>)"
    "same_chains m1 m2"
    "lview m2 = set_next_at ((lview m1)(a \<mapsto> (None, pListTail ht))) (pListTail ht) (Some a)"
    by (rule connect_global_ex [of ?ht2 a b1 "pListTail ht" None])
       (use b1 dom1 A(2) in \<open>auto simp: tail set_prev_at_def dest: last_or_in\<close>)
  let ?ht3 = "?ht2\<lparr>bheap := m2, pListHead := (if ps = [] then Some a else pListHead ht), pListTail := Some a\<rparr>"
  let ?ht4 = "if pInternalPointer ht = None then ?ht3\<lparr>pInternalPointer := Some a\<rparr> else ?ht3"
  have run: "link_bucket a (bkt_h b) ht1 = Some ?ht4"
    using m1(1) m2(1) i idx
    by (simp add: link_bucket_def rd_slot_def wr_slot_def CONNECT_TO_GLOBAL_DLLIST_def tail A(1))
  have iv: "iview m2 = iview (bheap ht1)"
    using m1(2) m2(2) by (simp add: same_list_def same_chains_def)
  have "list_inv (lview m2) (if ps = [] then Some a else pListHead ht) (Some a) (ps @ [a])"
  proof -
    have "lview m2 = set_next_at ((lview (bheap ht))(a \<mapsto> (None, last_or None ps))) (last_or None ps) (Some a)"
      using m1(2) m2(3) by (simp add: same_list_def tail A(1) heap_simps)
    then show ?thesis
      using list_inv_insert [of "lview (bheap ht)" "pListHead ht" "pListTail ht" ps "[]" a] D(1) A(2)
      by (simp add: set_prev_at_def)
  qed
  moreover have "chain_inv (cview m2) (?B[?i := Some a]) ?ix (set (ps @ [a]))"
  proof -
    have "cview m2 = set_prev_at ((cview (bheap ht))(a \<mapsto> (?B ! ?i, None))) (?B ! ?i) (Some a)"
      using m1(3) m2(2) by (simp add: same_chains_def A(1) heap_simps)
    then show ?thesis
      using chain_inv_insert [OF ch1, of a] A(2) i by (simp add: ixa)
  qed
  moreover have "heap_bounded m2 (blimit ht1)"
    using A(4) heap_bounded_dom iview_same_dom [OF iv] by blast
  moreover have "dom m2 = insert a (set ps)"
    using iview_same_dom [OF iv] D(2) by (simp add: A(1))
  ultimately have "hash_struct (?ht4\<lparr>nNumOfElements := nNumOfElements ?ht4 + 1\<rparr>) (ps @ [a])"
    using D(4,5,8) init len
    by (auto simp: hash_struct_def heap_struct_def table_ok_def A(1) iv unat_Suc_uint)
  with run show thesis
    by (rule that) (auto simp: same_meta_def A(1) iv heap_simps)
qed


subsection \<open>Deleting a bucket\<close>

lemma chain_inv_neighbours:
  assumes "chain_inv L B ix A" "a \<in> A" "L a = Some (n, p)"
  shows "n = Some l \<Longrightarrow> l \<in> A \<and> l \<noteq> a \<and> p \<noteq> Some l" "p = Some l \<Longrightarrow> l \<in> A \<and> l \<noteq> a"
proof -
  obtain c where c: "chain_at L (B ! ix a) c {b \<in> A. ix b = ix a}"
    using assms(1,2) by (auto simp: chain_inv_def)
  with assms(2) have "a \<in> set c" by (simp add: chain_at_def)
  then obtain us vs where split: "c = us @ a # vs" by (auto simp: in_set_conv_decomp)
  have np: "n = hd_or None vs" "p = last_or None us"
    using c assms(3) by (auto simp: chain_at_def split)
  have sub: "set us \<union> set vs \<subseteq> A - {a}" "set us \<inter> set vs = {}"
    using c by (auto simp: chain_at_def split)
  show "n = Some l \<Longrightarrow> l \<in> A \<and> l \<noteq> a \<and> p \<noteq> Some l" "p = Some l \<Longrightarrow> l \<in> A \<and> l \<noteq> a"
    using sub unfolding np by (auto dest: hd_or_in last_or_in)
qed

lemma struct_uninit:
  assumes "hash_struct ht ps" "nTableMask ht = 0"
  shows "ps = []"
proof -
  note D = hash_structD [OF assms(1)]
  have B: "arBuckets ht = [None]" using D(4) assms(2) by (simp add: table_ok_def)
  then obtain c where c: "chain_at (cview (bheap ht)) None c
      {a \<in> set ps. slot_of (nTableMask ht) (iview (bheap ht)) a = 0}"
    using chain_invD [OF D(6), of 0] by auto
  have "slot_of (nTableMask ht) (iview (bheap ht)) a = 0" for a
    by (simp add: slot_of_def assms(2))
  with c have "None = hd_or None c \<and> set c = set ps" by (simp add: chain_at_def)
  then show ?thesis by (metis hd_or_None_iff set_empty)
qed

lemma hash_struct_run_dtor [simp]: "hash_struct (run_dtor v ht) ps = hash_struct ht ps"
  by (auto simp: run_dtor_def hash_struct_def heap_struct_def table_ok_def)

lemma iview_transfer:
  assumes "iview m' = iview m" "m a = Some b"
  obtains b' where "m' a = Some b'" "bkt_h b' = bkt_h b" "nKeyLength b' = nKeyLength b"
    "arKey b' = arKey b" "pData b' = pData b"
proof -
  from assms have "iview m' a = Some (binfo_of b)"
    by (simp add: heap_simps)
  then show thesis using that by (auto simp: iview_def binfo_of_def)
qed

lemma delete_struct:
  assumes hs: "hash_struct ht (us @ a # vs)" and ba: "bheap ht a = Some b"
  obtains ht' where "i_zend_hash_bucket_delete a ht = Some ht'"
    "hash_struct ht' (us @ vs)" "iview (bheap ht') = (iview (bheap ht))(a := None)"
    "same_meta (run_dtor (stored (pData b)) ht) ht'"
    "nTableSize ht' = nTableSize ht" "nTableMask ht' = nTableMask ht"
    "pInternalPointer ht' = (if pInternalPointer ht = Some a then hd_or None vs else pInternalPointer ht)"
proof -
  note D = hash_structD [OF hs]
  let ?ix = "slot_of (nTableMask ht) (iview (bheap ht))"
  let ?B = "if pLast b = None then (arBuckets ht)[nIndex (bkt_h b) ht := pNext b] else arBuckets ht"
  have a: "a \<in> set (us @ a # vs)" by simp
  have cv: "cview (bheap ht) a = Some (pNext b, pLast b)"
    and lv: "pListNext b = hd_or None vs" "pListLast b = last_or None us"
    using ba list_inv_at [OF D(1)] by (simp_all add: heap_simps)
  note N = chain_inv_neighbours [OF D(6) a cv]
  have ixa: "?ix a = nIndex (bkt_h b) ht" by (rule slot_of_nIndex) (rule ba)
  obtain m1 where m1: "bucket_unchain a ht = Some (ht\<lparr>bheap := m1, arBuckets := ?B\<rparr>)"
    "same_list (bheap ht) m1"
    "cview m1 = set_prev_at (set_next_at (cview (bheap ht)) (pLast b) (pNext b)) (pNext b) (pLast b)"
    by (rule unchain [OF ba]) (use N D(2) nIndex_bound [OF D(4)] in auto)
  let ?ht1 = "ht\<lparr>bheap := m1, arBuckets := ?B\<rparr>"
  have "iview m1 = iview (bheap ht)" "lview m1 = lview (bheap ht)"
    using m1(2) by (simp_all add: same_list_def)
  note v1 = this iview_same_dom [OF this(1)]
  obtain b1 where b1: "m1 a = Some b1" "pData b1 = pData b"
    by (rule iview_transfer [OF v1(1) ba])
  have b1l: "pListNext b1 = hd_or None vs" "pListLast b1 = last_or None us"
    using b1(1) view_at(1) [of m1 a b1] v1(2) list_inv_at [OF D(1)] by simp_all
  have nb: "hd_or None vs = Some l \<Longrightarrow> l \<noteq> a \<and> l \<in> dom m1 \<and> last_or None us \<noteq> Some l"
    "last_or None us = Some l \<Longrightarrow> l \<noteq> a \<and> l \<in> dom m1" for l
    using D(2,7) v1(3) by (auto dest!: hd_or_in last_or_in)
  obtain m2 where m2: "bucket_unlist a ?ht1 =
      Some (?ht1\<lparr>bheap := m2,
              pListHead := (if last_or None us = None then hd_or None vs else pListHead ?ht1),
              pListTail := (if hd_or None vs = None then last_or None us else pListTail ?ht1)\<rparr>)"
    "same_chains (bheap ?ht1) m2"
    "lview m2 = set_prev_at (set_next_at (lview (bheap ?ht1)) (last_or None us) (hd_or None vs))
                  (hd_or None vs) (last_or None us)"
    by (rule unlist [of ?ht1 a b1, unfolded b1l]) (use b1(1) nb in auto)
  have iv2: "iview m2 = iview (bheap ht)" using m2(2) v1(1) by (simp add: same_chains_def)
  obtain b2 where b2: "m2 a = Some b2" "pData b2 = pData b"
    by (rule iview_transfer [OF iv2 ba])
  have "lview m2 a = Some (hd_or None vs, last_or None us)"
    using D(7) list_inv_at [OF D(1)] by (simp add: m2(3) v1(2))
  then have b2n: "pListNext b2 = hd_or None vs" using view_at(1) [of m2 a b2] b2(1) by simp
  let ?ht2 = "?ht1\<lparr>bheap := m2(a := None), pListHead := (if us = [] then hd_or None vs else pListHead ht),
              pListTail := (if vs = [] then last_or None us else pListTail ht),
              pInternalPointer := (if pInternalPointer ht = Some a then hd_or None vs else pInternalPointer ht),
              nNumOfElements := nNumOfElements ht - 1\<rparr>"
  let ?ht' = "run_dtor (stored (pData b)) ?ht2"
  have run: "i_zend_hash_bucket_delete a ht = Some ?ht'"
    using m1(1) m2(1) b2 b2n
    by (simp add: i_zend_hash_bucket_delete_def pefree_bucket_def run_dtor_def Let_def)
  have "list_inv (lview (m2(a := None))) (pListHead ?ht2) (pListTail ?ht2) (us @ vs)"
    using list_inv_delete [OF D(1)] D(7)
    by (subst list_inv_cong [of _ _ "lview m2"]) (auto simp: heap_simps m2(3) v1(2))
  moreover have "chain_inv (cview (m2(a := None))) ?B (slot_of (nTableMask ht) (iview (m2(a := None)))) (set (us @ vs))"
  proof -
    have "cview m2 = set_prev_at (set_next_at (cview (bheap ht)) (pLast b) (pNext b)) (pNext b) (pLast b)"
      using m2(2) m1(3) by (simp add: same_chains_def)
    then have "chain_inv (cview m2) ?B ?ix (set (us @ a # vs) - {a})"
      using chain_inv_delete [OF D(6) a cv] unfolding ixa by simp
    moreover have "set (us @ a # vs) - {a} = set (us @ vs)" using D(7) by auto
    ultimately show ?thesis
      using D(7) by (subst chain_inv_cong [of _ _ "cview m2" _ ?ix]) (auto simp: heap_simps iv2 slot_of_def)
  qed
  moreover have "dom (m2(a := None)) = set (us @ vs)"
    using iview_same_dom [OF iv2] D(2,7) by auto
  moreover have "heap_bounded (m2(a := None)) (blimit ht)"
    using D(3) heap_bounded_free heap_bounded_dom iview_same_dom [OF iv2] by blast
  moreover have "unat (nNumOfElements ht - 1) = length (us @ vs)"
    using D(5) unat_minus_one [of "nNumOfElements ht"] by (auto simp: unat_gt_0 [symmetric])
  moreover have "nTableMask ht \<noteq> 0" using struct_uninit [OF hs] by auto
  ultimately have "hash_struct ?ht2 (us @ vs)"
    using D(4,8) by (auto simp: hash_struct_def heap_struct_def table_ok_def dest: hd_or_in)
  then have "hash_struct ?ht' (us @ vs)"
    by simp
  with run show thesis
    by (rule that) (auto simp: run_dtor_def same_meta_def heap_simps iv2)
qed

subsection \<open>Rehashing and growing\<close>

text \<open>
  The loop invariant of \<open>rehash_loop\<close>: the buckets \<open>done\<close> are in their chains, the
  buckets \<open>todo\<close> are still to be visited.
\<close>

lemma rehash_loop_chains:
  assumes "dseg (lview (bheap ht)) q todo None" "distinct todo" "set todo \<subseteq> dom (bheap ht)"
    and "chain_inv (cview (bheap ht)) (arBuckets ht) (slot_of (nTableMask ht) (iview (bheap ht))) S"
    and "S \<subseteq> dom (bheap ht)" "S \<inter> set todo = {}" "table_ok ht" "nTableMask ht \<noteq> 0"
  shows "\<exists>m' B'. rehash_loop (hd_or None todo) ht = Some (ht\<lparr>bheap := m', arBuckets := B'\<rparr>) \<and>
           same_list (bheap ht) m' \<and> length B' = length (arBuckets ht) \<and>
           chain_inv (cview m') B' (slot_of (nTableMask ht) (iview m')) (S \<union> set todo)"
  using assms
proof (induction todo arbitrary: ht q S)
  case Nil
  then show ?case
    by (intro exI [of _ "bheap ht"] exI [of _ "arBuckets ht"])
       (simp add: rehash_loop.simps [of None] same_list_def)
next
  case (Cons a todo)
  let ?ix = "slot_of (nTableMask ht) (iview (bheap ht))" and ?B = "arBuckets ht"
  from Cons.prems(3) obtain b where b: "bheap ht a = Some b" by auto
  have next_b: "pListNext b = hd_or None todo"
    using Cons.prems(1) view_at(1) [of "bheap ht" a b] b by simp
  have ixa: "?ix a = nIndex (bkt_h b) ht" by (rule slot_of_nIndex) (rule b)
  have i: "nIndex (bkt_h b) ht < length ?B" by (rule nIndex_bound [OF Cons.prems(7)])
  have aS: "a \<notin> S" using Cons.prems(6) by auto
  have head: "?B ! nIndex (bkt_h b) ht = Some n \<Longrightarrow> n \<noteq> a \<and> n \<in> dom (bheap ht)" for n
    using chain_inv_head [OF Cons.prems(4) i] Cons.prems(5) aS by auto
  obtain m1 where m1: "CONNECT_TO_BUCKET_DLLIST a (?B ! nIndex (bkt_h b) ht) ht = Some (ht\<lparr>bheap := m1\<rparr>)"
    "same_list (bheap ht) m1"
    "cview m1 = set_prev_at ((cview (bheap ht))(a \<mapsto> (?B ! nIndex (bkt_h b) ht, None)))
                  (?B ! nIndex (bkt_h b) ht) (Some a)"
    by (rule connect_bucket [of ht a b "?B ! nIndex (bkt_h b) ht"]) (use b head in auto)
  let ?ht1 = "ht\<lparr>bheap := m1, arBuckets := ?B[nIndex (bkt_h b) ht := Some a]\<rparr>"
  have v1: "iview m1 = iview (bheap ht)" "lview m1 = lview (bheap ht)"
    using m1(2) by (simp_all add: same_list_def)
  obtain b1 where b1: "m1 a = Some b1" by (rule iview_transfer [OF v1(1) b])
  have "pListNext b1 = hd_or None todo"
    using b1 view_at(1) [of m1 a b1] v1(2) Cons.prems(1) by simp
  then have step: "rehash_loop (Some a) ht = rehash_loop (hd_or None todo) ?ht1"
    using b m1(1) i b1
    by (simp add: rehash_loop.simps [of "Some a"] rd_slot_def wr_slot_def nIndex_def)
  have "chain_inv (cview m1) (?B[nIndex (bkt_h b) ht := Some a]) ?ix (insert a S)"
    using chain_inv_insert [OF Cons.prems(4) aS] i by (simp add: m1(3) ixa)
  then have "\<exists>m' B'. rehash_loop (hd_or None todo) ?ht1 = Some (?ht1\<lparr>bheap := m', arBuckets := B'\<rparr>) \<and>
           same_list (bheap ?ht1) m' \<and> length B' = length (arBuckets ?ht1) \<and>
           chain_inv (cview m') B' (slot_of (nTableMask ?ht1) (iview m')) (insert a S \<union> set todo)"
    using Cons.prems v1 iview_same_dom [OF v1(1)]
    by (intro Cons.IH [of _ "Some a"]) (auto simp: table_ok_def)
  then show ?case
    using same_list_trans [OF m1(2)] by (fastforce simp: step)
qed

lemma rehash_chains:
  assumes hs: "heap_struct ht ps" and ok: "table_ok ht" and init: "nTableMask ht \<noteq> 0"
    and ne: "nNumOfElements ht \<noteq> 0"
  obtains m' B' where "zend_hash_rehash ht = Some (ht\<lparr>bheap := m', arBuckets := B'\<rparr>)"
    "same_list (bheap ht) m'" "length B' = length (arBuckets ht)"
    "chain_inv (cview m') B' (slot_of (nTableMask ht) (iview m')) (set ps)"
proof -
  let ?ht0 = "ht\<lparr>arBuckets := replicate (unat (nTableSize ht)) None\<rparr>"
  have "\<exists>m' B'. rehash_loop (hd_or None ps) ?ht0 = Some (?ht0\<lparr>bheap := m', arBuckets := B'\<rparr>) \<and>
           same_list (bheap ?ht0) m' \<and> length B' = length (arBuckets ?ht0) \<and>
           chain_inv (cview m') B' (slot_of (nTableMask ?ht0) (iview m')) ({} \<union> set ps)"
    using hs ok init
    by (intro rehash_loop_chains [of _ None])
       (auto simp: heap_struct_def list_inv_def table_ok_def chain_inv_empty)
  then show thesis
    using hs ok init ne that
    by (auto simp: zend_hash_rehash_def heap_struct_def list_inv_def table_ok_def)
qed

lemma rehash_struct:
  assumes hs: "heap_struct ht ps" and ok: "table_ok ht" and init: "nTableMask ht \<noteq> 0"
    and n: "unat (nNumOfElements ht) = length ps" and ne: "ps \<noteq> []"
  obtains ht' where "zend_hash_rehash ht = Some ht'" "hash_struct ht' ps"
    "iview (bheap ht') = iview (bheap ht)" "same_meta ht ht'"
    "nTableMask ht' = nTableMask ht" "nTableSize ht' = nTableSize ht"
    "pInternalPointer ht' = pInternalPointer ht"
proof -
  have "nNumOfElements ht \<noteq> 0" using n ne by auto
  then obtain m' B' where R: "zend_hash_rehash ht = Some (ht\<lparr>bheap := m', arBuckets := B'\<rparr>)"
    "same_list (bheap ht) m'" "length B' = length (arBuckets ht)"
    "chain_inv (cview m') B' (slot_of (nTableMask ht) (iview m')) (set ps)"
    by (rule rehash_chains [OF hs ok init])
  have v: "iview m' = iview (bheap ht)" "lview m' = lview (bheap ht)"
    using R(2) by (simp_all add: same_list_def)
  have "hash_struct (ht\<lparr>bheap := m', arBuckets := B'\<rparr>) ps"
    using hs ok init n R(3,4) v iview_same_dom [OF v(1)] heap_bounded_dom [of "bheap ht" "blimit ht" m']
    by (auto simp: hash_struct_def heap_struct_def table_ok_def)
  with R(1) show thesis
    by (rule that) (simp_all add: v same_meta_def)
qed

lemma push_bit_double:
  assumes "unat (w :: uint) = 2 ^ k" "k \<le> 31" "0 < push_bit 1 w"
  shows "k < 31" "unat (push_bit 1 w) = 2 ^ Suc k"
proof -
  have dbl: "unat (push_bit 1 w) = (2 ^ Suc k) mod 2 ^ 32"
    using assms(1) by (simp add: push_bit_eq_mult unat_word_ariths mult.commute)
  show "k < 31"
  proof (rule ccontr)
    assume "\<not> k < 31"
    with assms(2) have "k = 31" by simp
    with dbl have "unat (push_bit 1 w) = 0" by simp
    with assms(3) show False by (simp add: unat_eq_0)
  qed
  then have "(2::nat) ^ Suc k < 2 ^ 32" by (intro power_strict_increasing) auto
  with dbl show "unat (push_bit 1 w) = 2 ^ Suc k" by simp
qed

lemma double_pos_iff:
  assumes "unat (w :: uint) = 2 ^ k" "k \<le> 31"
  shows "0 < push_bit 1 w \<longleftrightarrow> w \<noteq> 0x80000000"
proof (cases "k = 31")
  case True
  then have "w = 0x80000000" using assms(1) by (simp add: word_unat_eq_iff)
  then show ?thesis by (simp add: push_bit_eq_mult)
next
  case False
  with assms(2) have "(2::nat) ^ Suc k < 2 ^ 32" by (intro power_strict_increasing) auto
  then have "unat (push_bit 1 w) = 2 ^ Suc k"
    using assms(1) by (simp add: push_bit_eq_mult unat_word_ariths mult.commute)
  moreover have "w \<noteq> 0x80000000"
  proof
    assume "w = 0x80000000"
    then have "(2::nat) ^ k = 2 ^ 31" using assms(1) by simp
    then have "k = 31" by (subst (asm) power_inject_exp) simp_all
    with False show False by simp
  qed
  ultimately show ?thesis by (simp add: word_less_nat_alt)
qed

lemma resize_struct:
  assumes hs: "hash_struct ht ps" and ne: "ps \<noteq> []" and init: "nTableMask ht \<noteq> 0"
  obtains ht' where "ZEND_HASH_IF_FULL_DO_RESIZE ht = Some ht'" "hash_struct ht' ps"
    "iview (bheap ht') = iview (bheap ht)" "same_meta ht ht'" "nTableMask ht' \<noteq> 0"
    "pInternalPointer ht' = pInternalPointer ht"
    "nTableSize ht' = (if nNumOfElements ht > nTableSize ht \<and> push_bit 1 (nTableSize ht) > 0
                       then push_bit 1 (nTableSize ht) else nTableSize ht)"
proof (cases "nNumOfElements ht > nTableSize ht \<and> push_bit 1 (nTableSize ht) > 0")
  case False
  then have "ZEND_HASH_IF_FULL_DO_RESIZE ht = Some ht"
    by (auto simp: ZEND_HASH_IF_FULL_DO_RESIZE_def zend_hash_do_resize_def)
  then show thesis by (rule that) (use False hs init in \<open>auto simp: same_meta_def\<close>)
next
  case True
  note D = hash_structD [OF hs]
  let ?sz = "push_bit 1 (nTableSize ht)"
  let ?ht1 = "ht\<lparr>arBuckets := arBuckets ht @ replicate (unat (nTableSize ht)) None,
                nTableSize := ?sz, nTableMask := ?sz - 1\<rparr>"
  obtain k where k: "3 \<le> k" "k \<le> 31" "unat (nTableSize ht) = 2 ^ k"
    using D(4) by (auto simp: table_ok_def)
  have dbl: "k < 31" "unat ?sz = 2 ^ Suc k"
    using push_bit_double [OF k(3,2)] True by auto
  have "?sz \<noteq> 1"
  proof
    assume "?sz = 1"
    then have "unat ?sz = 1" by simp
    with dbl(2) show False by simp
  qed
  then have msk: "?sz - 1 \<noteq> 0" by simp
  have ok: "table_ok ?ht1"
    using k dbl D(4) init msk by (auto simp: table_ok_def intro!: exI [of _ "Suc k"])
  have "heap_struct ?ht1 ps" using hs by (auto simp: hash_struct_def heap_struct_def)
  then obtain ht' where "zend_hash_rehash ?ht1 = Some ht'" "hash_struct ht' ps"
    "iview (bheap ht') = iview (bheap ?ht1)" "same_meta ?ht1 ht'"
    "nTableMask ht' = nTableMask ?ht1" "nTableSize ht' = nTableSize ?ht1"
    "pInternalPointer ht' = pInternalPointer ?ht1"
    by (rule rehash_struct [OF _ ok]) (use msk D(5) ne in auto)
  with True msk show thesis
    by (intro that [of ht'])
       (auto simp: ZEND_HASH_IF_FULL_DO_RESIZE_def zend_hash_do_resize_def same_meta_def)
qed

end
