(* ===== verification/Zend_Hash_Map.thy ===== *)
theory Zend_Hash_Map
  imports Zend_Hash_Rep "HOL-Library.AList"
begin

text \<open>
  The hash table as an ordered map. \<open>ht_items\<close> reads the elements in list order, each
  with its key; under the invariant \<open>hash_inv\<close> the lookups of \<^verbatim>\<open>zend_hash.c\<close> are
  \<open>map_of\<close> on that list, the insertions are \<open>AList.update\<close> (an existing element is
  overwritten in its place, a new one goes to the end) and the deletions are
  \<open>AList.delete\<close>; no operation faults or loops.
\<close>

unbundle bit_operations_syntax

subsection \<open>Keys and elements\<close>

datatype hkey = IntKey ulong | StrKey string

fun bkey :: "'v binfo \<Rightarrow> hkey" where
  "bkey (hv, kl, key, d) = (if kl = 0 then IntKey hv else StrKey (take (unat kl) (chars key)))"

fun bval :: "'v binfo \<Rightarrow> 'v" where
  "bval (hv, kl, key, d) = stored d"

text \<open>
  A well-formed bucket: an integer key has no key pointer; a string key points to
  \<open>nKeyLength\<close> bytes whose hash is stored.
\<close>

definition key_arg :: "charptr \<Rightarrow> uint \<Rightarrow> bool" where
  "key_arg key kl \<longleftrightarrow> kl \<noteq> 0 \<and> length (chars key) = unat kl \<and> key \<noteq> CNull \<and> key \<noteq> CUninit"

fun info_ok :: "'v binfo \<Rightarrow> bool" where
  "info_ok (hv, kl, key, d) =
     (if kl = 0 then key = CNull
      else key_arg key kl \<and> zend_inline_hash_func (chars key) kl = Some hv)"

definition items :: "(nat \<Rightarrow> 'v binfo option) \<Rightarrow> nat list \<Rightarrow> (hkey \<times> 'v) list" where
  "items I ps = map (\<lambda>a. (bkey (the (I a)), bval (the (I a)))) ps"

definition next_free_ok :: "ulong \<Rightarrow> (hkey \<times> 'v) list \<Rightarrow> bool" where
  "next_free_ok nf xs \<longleftrightarrow>
     nf \<le> LONG_MAX \<and>
     (\<forall>hv. IntKey hv \<in> fst ` set xs \<longrightarrow> hv \<le> LONG_MAX \<longrightarrow> hv < nf \<or> nf = LONG_MAX)"

definition hash_inv_at :: "'v HashTable \<Rightarrow> nat list \<Rightarrow> bool" where
  "hash_inv_at ht ps \<longleftrightarrow>
     hash_struct ht ps \<and>
     (\<forall>a\<in>set ps. info_ok (the (iview (bheap ht) a))) \<and>
     distinct (map fst (items (iview (bheap ht)) ps)) \<and>
     next_free_ok (nNextFreeElement ht) (items (iview (bheap ht)) ps)"

definition hash_inv :: "'v HashTable \<Rightarrow> bool" where
  "hash_inv ht \<longleftrightarrow> (\<exists>ps. hash_inv_at ht ps)"

text \<open>Reading the elements off the list, as many as the table counts.\<close>

fun walk_items :: "nat \<Rightarrow> 'v Bucket heap \<Rightarrow> ptr \<Rightarrow> (hkey \<times> 'v) list" where
  "walk_items (Suc n) m (Some a) =
     (case m a of None \<Rightarrow> []
      | Some b \<Rightarrow> (bkey (binfo_of b), stored (pData b))
                  # walk_items n m (pListNext b))"
| "walk_items _ _ _ = []"

definition ht_items :: "'v HashTable \<Rightarrow> (hkey \<times> 'v) list" where
  "ht_items ht = walk_items (unat (nNumOfElements ht)) (bheap ht) (pListHead ht)"

text \<open>The key of the element the internal pointer is at.\<close>

definition ht_cursor :: "'v HashTable \<Rightarrow> hkey option" where
  "ht_cursor ht = (case pInternalPointer ht of None \<Rightarrow> None
     | Some a \<Rightarrow> map_option bkey (iview (bheap ht) a))"

text \<open>The element a bucket pointer returned by an insertion refers to.\<close>

definition entry_at :: "nat \<Rightarrow> 'v HashTable \<Rightarrow> (hkey \<times> 'v) option" where
  "entry_at a ht = (case bheap ht a of None \<Rightarrow> None | Some b \<Rightarrow> Some (bkey (binfo_of b), stored (pData b)))"

text \<open>The reference hash: times 33 with addition, from 5381.\<close>

definition djb :: "string \<Rightarrow> ulong" where
  "djb s = foldl (\<lambda>hv c. 33 * hv + sign_extend_char c) 5381 s"

subsection \<open>The string hash\<close>

lemma hash_char_Cons: "hash_char (hv, c # cs) = Some (33 * hv + sign_extend_char c, cs)"
  by (simp add: hash_char_def push_bit_eq_mult)

lemma hash_switch_eq:
  "n \<le> length s \<Longrightarrow>
   hash_switch (hv, s) n = Some (foldl (\<lambda>hv c. 33 * hv + sign_extend_char c) hv (take n s), drop n s)"
proof (induction n arbitrary: hv s)
  case (Suc n)
  then obtain c cs where "s = c # cs" by (cases s) auto
  with Suc show ?case by (simp add: hash_char_Cons)
qed simp

lemma hash_blocks_step:
  "8 \<le> n \<Longrightarrow> hash_blocks st n = Option.bind (hash_switch st 8) (\<lambda>st. hash_blocks st (n - 8))"
  by (subst hash_blocks.simps) (simp add: eval_nat_numeral)

lemma hash_blocks_eq:
  "n \<le> length s \<Longrightarrow>
   hash_blocks (hv, s) n =
     Some ((foldl (\<lambda>hv c. 33 * hv + sign_extend_char c) hv (take (n div 8 * 8) s), drop (n div 8 * 8) s),
           n mod 8)"
proof (induction n arbitrary: hv s rule: less_induct)
  case (less n)
  show ?case
  proof (cases "n \<ge> 8")
    case False
    then show ?thesis by (simp add: hash_blocks.simps)
  next
    case True
    have n: "n div 8 * 8 = 8 + (n - 8) div 8 * 8" "n mod 8 = (n - 8) mod 8"
      using True by (simp_all add: le_div_geq le_mod_geq)
    have "take (8 + (n - 8) div 8 * 8) s = take 8 s @ take ((n - 8) div 8 * 8) (drop 8 s)"
      "drop (8 + (n - 8) div 8 * 8) s = drop ((n - 8) div 8 * 8 + 8) s"
      by (simp_all only: take_add add.commute)
    then show ?thesis
      using True less.prems less.IH [of "n - 8" "drop 8 s"]
      by (simp add: hash_blocks_step hash_switch_eq n)
  qed
qed

lemma hash_func_eq: "unat kl \<le> length s \<Longrightarrow> zend_inline_hash_func s kl = Some (djb (take (unat kl) s))"
proof -
  assume len: "unat kl \<le> length s"
  let ?n = "unat kl" and ?q = "unat kl div 8 * 8"
  have "?n mod 8 \<le> length (drop ?q s)" and q: "?q + ?n mod 8 = ?n"
    using len by (simp_all add: le_diff_conv2)
  then have "take ?n s = take ?q s @ take (?n mod 8) (drop ?q s)"
    by (metis take_add)
  with \<open>?n mod 8 \<le> length (drop ?q s)\<close> show ?thesis
    using len by (simp add: zend_inline_hash_func_def hash_blocks_eq hash_switch_eq djb_def)
qed

lemma hash_char_None: "hash_char (hv, s) = None \<longleftrightarrow> s = []"
  by (cases s) (simp_all add: hash_char_def)

lemma hash_switch_short: "length s < n \<Longrightarrow> hash_switch (hv, s) n = None"
  by (induction n arbitrary: hv s; case_tac s) (simp_all add: hash_char_def)

lemma hash_blocks_short:
  "length s < n \<Longrightarrow> hash_blocks (hv, s) n = None \<or>
     (\<exists>hv' s' r. hash_blocks (hv, s) n = Some ((hv', s'), r) \<and> length s' < r)"
proof (induction n arbitrary: hv s rule: less_induct)
  case (less n)
  show ?case
  proof (cases "n \<ge> 8")
    case False
    with less.prems show ?thesis by (simp add: hash_blocks.simps)
  next
    case True
    show ?thesis
    proof (cases "length s < 8")
      case True
      with \<open>n \<ge> 8\<close> show ?thesis by (simp add: hash_blocks_step hash_switch_short)
    next
      case False
      with True less.prems less.IH [of "n - 8" "drop 8 s"] show ?thesis
        by (simp add: hash_blocks_step hash_switch_eq)
    qed
  qed
qed

lemma hash_func_short: "length s < unat kl \<Longrightarrow> zend_inline_hash_func s kl = None"
  using hash_blocks_short [of s "unat kl" 5381]
  by (auto simp: zend_inline_hash_func_def hash_switch_short)

subsection \<open>Reading the elements\<close>

lemma bval_info [simp]: "bval (binfo_of b) = stored (pData b)"
  by (simp add: binfo_of_def)

lemma bkey_info_int: "bkey (binfo_of b) = IntKey hv \<longleftrightarrow> nKeyLength b = 0 \<and> bkt_h b = hv"
  by (simp add: binfo_of_def)

lemma bkey_info_str:
  "bkey (binfo_of b) = StrKey s \<longleftrightarrow> nKeyLength b \<noteq> 0 \<and> take (unat (nKeyLength b)) (chars (arKey b)) = s"
  by (simp add: binfo_of_def)

lemma info_ok_int: "info_ok (binfo_of b) \<Longrightarrow> nKeyLength b = 0 \<Longrightarrow> arKey b = CNull"
  by (simp add: binfo_of_def)

lemma info_ok_str:
  "info_ok (binfo_of b) \<Longrightarrow> nKeyLength b \<noteq> 0 \<Longrightarrow>
   key_arg (arKey b) (nKeyLength b) \<and> bkt_h b = djb (chars (arKey b))"
  by (auto simp: binfo_of_def key_arg_def hash_func_eq)

lemma walk_items_dseg:
  "dseg (lview m) q ps None \<Longrightarrow> walk_items (length ps) m (hd_or None ps) = items (iview m) ps"
proof (induction ps arbitrary: q)
  case (Cons a ps)
  then obtain b where "m a = Some b" "pListNext b = hd_or None ps"
    by (auto simp: lview_def)
  with Cons show ?case by (auto simp: items_def heap_simps)
qed (simp add: items_def)

lemma ht_items_eq: "hash_struct ht ps \<Longrightarrow> ht_items ht = items (iview (bheap ht)) ps"
  using hash_structD(1,5) [of ht ps] walk_items_dseg [of "bheap ht" None ps]
  by (simp add: ht_items_def list_inv_def)

lemma hash_inv_atD:
  assumes "hash_inv_at ht ps"
  shows "hash_struct ht ps" "ht_items ht = items (iview (bheap ht)) ps" "distinct ps"
    "\<And>a b. bheap ht a = Some b \<Longrightarrow> a \<in> set ps \<and> info_ok (binfo_of b)"
    "distinct (map fst (ht_items ht))" "next_free_ok (nNextFreeElement ht) (ht_items ht)"
proof -
  show str: "hash_struct ht ps" using assms by (simp add: hash_inv_at_def)
  then show "ht_items ht = items (iview (bheap ht)) ps" "distinct ps"
    by (rule ht_items_eq, rule hash_structD(7))
  then show "distinct (map fst (ht_items ht))" "next_free_ok (nNextFreeElement ht) (ht_items ht)"
    using assms by (simp_all add: hash_inv_at_def)
  fix a b assume b: "bheap ht a = Some b"
  then have "a \<in> set ps" using hash_structD(2) [OF str] by auto
  with assms b show "a \<in> set ps \<and> info_ok (binfo_of b)"
    unfolding hash_inv_at_def using view_at(3) [of "bheap ht" a b] by fastforce
qed

text \<open>The invariant depends on the structure, the keys and the next free index only.\<close>

lemma hash_inv_atI:
  assumes "hash_struct ht ps" "\<And>a. a \<in> set ps \<Longrightarrow> info_ok (the (iview (bheap ht) a))"
    "distinct (map fst (items (iview (bheap ht)) ps))"
    "next_free_ok (nNextFreeElement ht) (items (iview (bheap ht)) ps)"
  shows "hash_inv_at ht ps"
  using assms by (simp add: hash_inv_at_def)

lemma items_upd_notin: "a \<notin> set ps \<Longrightarrow> items (I(a := x)) ps = items I ps"
  by (auto simp: items_def)

lemma items_append: "items I (ps @ qs) = items I ps @ items I qs"
  by (simp add: items_def)

lemma items_Cons: "items I (a # ps) = (bkey (the (I a)), bval (the (I a))) # items I ps"
  by (simp add: items_def)

lemma items_Nil: "items I [] = []"
  by (simp add: items_def)

lemma items_key_mem:
  "k \<in> fst ` set (items I ps) \<longleftrightarrow> (\<exists>a\<in>set ps. bkey (the (I a)) = k)"
  by (force simp: items_def)

lemma fst_items: "map fst (items I ps) = map (\<lambda>a. bkey (the (I a))) ps"
  by (simp add: items_def)

text \<open>A bucket of the list splits it, and no other bucket has its key.\<close>

lemma split_at_bucket:
  assumes "hash_inv_at ht ps" "a \<in> set ps"
  obtains us vs b where "ps = us @ a # vs" "bheap ht a = Some b"
    "ht_items ht = items (iview (bheap ht)) us
       @ (bkey (binfo_of b), stored (pData b)) # items (iview (bheap ht)) vs"
    "bkey (binfo_of b) \<notin> fst ` set (items (iview (bheap ht)) us)"
    "bkey (binfo_of b) \<notin> fst ` set (items (iview (bheap ht)) vs)"
proof -
  note D = hash_inv_atD [OF assms(1)]
  obtain us vs where ps: "ps = us @ a # vs" using assms(2) by (auto simp: in_set_conv_decomp)
  obtain b where b: "bheap ht a = Some b" using hash_structD(2) [OF D(1)] assms(2) by auto
  have "ht_items ht = items (iview (bheap ht)) us
       @ (bkey (binfo_of b), stored (pData b)) # items (iview (bheap ht)) vs"
    using D(2) b by (simp add: ps items_append items_Cons heap_simps)
  with ps b D(5) show thesis
    by (intro that) (simp_all add: image_iff, blast+)
qed

subsection \<open>Finding a bucket by its key\<close>

lemma take_all_chars: "key_arg key kl \<Longrightarrow> take (unat kl) (chars key) = chars key"
  by (simp add: key_arg_def)

lemma hash_func_arg: "key_arg key kl \<Longrightarrow> zend_inline_hash_func (chars key) kl = Some (djb (chars key))"
  by (simp add: key_arg_def hash_func_eq)

lemma chars_eq_lengths:
  "key_arg a kl \<Longrightarrow> key_arg b kl' \<Longrightarrow> chars a = chars b \<Longrightarrow> kl = kl'"
  by (simp add: key_arg_def) (metis word_unat_eq_iff)

lemma same_key_iff:
  assumes "key_arg a kl" "key_arg b kl'"
  shows "(djb (chars a) = djb (chars b) \<and> kl = kl' \<and> memcmp_eq a b kl') \<longleftrightarrow> chars a = chars b"
  using assms chars_eq_lengths [OF assms] by (auto simp: memcmp_eq_def key_arg_def)

lemma str_match_key:
  assumes "info_ok (binfo_of b)" "key_arg key kl"
  shows "str_match key kl (djb (chars key)) b = Some (bkey (binfo_of b) = StrKey (chars key))"
proof (cases "nKeyLength b = 0")
  case True
  with assms info_ok_int [OF assms(1)] show ?thesis
    by (cases key) (auto simp: str_match_def key_arg_def bkey_info_str)
next
  case False
  note kb = info_ok_str [OF assms(1) False]
  have "ptr_eq (arKey b) key = Some (IS_INTERNED (arKey b) \<and> IS_INTERNED key \<and> chars (arKey b) = chars key)"
    using kb assms(2) by (cases "arKey b"; cases key) (auto simp: key_arg_def)
  then show ?thesis
    using False kb same_key_iff [OF conjunct1 [OF kb] assms(2)]
    by (auto simp: str_match_def take_all_chars bkey_info_str)
qed

lemma del_match_key:
  assumes "info_ok (binfo_of b)" "key_arg key kl"
  shows "del_match key kl (djb (chars key)) b = Some (bkey (binfo_of b) = StrKey (chars key))"
proof (cases "nKeyLength b = 0")
  case True
  with assms show ?thesis by (auto simp: del_match_def key_arg_def bkey_info_str)
next
  case False
  note kb = info_ok_str [OF assms(1) False]
  then show ?thesis
    using False same_key_iff [OF conjunct1 [OF kb] assms(2)]
    by (auto simp: del_match_def take_all_chars bkey_info_str)
qed

lemma int_match_key: "int_match hv b = Some (bkey (binfo_of b) = IntKey hv)"
  by (simp add: int_match_def bkey_info_int)

lemma del_match_int: "del_match CNull 0 hv b = Some (bkey (binfo_of b) = IntKey hv)"
  by (auto simp: del_match_def bkey_info_int)

text \<open>The hash a key is stored under.\<close>

fun key_hash :: "hkey \<Rightarrow> ulong" where
  "key_hash (IntKey hv) = hv"
| "key_hash (StrKey s) = djb s"

lemma info_ok_hash: "info_ok (binfo_of b) \<Longrightarrow> bkt_h b = key_hash (bkey (binfo_of b))"
proof (cases "nKeyLength b = 0")
  case True
  then show ?thesis by (simp add: binfo_of_def)
next
  case False
  assume "info_ok (binfo_of b)"
  note kb = info_ok_str [OF this False]
  then have "bkey (binfo_of b) = StrKey (chars (arKey b))"
    using False by (simp add: bkey_info_str take_all_chars)
  with kb show ?thesis by simp
qed

text \<open>
  A search whose test recognises the key \<open>k\<close> returns the bucket of \<open>k\<close>, and \<open>NULL\<close>
  exactly when no element has the key.
\<close>

lemma find_key:
  assumes inv: "hash_inv_at ht ps"
    and match: "\<And>b. info_ok (binfo_of b) \<Longrightarrow>
                  match b = Some (bkey (binfo_of b) = k)"
  obtains (found) a b where "find_bucket match (key_hash k) ht = Some (Some a)" "a \<in> set ps"
      "bheap ht a = Some b" "bkey (binfo_of b) = k"
      "map_of (ht_items ht) k = Some (stored (pData b))"
  | (absent) "find_bucket match (key_hash k) ht = Some None" "k \<notin> fst ` set (ht_items ht)"
      "map_of (ht_items ht) k = None"
proof -
  note D = hash_inv_atD [OF inv]
  let ?key = "\<lambda>b. bkey (binfo_of b)"
  let ?P = "\<lambda>a. ?key (the (bheap ht a)) = k"
  have m: "match b = Some (?P a)" if "bheap ht a = Some b" for a b
    using D(4) [OF that] match that by simp
  show thesis
  proof (rule find_bucket_spec [OF D(1), of "key_hash k" match ?P])
    fix a b assume "bheap ht a = Some b"
    then show "match b = Some (?P a)" by (rule m)
  next
    assume r: "find_bucket match (key_hash k) ht = Some None"
      and none: "\<forall>a b. bheap ht a = Some b \<longrightarrow> nIndex (bkt_h b) ht = nIndex (key_hash k) ht \<longrightarrow> \<not> ?P a"
    have "k \<notin> fst ` set (ht_items ht)"
    proof
      assume "k \<in> fst ` set (ht_items ht)"
      then obtain a where a: "a \<in> set ps" "bkey (the (iview (bheap ht) a)) = k"
        by (auto simp: D(2) items_key_mem)
      then obtain b where b: "bheap ht a = Some b" using hash_structD(2) [OF D(1)] by auto
      with a have key: "?key b = k" by (simp add: heap_simps)
      then have "bkt_h b = key_hash k" using D(4) [OF b] info_ok_hash by blast
      with none b key show False by simp
    qed
    moreover from this have "map_of (ht_items ht) k = None" by (simp add: map_of_eq_None_iff)
    ultimately show thesis using r absent by simp
  next
    fix a b assume r: "find_bucket match (key_hash k) ht = Some (Some a)"
      and b: "bheap ht a = Some b" "?P a"
    then have a: "a \<in> set ps" using D(4) by blast
    obtain us vs b' where "bheap ht a = Some b'"
      "ht_items ht = items (iview (bheap ht)) us @ (?key b', stored (pData b')) # items (iview (bheap ht)) vs"
      "?key b' \<notin> fst ` set (items (iview (bheap ht)) us)"
      by (rule split_at_bucket [OF inv a])
    with b have "map_of (ht_items ht) k = Some (stored (pData b))"
      by (simp add: map_add_def map_of_eq_None_iff [THEN iffD2])
    with r a b show thesis using found by simp
  qed
qed

end
