(* ===== verification/Zend_Hash_Ops.thy ===== *)
theory Zend_Hash_Ops
  imports Zend_Hash_Map
begin

text \<open>
  The lookups, insertions and deletions of \<^verbatim>\<open>zend_hash.c\<close> refine the ordered map: each
  returns, keeps the invariant, and changes \<open>ht_items\<close> as the map operation does.
\<close>

unbundle bit_operations_syntax

subsection \<open>Lookup\<close>

lemma find_bucket_str:
  assumes "hash_inv_at ht ps" "key_arg key kl"
  obtains (found) a b where "find_bucket (str_match key kl (djb (chars key))) (djb (chars key)) ht = Some (Some a)"
      "a \<in> set ps" "bheap ht a = Some b" "bkey (binfo_of b) = StrKey (chars key)"
      "map_of (ht_items ht) (StrKey (chars key)) = Some (stored (pData b))"
  | (absent) "find_bucket (str_match key kl (djb (chars key))) (djb (chars key)) ht = Some None"
      "StrKey (chars key) \<notin> fst ` set (ht_items ht)" "map_of (ht_items ht) (StrKey (chars key)) = None"
  by (rule find_key [OF assms(1), of "str_match key kl (djb (chars key))" "StrKey (chars key)",
        unfolded key_hash.simps, OF str_match_key [OF _ assms(2)]])
     (assumption | blast intro: that)+

lemma find_bucket_int:
  assumes "hash_inv_at ht ps"
  obtains (found) a b where "find_bucket (int_match hv) hv ht = Some (Some a)"
      "a \<in> set ps" "bheap ht a = Some b" "bkey (binfo_of b) = IntKey hv"
      "map_of (ht_items ht) (IntKey hv) = Some (stored (pData b))"
  | (absent) "find_bucket (int_match hv) hv ht = Some None"
      "IntKey hv \<notin> fst ` set (ht_items ht)" "map_of (ht_items ht) (IntKey hv) = None"
  by (rule find_key [OF assms, of "int_match hv" "IntKey hv", unfolded key_hash.simps, OF int_match_key])
     (blast intro: that)+

lemma quick_find_eq:
  assumes "hash_inv_at ht ps" "key_arg key kl"
  shows "zend_hash_quick_find key kl (djb (chars key)) ht = Some (map_of (ht_items ht) (StrKey (chars key)))"
    "zend_hash_quick_exists key kl (djb (chars key)) ht = Some (StrKey (chars key) \<in> fst ` set (ht_items ht))"
  by (rule find_bucket_str [OF assms];
      force simp: zend_hash_quick_find_def zend_hash_quick_exists_def data_at_def dest: map_of_SomeD)+

lemma index_find_eq:
  assumes "hash_inv_at ht ps"
  shows "zend_hash_index_find hv ht = Some (map_of (ht_items ht) (IntKey hv))"
    "zend_hash_index_exists hv ht = Some (IntKey hv \<in> fst ` set (ht_items ht))"
  by (rule find_bucket_int [OF assms, of hv];
      force simp: zend_hash_index_find_def zend_hash_index_exists_def data_at_def dest: map_of_SomeD)+

lemma find_quick: "key_arg key kl \<Longrightarrow> zend_hash_find key kl ht = zend_hash_quick_find key kl (djb (chars key)) ht"
  "key_arg key kl \<Longrightarrow> zend_hash_exists key kl ht = zend_hash_quick_exists key kl (djb (chars key)) ht"
  by (simp_all add: zend_hash_find_def zend_hash_quick_find_def zend_hash_exists_def
        zend_hash_quick_exists_def hash_func_arg)

subsection \<open>Insertion\<close>

lemma check_init_struct:
  assumes "hash_struct ht ps"
  shows "hash_struct (CHECK_INIT ht) ps" "nTableMask (CHECK_INIT ht) \<noteq> 0"
    "bheap (CHECK_INIT ht) = bheap ht" "same_meta ht (CHECK_INIT ht)"
    "nNumOfElements (CHECK_INIT ht) = nNumOfElements ht" "pListHead (CHECK_INIT ht) = pListHead ht"
    "ht_cursor (CHECK_INIT ht) = ht_cursor ht"
proof -
  note D = hash_structD [OF assms]
  have "nTableSize ht - 1 \<noteq> 0"
  proof
    assume "nTableSize ht - 1 = 0"
    then have "unat (nTableSize ht) = 1" by simp
    with table_size_ge [OF D(4)] show False by simp
  qed
  then show "nTableMask (CHECK_INIT ht) \<noteq> 0" by (simp add: CHECK_INIT_def)
  show "hash_struct (CHECK_INIT ht) ps"
    using assms struct_uninit [OF assms] \<open>nTableSize ht - 1 \<noteq> 0\<close>
    by (auto simp: CHECK_INIT_def hash_struct_def heap_struct_def table_ok_def chain_inv_empty)
qed (simp_all add: CHECK_INIT_def same_meta_def ht_cursor_def split: option.split)

lemma check_init_inv:
  assumes "hash_inv_at ht ps"
  shows "hash_inv_at (CHECK_INIT ht) ps" "ht_items (CHECK_INIT ht) = ht_items ht"
  using assms check_init_struct [of ht ps]
  by (auto simp: hash_inv_at_def ht_items_def same_meta_def)

lemma cursor_None_iff: "hash_struct ht ps \<Longrightarrow> ht_cursor ht = None \<longleftrightarrow> pInternalPointer ht = None"
  using hash_structD(2,8) [of ht ps] by (auto simp: ht_cursor_def view_dom split: option.splits)

lemma insert_new:
  assumes inv: "hash_inv_at ht ps" and init: "nTableMask ht \<noteq> 0" and ok: "info_ok (binfo_of b)"
    and new: "bkey (binfo_of b) \<notin> fst ` set (ht_items ht)" and len: "length ps < 2 ^ 32 - 1"
    and alloc: "pemalloc_bucket b ht = (a, ht1)"
    and nf: "next_free_ok nf (ht_items ht @ [(bkey (binfo_of b), stored (pData b))])"
  obtains ht2 ht' where "link_bucket a (bkt_h b) ht1 = Some ht2" "same_meta ht ht2"
    "ZEND_HASH_IF_FULL_DO_RESIZE
       (ht2\<lparr>nNextFreeElement := nf, nNumOfElements := nNumOfElements ht2 + 1\<rparr>) = Some ht'"
    "hash_inv_at ht' (ps @ [a])" "nTableMask ht' \<noteq> 0"
    "ht_items ht' = ht_items ht @ [(bkey (binfo_of b), stored (pData b))]"
    "same_meta (ht\<lparr>nNextFreeElement := nf\<rparr>) ht'" "entry_at a ht' = Some (bkey (binfo_of b), stored (pData b))"
    "ht_cursor ht' = (if ht_cursor ht = None then Some (bkey (binfo_of b)) else ht_cursor ht)"
proof -
  note D = hash_inv_atD [OF inv]
  obtain ht2 where L: "link_bucket a (bkt_h b) ht1 = Some ht2"
    "hash_struct (ht2\<lparr>nNumOfElements := nNumOfElements ht2 + 1\<rparr>) (ps @ [a])"
    "iview (bheap ht2) = (iview (bheap ht))(a \<mapsto> binfo_of b)"
    "same_meta ht ht2" "nTableMask ht2 = nTableMask ht" 
    "pInternalPointer ht2 = (if pInternalPointer ht = None then Some a else pInternalPointer ht)"
    by (rule link_bucket_struct [OF D(1) alloc len init])
  let ?ht3 = "ht2\<lparr>nNextFreeElement := nf, nNumOfElements := nNumOfElements ht2 + 1\<rparr>"
  have "hash_struct ?ht3 (ps @ [a])"
    using L(2) by (subst hash_struct_fields [where ht = "ht2\<lparr>nNumOfElements := nNumOfElements ht2 + 1\<rparr>"]) simp_all
  then obtain ht' where R: "ZEND_HASH_IF_FULL_DO_RESIZE ?ht3 = Some ht'" "hash_struct ht' (ps @ [a])"
    "iview (bheap ht') = iview (bheap ?ht3)" "same_meta ?ht3 ht'" "nTableMask ht' \<noteq> 0"
    "pInternalPointer ht' = pInternalPointer ?ht3"
    by (rule resize_struct) (use init L(5) in auto)
  have iv: "iview (bheap ht') = (iview (bheap ht))(a \<mapsto> binfo_of b)" using R(3) L(3) by simp
  have a: "a \<notin> set ps" by (rule pemalloc_struct(2) [OF D(1) alloc])
  have it: "items (iview (bheap ht')) (ps @ [a]) = ht_items ht @ [(bkey (binfo_of b), stored (pData b))]"
    using a by (simp add: iv items_append items_upd_notin items_Cons items_Nil D(2))
  have nf': "nNextFreeElement ht' = nf" using R(4) by (simp add: same_meta_def)
  have "hash_inv_at ht' (ps @ [a])"
  proof (rule hash_inv_atI [OF R(2)])
    fix c assume "c \<in> set (ps @ [a])"
    then show "info_ok (the (iview (bheap ht') c))"
      using ok inv by (auto simp: iv hash_inv_at_def)
  qed (use D(5) new nf in \<open>simp_all add: it nf'\<close>)
  moreover have "entry_at a ht' = Some (bkey (binfo_of b), stored (pData b))"
  proof -
    have "iview (bheap ht') a = Some (binfo_of b)" by (simp add: iv)
    then show ?thesis by (auto simp: entry_at_def iview_def) (metis bval_info)
  qed
  moreover have "ht_cursor ht' = (if ht_cursor ht = None then Some (bkey (binfo_of b)) else ht_cursor ht)"
    using a hash_structD(8) [OF D(1)] L(6) R(6) cursor_None_iff [OF D(1)]
    by (auto simp: ht_cursor_def iv split: option.splits)
  ultimately show thesis
    using that [OF L(1,4) R(1)] R(2,4,5) L(4) ht_items_eq [OF R(2)] it by (simp add: same_meta_def)
qed

lemma update_split: "k \<notin> fst ` set us \<Longrightarrow> AList.update k v (us @ (k, w) # vs) = us @ (k, v) # vs"
  by (induction us) auto

lemma update_absent: "k \<notin> fst ` set xs \<Longrightarrow> AList.update k v xs = xs @ [(k, v)]"
  by (induction xs) auto

lemma stored_data [simp]: "stored (INIT_DATA sz v) = v" "stored (UPDATE_DATA sz v d) = v"
  by (simp_all add: INIT_DATA_def UPDATE_DATA_def split: storage.split)

text \<open>Writing the element of a bucket in place.\<close>

lemma set_data_inv:
  assumes inv: "hash_inv_at ht (us @ a # vs)" and b: "bheap ht a = Some b"
  obtains ht' where "wr a (\<lambda>b. b\<lparr>pData := d\<rparr>) ht = Some ht'" "hash_inv_at ht' (us @ a # vs)"
    "iview (bheap ht') = (iview (bheap ht))(a \<mapsto> (bkt_h b, nKeyLength b, arKey b, d))"
    "lview (bheap ht') = lview (bheap ht)" "bheap ht' a = Some (b\<lparr>pData := d\<rparr>)"
    "same_meta ht ht'" "ht_cursor ht' = ht_cursor ht" "pListHead ht' = pListHead ht" "pListTail ht' = pListTail ht"
    "pInternalPointer ht' = pInternalPointer ht"
proof -
  note D = hash_inv_atD [OF inv]
  let ?ps = "us @ a # vs" and ?b' = "b\<lparr>pData := d\<rparr>"
  let ?ht' = "ht\<lparr>bheap := (bheap ht)(a \<mapsto> ?b')\<rparr>"
  have key: "bkey (binfo_of ?b') = bkey (binfo_of b)" and fst: "fst (binfo_of ?b') = fst (binfo_of b)"
    and ok: "info_ok (binfo_of ?b') = info_ok (binfo_of b)"
    and bi: "binfo_of ?b' = (bkt_h b, nKeyLength b, arKey b, d)"
    by (simp_all add: binfo_of_def)
  have views: "lview (bheap ?ht') = lview (bheap ht)" "cview (bheap ?ht') = cview (bheap ht)"
    "iview (bheap ?ht') = (iview (bheap ht))(a \<mapsto> binfo_of ?b')" "dom (bheap ?ht') = dom (bheap ht)"
    using b by (auto simp: heap_simps fun_upd_same)
  have "slot_of (nTableMask ht) (iview (bheap ?ht')) = slot_of (nTableMask ht) (iview (bheap ht))"
    using b by (auto simp: fun_eq_iff slot_of_def views(3) fst heap_simps)
  then have str: "hash_struct ?ht' ?ps"
    using D(1) views heap_bounded_dom [OF _ views(4)] by (auto simp: hash_struct_def heap_struct_def table_ok_def)
  have keys: "map fst (items (iview (bheap ?ht')) ?ps) = map fst (ht_items ht)"
    using b by (auto simp: D(2) fst_items views(3) key heap_simps)
  have "hash_inv_at ?ht' ?ps"
  proof (rule hash_inv_atI [OF str])
    fix c assume "c \<in> set ?ps"
    then show "info_ok (the (iview (bheap ?ht') c))"
      using inv D(4) [OF b] ok by (auto simp: heap_simps hash_inv_at_def)
  next
    have "fst ` set (items (iview (bheap ?ht')) ?ps) = fst ` set (ht_items ht)"
      using keys by (metis set_map)
    then show "next_free_ok (nNextFreeElement ?ht') (items (iview (bheap ?ht')) ?ps)"
      using D(6) by (simp add: next_free_ok_def)
  qed (use keys D(5) in simp)
  moreover have "ht_cursor ?ht' = ht_cursor ht"
    using b by (auto simp: ht_cursor_def heap_simps key split: option.split)
  ultimately show thesis
    using views(1,3) b by (intro that [of ?ht']) (simp_all add: wr_def same_meta_def bi)
qed

lemma hash_inv_at_meta [simp]:
  "hash_inv_at (run_dtor v ht) ps = hash_inv_at ht ps" "ht_items (run_dtor v ht) = ht_items ht"
  "ht_cursor (run_dtor v ht) = ht_cursor ht" "bheap (run_dtor v ht) = bheap ht"
  by (simp_all add: hash_inv_at_def run_dtor_def ht_items_def ht_cursor_def hash_struct_run_dtor [unfolded run_dtor_def]
        split: option.split)

lemma update_found_inv:
  assumes inv: "hash_inv_at ht ps" and b: "bheap ht a = Some b"
  obtains ht' where "update_found a v sz ht = Some ht'" "hash_inv_at ht' ps"
    "ht_items ht' = AList.update (bkey (binfo_of b)) v (ht_items ht)"
    "same_meta (run_dtor (stored (pData b)) ht) ht'" "entry_at a ht' = Some (bkey (binfo_of b), v)"
    "ht_cursor ht' = ht_cursor ht"
proof -
  note D = hash_inv_atD [OF inv]
  let ?hd = "run_dtor (stored (pData b)) ht" and ?d = "UPDATE_DATA sz v (pData b)"
  obtain us vs where sp: "ps = us @ a # vs"
    "ht_items ht = items (iview (bheap ht)) us @ (bkey (binfo_of b), stored (pData b)) # items (iview (bheap ht)) vs"
    "bkey (binfo_of b) \<notin> fst ` set (items (iview (bheap ht)) us)"
    by (rule split_at_bucket [OF inv, of a]) (use b D(4) in auto)
  have notin: "a \<notin> set us" "a \<notin> set vs" using D(3) sp(1) by auto
  have inv': "hash_inv_at ?hd (us @ a # vs)" and b': "bheap ?hd a = Some b" using inv sp(1) b by simp_all
  obtain ht' where W: "wr a (\<lambda>b. b\<lparr>pData := ?d\<rparr>) ?hd = Some ht'" "hash_inv_at ht' (us @ a # vs)"
    "iview (bheap ht') = (iview (bheap ?hd))(a \<mapsto> (bkt_h b, nKeyLength b, arKey b, ?d))"
    "bheap ht' a = Some (b\<lparr>pData := ?d\<rparr>)" "same_meta ?hd ht'" "ht_cursor ht' = ht_cursor ?hd"
    by (rule set_data_inv [OF inv' b', where d = ?d])
  have "wr a (\<lambda>c. c\<lparr>pData := UPDATE_DATA sz v (pData c)\<rparr>) ?hd = Some ht'"
    using W(1) b' by (simp add: wr_def)
  then have "update_found a v sz ht = Some ht'" using b by (simp add: update_found_def)
  moreover have "ht_items ht' = AList.update (bkey (binfo_of b)) v (ht_items ht)"
    using hash_inv_atD(2) [OF W(2)] sp notin
    by (simp add: W(3) items_append items_Cons items_upd_notin update_split) (simp add: binfo_of_def)
  ultimately show thesis
    using W sp(1) by (intro that [of ht']) (simp_all add: entry_at_def binfo_of_def)
qed

lemma uint_LONG_MAX: "uint LONG_MAX = 2 ^ 63 - 1"
  by (simp add: LONG_MAX_def)

lemma sint_ulong: "sint (x :: ulong) = (if x \<le> LONG_MAX then uint x else uint x - 2 ^ 64)"
proof -
  have s: "sint x = (uint x + 2 ^ 63) mod 2 ^ 64 - 2 ^ 63"
    by (simp add: sint_uint signed_take_bit_eq_take_bit_shift take_bit_eq_mod)
  have u: "0 \<le> uint x" "uint x < 2 ^ 64"
    using uint_lt2p [of x] by simp_all
  show ?thesis
  proof (cases "x \<le> LONG_MAX")
    case True
    then have "uint x < 2 ^ 63" by (simp add: word_le_def uint_LONG_MAX)
    with True u s show ?thesis by (simp add: mod_pos_pos_trivial)
  next
    case False
    then have "2 ^ 63 \<le> uint x" by (simp add: word_le_def uint_LONG_MAX)
    then have "(uint x + 2 ^ 63) mod 2 ^ 64 = uint x + 2 ^ 63 - 2 ^ 64"
      using u by (subst mod_pos_geq) (simp_all add: mod_pos_pos_trivial)
    with False s show ?thesis by simp
  qed
qed

lemma unat_LONG_MAX: "unat LONG_MAX = 2 ^ 63 - 1"
  by (simp add: LONG_MAX_def)

text \<open>The next free index after storing under a key.\<close>

fun next_free_after :: "hkey \<Rightarrow> ulong \<Rightarrow> ulong" where
  "next_free_after (IntKey hv) nf =
     (if nf \<le> hv \<and> hv \<le> LONG_MAX then (if hv < LONG_MAX then hv + 1 else LONG_MAX) else nf)"
| "next_free_after (StrKey s) nf = nf"

lemma sint_le_iff:
  assumes nf: "nf \<le> LONG_MAX"
  shows "sint nf \<le> sint hv \<longleftrightarrow> nf \<le> hv \<and> hv \<le> LONG_MAX"
proof (cases "hv \<le> LONG_MAX")
  case True
  with nf show ?thesis by (simp add: sint_ulong word_le_def)
next
  case False
  have "0 \<le> uint nf" "uint hv < 2 ^ 64" using uint_lt2p [of hv] by simp_all
  moreover have "sint hv = uint hv - 2 ^ 64" "sint nf = uint nf"
    using False nf by (simp_all add: sint_ulong)
  ultimately have "\<not> sint nf \<le> sint hv" by linarith
  with False show ?thesis by simp
qed

lemma bump_next_free_eq:
  "nNextFreeElement ht \<le> LONG_MAX \<Longrightarrow>
   nNextFreeElement (bump_next_free hv ht) = next_free_after (IntKey hv) (nNextFreeElement ht)"
  by (simp add: bump_next_free_def sint_le_iff)

lemma next_free_le: "next_free_ok nf xs \<Longrightarrow> nf \<le> LONG_MAX"
  by (simp add: next_free_ok_def)

lemma bump_next_free_ok:
  assumes ok: "next_free_ok (nNextFreeElement ht) xs"
  shows "next_free_ok (nNextFreeElement (bump_next_free hv ht)) (xs @ [(IntKey hv, v)])"
proof -
  have suc: "hv < LONG_MAX \<Longrightarrow> unat (hv + 1) = Suc (unat hv)"
    using unat_LONG_MAX by (simp add: word_less_nat_alt unat_word_ariths)
  show ?thesis
    using ok next_free_le [OF ok] suc
    by (auto simp: bump_next_free_eq next_free_ok_def word_le_nat_alt word_less_nat_alt
                   unat_LONG_MAX word_unat_eq_iff [of _ LONG_MAX])
qed

lemma next_free_present:
  assumes "next_free_ok nf xs" "k \<in> fst ` set xs"
  shows "next_free_after k nf = nf"
proof (cases k)
  case (IntKey hv)
  with assms have "hv \<le> LONG_MAX \<Longrightarrow> hv < nf \<or> nf = LONG_MAX" "nf \<le> LONG_MAX"
    by (auto simp: next_free_ok_def)
  then show ?thesis by (auto simp: IntKey)
qed simp

lemma next_free_ok_str: "next_free_ok nf xs \<Longrightarrow> next_free_ok nf (xs @ [(StrKey s, v)])"
  by (auto simp: next_free_ok_def)

lemma new_bucket_sel:
  "bkt_h (new_str_bucket key kl hv v sz) = hv" "stored (pData (new_str_bucket key kl hv v sz)) = v"
  "bkt_h (new_int_bucket hv v sz) = hv" "stored (pData (new_int_bucket hv v sz)) = v"
  "bkey (binfo_of (new_int_bucket hv v sz)) = IntKey hv" "info_ok (binfo_of (new_int_bucket hv v sz))"
  by (simp_all add: new_str_bucket_def new_int_bucket_def binfo_of_def)

lemma new_str_bucket_key:
  assumes "key_arg key kl"
  shows "bkey (binfo_of (new_str_bucket key kl (djb (chars key)) v sz)) = StrKey (chars key)"
    "info_ok (binfo_of (new_str_bucket key kl (djb (chars key)) v sz))"
  using assms hash_func_arg [OF assms]
  by (auto simp: new_str_bucket_def binfo_of_def key_arg_def hash_func_eq)

text \<open>
  The effect of storing \<open>v\<close> under the key \<open>k\<close>: the new element list, and the destructor
  runs on an element that was overwritten.
\<close>

definition stored_as :: "hkey \<Rightarrow> 'v \<Rightarrow> 'v HashTable \<Rightarrow> 'v HashTable \<Rightarrow> bool" where
  "stored_as k v ht ht' \<longleftrightarrow>
     ht_items ht' = AList.update k v (ht_items ht) \<and>
     dtor_log ht' = dtor_log ht @ (if pDestructor ht then (case map_of (ht_items ht) k of
                                     Some w \<Rightarrow> [w] | None \<Rightarrow> []) else []) \<and>
     pDestructor ht' = pDestructor ht \<and> nNextFreeElement ht' = next_free_after k (nNextFreeElement ht) \<and>
     ht_cursor ht' = (if ht_cursor ht = None \<and> map_of (ht_items ht) k = None then Some k else ht_cursor ht)"

lemma items_length: "hash_inv_at ht ps \<Longrightarrow> length (ht_items ht) = length ps"
  by (simp add: hash_inv_atD(2) items_def)

text \<open>Both insertion routines meet the same three cases; they differ in the bucket they build.\<close>

lemma store_present:
  assumes inv: "hash_inv_at ht ps" and b: "bheap (CHECK_INIT ht) a = Some b" "bkey (binfo_of b) = k"
    "map_of (ht_items (CHECK_INIT ht)) k = Some (stored (pData b))"
  obtains ht' where "update_found a v sz (CHECK_INIT ht) = Some ht'" "hash_inv_at ht' ps"
    "stored_as k v ht ht'" "entry_at a ht' = Some (k, v)"
proof -
  note I = check_init_inv [OF inv] and S = check_init_struct [OF hash_inv_atD(1) [OF inv]]
  obtain ht' where U: "update_found a v sz (CHECK_INIT ht) = Some ht'" "hash_inv_at ht' ps"
    "ht_items ht' = AList.update (bkey (binfo_of b)) v (ht_items (CHECK_INIT ht))"
    "same_meta (run_dtor (stored (pData b)) (CHECK_INIT ht)) ht'" "entry_at a ht' = Some (bkey (binfo_of b), v)"
    "ht_cursor ht' = ht_cursor (CHECK_INIT ht)"
    by (rule update_found_inv [OF I(1) b(1)])
  have "next_free_after k (nNextFreeElement ht) = nNextFreeElement ht"
    using map_of_SomeD [OF b(3)] I(2) by (intro next_free_present [OF hash_inv_atD(6) [OF inv]]) force
  with U show thesis
    using b I(2) S(4,7)
    by (intro that [of ht']) (auto simp: stored_as_def same_meta_def run_dtor_def)
qed

lemma store_absent:
  assumes inv: "hash_inv_at ht ps" and ok: "info_ok (binfo_of b)" "bkey (binfo_of b) = k"
    and new: "k \<notin> fst ` set (ht_items (CHECK_INIT ht))" "map_of (ht_items (CHECK_INIT ht)) k = None"
    and len: "length ps < 2 ^ 32 - 1"
    and nf: "next_free_ok nf (ht_items ht @ [(k, stored (pData b))])" "nf = next_free_after k (nNextFreeElement ht)"
  obtains a ht1 ht2 ht' where "pemalloc_bucket b (CHECK_INIT ht) = (a, ht1)"
    "link_bucket a (bkt_h b) ht1 = Some ht2" "nNextFreeElement ht2 = nNextFreeElement ht"
    "ZEND_HASH_IF_FULL_DO_RESIZE
       (ht2\<lparr>nNextFreeElement := nf, nNumOfElements := nNumOfElements ht2 + 1\<rparr>) = Some ht'"
    "hash_inv_at ht' (ps @ [a])" "stored_as k (stored (pData b)) ht ht'"
    "entry_at a ht' = Some (k, stored (pData b))"
proof -
  let ?ht = "CHECK_INIT ht"
  note I = check_init_inv [OF inv] and S = check_init_struct [OF hash_inv_atD(1) [OF inv]]
  obtain a ht1 where alloc: "pemalloc_bucket b ?ht = (a, ht1)" by (cases "pemalloc_bucket b ?ht")
  obtain ht2 ht' where N: "link_bucket a (bkt_h b) ht1 = Some ht2" "same_meta ?ht ht2"
    "ZEND_HASH_IF_FULL_DO_RESIZE
       (ht2\<lparr>nNextFreeElement := nf, nNumOfElements := nNumOfElements ht2 + 1\<rparr>) = Some ht'"
    "hash_inv_at ht' (ps @ [a])" "ht_items ht' = ht_items ?ht @ [(bkey (binfo_of b), stored (pData b))]"
    "same_meta (?ht\<lparr>nNextFreeElement := nf\<rparr>) ht'"
    "entry_at a ht' = Some (bkey (binfo_of b), stored (pData b))"
    "ht_cursor ht' = (if ht_cursor ?ht = None then Some (bkey (binfo_of b)) else ht_cursor ?ht)"
    by (rule insert_new [OF I(1) S(2) ok(1) _ len alloc, of nf]) (use new nf ok I(2) in auto)
  show thesis
    by (rule that [OF alloc N(1) _ N(3,4)])
       (use N new ok nf(2) I(2) S(4,7) in \<open>simp_all add: stored_as_def same_meta_def update_absent\<close>)
qed

lemma quick_present:
  assumes inv: "hash_inv_at ht ps" and key: "key_arg key kl"
    and pres: "StrKey (chars key) \<in> fst ` set (ht_items ht)"
  shows "flag AND HASH_ADD \<noteq> 0 \<Longrightarrow>
     zend_hash_quick_add_or_update key kl (djb (chars key)) v sz flag ht = Some (FAILURE, None, CHECK_INIT ht)"
   "flag AND HASH_ADD = 0 \<Longrightarrow> \<exists>a ht'.
     zend_hash_quick_add_or_update key kl (djb (chars key)) v sz flag ht = Some (SUCCESS, Some a, ht') \<and>
     hash_inv_at ht' ps \<and> stored_as (StrKey (chars key)) v ht ht' \<and>
     entry_at a ht' = Some (StrKey (chars key), v)"
proof -
  note I = check_init_inv [OF inv]
  obtain a b where F: "find_bucket (str_match key kl (djb (chars key))) (djb (chars key)) (CHECK_INIT ht) = Some (Some a)"
      "bheap (CHECK_INIT ht) a = Some b" "bkey (binfo_of b) = StrKey (chars key)"
      "map_of (ht_items (CHECK_INIT ht)) (StrKey (chars key)) = Some (stored (pData b))"
    by (rule find_bucket_str [OF I(1) key]) (use pres I(2) in auto)
  then show "flag AND HASH_ADD \<noteq> 0 \<Longrightarrow>
     zend_hash_quick_add_or_update key kl (djb (chars key)) v sz flag ht = Some (FAILURE, None, CHECK_INIT ht)"
    by (simp add: zend_hash_quick_add_or_update_def)
  assume flag: "flag AND HASH_ADD = 0"
  obtain ht' where "update_found a v sz (CHECK_INIT ht) = Some ht'" "hash_inv_at ht' ps"
    "stored_as (StrKey (chars key)) v ht ht'" "entry_at a ht' = Some (StrKey (chars key), v)"
    by (rule store_present [OF inv F(2-4)])
  with F(1) flag show "\<exists>a ht'.
     zend_hash_quick_add_or_update key kl (djb (chars key)) v sz flag ht = Some (SUCCESS, Some a, ht') \<and>
     hash_inv_at ht' ps \<and> stored_as (StrKey (chars key)) v ht ht' \<and>
     entry_at a ht' = Some (StrKey (chars key), v)"
    by (auto simp: zend_hash_quick_add_or_update_def)
qed

lemma quick_absent:
  assumes inv: "hash_inv_at ht ps" and key: "key_arg key kl" and len: "length ps < 2 ^ 32 - 1"
    and new: "StrKey (chars key) \<notin> fst ` set (ht_items ht)"
  shows "\<exists>a ht'.
     zend_hash_quick_add_or_update key kl (djb (chars key)) v sz flag ht = Some (SUCCESS, Some a, ht') \<and>
     hash_inv_at ht' (ps @ [a]) \<and> stored_as (StrKey (chars key)) v ht ht' \<and>
     entry_at a ht' = Some (StrKey (chars key), v)"
proof -
  let ?b = "new_str_bucket key kl (djb (chars key)) v sz" and ?nf = "nNextFreeElement ht"
  note I = check_init_inv [OF inv]
  have F: "find_bucket (str_match key kl (djb (chars key))) (djb (chars key)) (CHECK_INIT ht) = Some None"
    "StrKey (chars key) \<notin> fst ` set (ht_items (CHECK_INIT ht))"
    "map_of (ht_items (CHECK_INIT ht)) (StrKey (chars key)) = None"
    by (rule find_bucket_str [OF I(1) key]; use new I(2) in \<open>force dest: map_of_SomeD\<close>)+
  have nf: "next_free_ok ?nf (ht_items ht @ [(StrKey (chars key), stored (pData ?b))])"
    by (rule next_free_ok_str) (rule hash_inv_atD(6) [OF inv])
  obtain a ht1 ht2 ht' where N: "pemalloc_bucket ?b (CHECK_INIT ht) = (a, ht1)"
    "link_bucket a (bkt_h ?b) ht1 = Some ht2" "nNextFreeElement ht2 = nNextFreeElement ht"
    "ZEND_HASH_IF_FULL_DO_RESIZE
       (ht2\<lparr>nNextFreeElement := ?nf, nNumOfElements := nNumOfElements ht2 + 1\<rparr>) = Some ht'"
    "hash_inv_at ht' (ps @ [a])" "stored_as (StrKey (chars key)) (stored (pData ?b)) ht ht'"
    "entry_at a ht' = Some (StrKey (chars key), stored (pData ?b))"
    by (rule store_absent [OF inv new_str_bucket_key(2,1) [OF key] F(2,3) len nf]) simp
  have "ht2\<lparr>nNextFreeElement := ?nf, nNumOfElements := nNumOfElements ht2 + 1\<rparr>
      = ht2\<lparr>nNumOfElements := nNumOfElements ht2 + 1\<rparr>"
    using N(3) by simp
  with N F(1) show ?thesis
    by (simp add: zend_hash_quick_add_or_update_def new_bucket_sel)
qed

text \<open>The routine that hashes the key itself links the new bucket in another order.\<close>

lemma connect_global_slot:
  "Option.bind (CONNECT_TO_GLOBAL_DLLIST a ht) (wr_slot i p) =
   Option.bind (wr_slot i p ht) (CONNECT_TO_GLOBAL_DLLIST a)"
  by (auto simp: CONNECT_TO_GLOBAL_DLLIST_def CONNECT_TO_GLOBAL_DLLIST_EX_def wr_slot_def wr_def
        split: option.splits bind_splits)

lemma connect_global_mask:
  "CONNECT_TO_GLOBAL_DLLIST a ht = Some ht' \<Longrightarrow> nTableMask ht' = nTableMask ht"
  by (auto simp: CONNECT_TO_GLOBAL_DLLIST_def CONNECT_TO_GLOBAL_DLLIST_EX_def wr_def
        split: option.splits bind_splits)

lemma link_order:
  "do { ht \<leftarrow> CONNECT_TO_GLOBAL_DLLIST a ht; wr_slot (nIndex hv ht) p ht } =
   do { ht' \<leftarrow> wr_slot (nIndex hv ht) p ht; CONNECT_TO_GLOBAL_DLLIST a ht' }"
proof -
  have "do { ht \<leftarrow> CONNECT_TO_GLOBAL_DLLIST a ht; wr_slot (nIndex hv ht) p ht } =
        Option.bind (CONNECT_TO_GLOBAL_DLLIST a ht) (wr_slot (nIndex hv ht) p)"
    using connect_global_mask [of a ht]
    by (cases "CONNECT_TO_GLOBAL_DLLIST a ht") (simp_all add: nIndex_def)
  then show ?thesis by (simp add: connect_global_slot)
qed

lemma add_or_update_quick:
  assumes "key_arg key kl"
  shows "zend_hash_add_or_update key kl v sz flag ht =
         zend_hash_quick_add_or_update key kl (djb (chars key)) v sz flag ht"
proof -
  have assoc: "do { ht \<leftarrow> CONNECT_TO_GLOBAL_DLLIST a ht; ht \<leftarrow> wr_slot (nIndex hv ht) p ht; f ht } =
      do { ht' \<leftarrow> wr_slot (nIndex hv ht) p ht; ht \<leftarrow> CONNECT_TO_GLOBAL_DLLIST a ht'; f ht }"
    for a hv p f and ht :: "'a HashTable"
    using arg_cong [OF link_order [of a ht hv p], of "\<lambda>m. Option.bind m f"] by simp
  show ?thesis
    using hash_func_arg [OF assms]
    by (simp add: zend_hash_add_or_update_def zend_hash_quick_add_or_update_def link_bucket_def Let_def
          assoc cong: option.case_cong)
qed

subsection \<open>Integer keys\<close>

lemma bump_field:
  "bump_next_free hv ht = ht\<lparr>nNextFreeElement := nNextFreeElement (bump_next_free hv ht)\<rparr>"
  by (simp add: bump_next_free_def)

lemma bump_cong:
  "nNextFreeElement ht = nNextFreeElement ht' \<Longrightarrow>
   nNextFreeElement (bump_next_free hv ht) = nNextFreeElement (bump_next_free hv ht')"
  by (simp add: bump_next_free_def)

lemma index_present:
  assumes inv: "hash_inv_at ht ps"
    and hv: "hv = (if flag AND HASH_NEXT_INSERT \<noteq> 0 then nNextFreeElement ht else h0)"
    and pres: "IntKey hv \<in> fst ` set (ht_items ht)"
  shows "flag AND HASH_NEXT_INSERT \<noteq> 0 \<or> flag AND HASH_ADD \<noteq> 0 \<Longrightarrow>
     zend_hash_index_update_or_next_insert h0 v sz flag ht = Some (FAILURE, None, CHECK_INIT ht)"
   "flag AND HASH_NEXT_INSERT = 0 \<Longrightarrow> flag AND HASH_ADD = 0 \<Longrightarrow> \<exists>a ht'.
     zend_hash_index_update_or_next_insert h0 v sz flag ht = Some (SUCCESS, Some a, ht') \<and>
     hash_inv_at ht' ps \<and> stored_as (IntKey hv) v ht ht' \<and>
     entry_at a ht' = Some (IntKey hv, v)"
proof -
  note I = check_init_inv [OF inv] and S = check_init_struct(4) [OF hash_inv_atD(1) [OF inv]]
  have hv': "(if flag AND HASH_NEXT_INSERT \<noteq> 0 then nNextFreeElement (CHECK_INIT ht) else h0) = hv"
    using hv S by (simp add: same_meta_def)
  obtain a b where F: "find_bucket (int_match hv) hv (CHECK_INIT ht) = Some (Some a)"
      "bheap (CHECK_INIT ht) a = Some b" "bkey (binfo_of b) = IntKey hv"
      "map_of (ht_items (CHECK_INIT ht)) (IntKey hv) = Some (stored (pData b))"
    by (rule find_bucket_int [OF I(1), of hv]) (use pres I(2) in auto)
  then show "flag AND HASH_NEXT_INSERT \<noteq> 0 \<or> flag AND HASH_ADD \<noteq> 0 \<Longrightarrow>
     zend_hash_index_update_or_next_insert h0 v sz flag ht = Some (FAILURE, None, CHECK_INIT ht)"
    unfolding zend_hash_index_update_or_next_insert_def Let_def hv' by simp
  assume flag: "flag AND HASH_NEXT_INSERT = 0" "flag AND HASH_ADD = 0"
  obtain ht' where "update_found a v sz (CHECK_INIT ht) = Some ht'" "hash_inv_at ht' ps"
    "stored_as (IntKey hv) v ht ht'" "entry_at a ht' = Some (IntKey hv, v)"
    by (rule store_present [OF inv F(2-4)])
  with F(1) flag show "\<exists>a ht'.
     zend_hash_index_update_or_next_insert h0 v sz flag ht = Some (SUCCESS, Some a, ht') \<and>
     hash_inv_at ht' ps \<and> stored_as (IntKey hv) v ht ht' \<and>
     entry_at a ht' = Some (IntKey hv, v)"
    unfolding zend_hash_index_update_or_next_insert_def Let_def hv' by auto
qed

lemma index_absent:
  assumes inv: "hash_inv_at ht ps" and len: "length ps < 2 ^ 32 - 1"
    and hv: "hv = (if flag AND HASH_NEXT_INSERT \<noteq> 0 then nNextFreeElement ht else h0)"
    and new: "IntKey hv \<notin> fst ` set (ht_items ht)"
  shows "\<exists>a ht'.
     zend_hash_index_update_or_next_insert h0 v sz flag ht = Some (SUCCESS, Some a, ht') \<and>
     hash_inv_at ht' (ps @ [a]) \<and> stored_as (IntKey hv) v ht ht' \<and>
     entry_at a ht' = Some (IntKey hv, v)"
proof -
  let ?b = "new_int_bucket hv v sz" and ?nf = "nNextFreeElement (bump_next_free hv ht)"
  note I = check_init_inv [OF inv] and S = check_init_struct(4) [OF hash_inv_atD(1) [OF inv]]
  have hv': "(if flag AND HASH_NEXT_INSERT \<noteq> 0 then nNextFreeElement (CHECK_INIT ht) else h0) = hv"
    using hv S by (simp add: same_meta_def)
  have F: "find_bucket (int_match hv) hv (CHECK_INIT ht) = Some None"
    "IntKey hv \<notin> fst ` set (ht_items (CHECK_INIT ht))"
    "map_of (ht_items (CHECK_INIT ht)) (IntKey hv) = None"
    by (rule find_bucket_int [OF I(1), of hv]; use new I(2) in \<open>force dest: map_of_SomeD\<close>)+
  have nf: "next_free_ok ?nf (ht_items ht @ [(IntKey hv, stored (pData ?b))])"
    by (rule bump_next_free_ok) (rule hash_inv_atD(6) [OF inv])
  obtain a ht1 ht2 ht' where N: "pemalloc_bucket ?b (CHECK_INIT ht) = (a, ht1)"
    "link_bucket a (bkt_h ?b) ht1 = Some ht2" "nNextFreeElement ht2 = nNextFreeElement ht"
    "ZEND_HASH_IF_FULL_DO_RESIZE
       (ht2\<lparr>nNextFreeElement := ?nf, nNumOfElements := nNumOfElements ht2 + 1\<rparr>) = Some ht'"
    "hash_inv_at ht' (ps @ [a])" "stored_as (IntKey hv) (stored (pData ?b)) ht ht'"
    "entry_at a ht' = Some (IntKey hv, stored (pData ?b))"
    by (rule store_absent [OF inv new_bucket_sel(6,5) F(2,3) len nf])
       (simp add: bump_next_free_eq next_free_le [OF hash_inv_atD(6) [OF inv]])
  have "bump_next_free hv ht2 = ht2\<lparr>nNextFreeElement := ?nf\<rparr>"
    using bump_field [of hv ht2] bump_cong [OF N(3), of hv] by simp
  moreover have "nNumOfElements (bump_next_free hv ht2) = nNumOfElements ht2"
    by (simp add: bump_next_free_def)
  ultimately show ?thesis
    using N F(1) unfolding zend_hash_index_update_or_next_insert_def Let_def hv'
    by (simp add: new_bucket_sel)
qed

text \<open>
  The specification of storing under a key: with \<open>strict\<close> an existing key is refused
  and the table keeps its elements. A table holds at most \<open>2 ^ 32 - 1\<close> elements
  (\<open>nNumOfElements\<close> is 32 bits wide); inserting into a full table is left open.
\<close>

definition room :: "'v HashTable \<Rightarrow> bool" where
  "room ht \<longleftrightarrow> length (ht_items ht) < 2 ^ 32 - 1"

definition store_spec ::
    "hkey \<Rightarrow> 'v \<Rightarrow> bool \<Rightarrow> 'v HashTable \<Rightarrow> (zresult \<times> ptr \<times> 'v HashTable) option \<Rightarrow> bool" where
  "store_spec k v strict ht r \<longleftrightarrow>
     (if strict \<and> k \<in> fst ` set (ht_items ht) then r = Some (FAILURE, None, CHECK_INIT ht)
      else room ht \<or> k \<in> fst ` set (ht_items ht) \<longrightarrow>
        (\<exists>a ht'. r = Some (SUCCESS, Some a, ht') \<and> hash_inv ht' \<and> stored_as k v ht ht' \<and>
                 entry_at a ht' = Some (k, v)))"

lemma quick_spec:
  assumes "hash_inv ht" "key_arg key kl"
  shows "store_spec (StrKey (chars key)) v (flag AND HASH_ADD \<noteq> 0) ht
           (zend_hash_quick_add_or_update key kl (djb (chars key)) v sz flag ht)"
proof -
  obtain ps where inv: "hash_inv_at ht ps" using assms by (auto simp: hash_inv_def)
  show ?thesis
    using quick_present [OF inv assms(2), where flag = flag and v = v and sz = sz]
      quick_absent [OF inv assms(2), where flag = flag and v = v and sz = sz]
    unfolding store_spec_def room_def items_length [OF inv] hash_inv_def by metis
qed

lemma index_spec:
  assumes "hash_inv ht"
    and hv: "hv = (if flag AND HASH_NEXT_INSERT \<noteq> 0 then nNextFreeElement ht else h0)"
  shows "store_spec (IntKey hv) v (flag AND HASH_NEXT_INSERT \<noteq> 0 \<or> flag AND HASH_ADD \<noteq> 0) ht
           (zend_hash_index_update_or_next_insert h0 v sz flag ht)"
proof -
  obtain ps where inv: "hash_inv_at ht ps" using assms by (auto simp: hash_inv_def)
  show ?thesis
    using index_present [OF inv hv, of v sz] index_absent [OF inv _ hv, of v sz]
    unfolding store_spec_def room_def items_length [OF inv] hash_inv_def by metis
qed

lemma store_specs:
  assumes "hash_inv ht"
  shows "key_arg key kl \<Longrightarrow> store_spec (StrKey (chars key)) v False ht (zend_hash_update key kl v sz ht)"
    "key_arg key kl \<Longrightarrow> store_spec (StrKey (chars key)) v True ht (zend_hash_add key kl v sz ht)"
    "store_spec (IntKey hv) v False ht (zend_hash_index_update hv v sz ht)"
    "store_spec (IntKey (nNextFreeElement ht)) v True ht (zend_hash_next_index_insert v sz ht)"
proof -
  have flags: "HASH_UPDATE AND HASH_ADD = 0" "HASH_ADD AND HASH_ADD \<noteq> 0" "HASH_UPDATE AND HASH_NEXT_INSERT = 0"
    "HASH_NEXT_INSERT AND HASH_NEXT_INSERT \<noteq> 0"
    by (simp_all add: HASH_UPDATE_def HASH_ADD_def HASH_NEXT_INSERT_def)
  note q = quick_spec [OF assms] and i = index_spec [OF assms refl]
  show "key_arg key kl \<Longrightarrow> store_spec (StrKey (chars key)) v False ht (zend_hash_update key kl v sz ht)"
    using q [of key kl v HASH_UPDATE sz] flags by (simp add: zend_hash_update_def add_or_update_quick)
  show "key_arg key kl \<Longrightarrow> store_spec (StrKey (chars key)) v True ht (zend_hash_add key kl v sz ht)"
    using q [of key kl v HASH_ADD sz] flags by (simp add: zend_hash_add_def add_or_update_quick)
  show "store_spec (IntKey hv) v False ht (zend_hash_index_update hv v sz ht)"
    using i [where v = v and flag = HASH_UPDATE and ?h0.0 = hv and sz = sz] flags by (simp add: zend_hash_index_update_def)
  show "store_spec (IntKey (nNextFreeElement ht)) v True ht (zend_hash_next_index_insert v sz ht)"
    using i [where v = v and flag = HASH_NEXT_INSERT and ?h0.0 = 0 and sz = sz] flags by (simp add: zend_hash_next_index_insert_def)
qed

subsection \<open>Deletion\<close>

text \<open>The key after \<open>k\<close> in list order, where the internal pointer goes when \<open>k\<close> is deleted.\<close>

fun key_after :: "hkey \<Rightarrow> (hkey \<times> 'v) list \<Rightarrow> hkey option" where
  "key_after k [] = None"
| "key_after k (x # xs) = (if fst x = k then (case xs of [] \<Rightarrow> None | y # _ \<Rightarrow> Some (fst y)) else key_after k xs)"

definition deleted_as :: "hkey \<Rightarrow> 'v HashTable \<Rightarrow> 'v HashTable \<Rightarrow> bool" where
  "deleted_as k ht ht' \<longleftrightarrow>
     ht_items ht' = AList.delete k (ht_items ht) \<and>
     dtor_log ht' = dtor_log ht @ (if pDestructor ht then (case map_of (ht_items ht) k of
                                     Some w \<Rightarrow> [w] | None \<Rightarrow> []) else []) \<and>
     pDestructor ht' = pDestructor ht \<and> nNextFreeElement ht' = nNextFreeElement ht \<and>
     ht_cursor ht' = (if ht_cursor ht = Some k then key_after k (ht_items ht) else ht_cursor ht)"

lemma delete_notin_keys: "k \<notin> fst ` set xs \<Longrightarrow> AList.delete k xs = xs"
  by (induction xs) auto

lemma delete_append: "AList.delete k (xs @ ys) = AList.delete k xs @ AList.delete k ys"
  by (simp add: AList.delete_eq)

lemma delete_split:
  "k \<notin> fst ` set us \<Longrightarrow> k \<notin> fst ` set vs \<Longrightarrow> AList.delete k (us @ (k, w) # vs) = us @ vs"
  by (simp add: delete_append delete_notin_keys)

lemma key_after_split:
  "k \<notin> fst ` set us \<Longrightarrow> key_after k (us @ (k, w) # vs) = (case vs of [] \<Rightarrow> None | y # _ \<Rightarrow> Some (fst y))"
  by (induction us) auto

lemma next_free_ok_subset:
  "next_free_ok nf xs \<Longrightarrow> fst ` set ys \<subseteq> fst ` set xs \<Longrightarrow> next_free_ok nf ys"
  by (auto simp: next_free_ok_def)

lemma cursor_at:
  "hash_struct ht ps \<Longrightarrow> pInternalPointer ht = Some c \<Longrightarrow>
   ht_cursor ht = Some (bkey (the (iview (bheap ht) c)))"
proof -
  assume hs: "hash_struct ht ps" and p: "pInternalPointer ht = Some c"
  obtain b where "bheap ht c = Some b" using hash_structD(8) [OF hs p] hash_structD(2) [OF hs] by auto
  with p show ?thesis by (simp add: ht_cursor_def heap_simps)
qed

lemma bucket_delete_inv:
  assumes inv: "hash_inv_at ht ps" and b: "bheap ht a = Some b"
  obtains us vs ht' where "ps = us @ a # vs" "i_zend_hash_bucket_delete a ht = Some ht'"
    "hash_inv_at ht' (us @ vs)" "deleted_as (bkey (binfo_of b)) ht ht'"
    "same_meta (run_dtor (stored (pData b)) ht) ht'" "iview (bheap ht') = (iview (bheap ht))(a := None)"
proof -
  note D = hash_inv_atD [OF inv]
  let ?k = "bkey (binfo_of b)" and ?I = "iview (bheap ht)"
  have a: "a \<in> set ps" using D(4) [OF b] by simp
  obtain us vs where sp: "ps = us @ a # vs"
    "ht_items ht = items ?I us @ (?k, stored (pData b)) # items ?I vs"
    "?k \<notin> fst ` set (items ?I us)" "?k \<notin> fst ` set (items ?I vs)"
    by (rule split_at_bucket [OF inv a]) (use b in auto)
  have notin: "a \<notin> set us" "a \<notin> set vs" using D(3) sp(1) by auto
  obtain ht' where R: "i_zend_hash_bucket_delete a ht = Some ht'" "hash_struct ht' (us @ vs)"
    "iview (bheap ht') = ?I(a := None)" "same_meta (run_dtor (stored (pData b)) ht) ht'"
    "pInternalPointer ht' = (if pInternalPointer ht = Some a then hd_or None vs else pInternalPointer ht)"
    by (rule delete_struct [OF _ b]) (use D(1) sp(1) in auto)
  have it: "items (iview (bheap ht')) (us @ vs) = AList.delete ?k (ht_items ht)"
    using sp notin by (simp add: R(3) items_append items_upd_notin delete_split)
  have keys: "fst ` set (AList.delete ?k (ht_items ht)) \<subseteq> fst ` set (ht_items ht)"
    by (simp add: AList.delete_eq image_mono)
  have nf: "nNextFreeElement ht' = nNextFreeElement ht"
    using R(4) by (simp add: same_meta_def run_dtor_def split: if_splits)
  have inv': "hash_inv_at ht' (us @ vs)"
  proof (rule hash_inv_atI [OF R(2)])
    fix c assume "c \<in> set (us @ vs)"
    then show "info_ok (the (iview (bheap ht') c))"
      using inv notin sp(1) by (auto simp: R(3) hash_inv_at_def)
  next
    show "distinct (map fst (items (iview (bheap ht')) (us @ vs)))"
      unfolding it using D(5) by (rule distinct_delete)
    show "next_free_ok (nNextFreeElement ht') (items (iview (bheap ht')) (us @ vs))"
      unfolding it nf by (rule next_free_ok_subset [OF D(6) keys])
  qed
  have cur: "ht_cursor ht' = (if ht_cursor ht = Some ?k then key_after ?k (ht_items ht) else ht_cursor ht)"
  proof (cases "pInternalPointer ht")
    case None
    then show ?thesis by (simp add: R(5) ht_cursor_def)
  next
    case (Some c)
    note c = hash_structD(8) [OF D(1) Some] cursor_at [OF D(1) Some]
    show ?thesis
    proof (cases "c = a")
      case True
      with b c(2) have "ht_cursor ht = Some ?k" by (simp add: heap_simps)
      moreover have "ht_cursor ht' = (case items ?I vs of [] \<Rightarrow> None | y # _ \<Rightarrow> Some (fst y))"
        using Some True notin cursor_at [OF R(2)] R(5)
        by (cases vs) (auto simp: R(3) items_Cons items_Nil ht_cursor_def)
      ultimately show ?thesis using sp by (simp add: key_after_split)
    next
      case False
      then have "pInternalPointer ht' = Some c" using Some R(5) by simp
      from cursor_at [OF R(2) this] have "ht_cursor ht' = ht_cursor ht" using False c(2) by (simp add: R(3))
      moreover from c(1) False sp(1) have "c \<in> set us \<or> c \<in> set vs" by auto
      then have "bkey (the (?I c)) \<noteq> ?k" using sp(3,4) by (auto simp: items_key_mem)
      ultimately show ?thesis using c(2) by simp
    qed
  qed
  have "map_of (ht_items ht) ?k = Some (stored (pData b))"
    using sp by (simp add: map_add_def map_of_eq_None_iff [THEN iffD2])
  then have "deleted_as ?k ht ht'"
    using it ht_items_eq [OF R(2)] nf cur R(4)
    by (simp add: deleted_as_def same_meta_def run_dtor_def)
  with that [OF sp(1) R(1) inv'] R(3,4) show thesis by blast
qed

lemma del_key:
  assumes inv: "hash_inv_at ht ps"
    and match: "\<And>b :: 'v Bucket. info_ok (binfo_of b) \<Longrightarrow> del_match key kl (key_hash k) b = Some (bkey (binfo_of b) = k)"
    and hf: "flag = HASH_DEL_KEY \<Longrightarrow> zend_inline_hash_func (chars key) kl = Some (key_hash k)"
      "flag \<noteq> HASH_DEL_KEY \<Longrightarrow> h0 = key_hash k"
  obtains (present) us a vs ht' where "k \<in> fst ` set (ht_items ht)" "ps = us @ a # vs"
      "zend_hash_del_key_or_index key kl h0 flag (ht :: 'v HashTable) = Some (SUCCESS, ht')"
      "hash_inv_at ht' (us @ vs)" "deleted_as k ht ht'"
  | (absent) "k \<notin> fst ` set (ht_items ht)"
      "zend_hash_del_key_or_index key kl h0 flag ht = Some (FAILURE, ht)"
proof -
  have hv: "(if flag = HASH_DEL_KEY then zend_inline_hash_func (chars key) kl else Some h0) = Some (key_hash k)"
    using hf by auto
  show thesis
  proof (rule find_key [OF inv, of "del_match key kl (key_hash k)" k])
    fix a b assume F: "find_bucket (del_match key kl (key_hash k)) (key_hash k) ht = Some (Some a)"
      "bheap ht a = Some b" "bkey (binfo_of b) = k" "map_of (ht_items ht) k = Some (stored (pData b))"
    obtain us vs ht' where "ps = us @ a # vs" "i_zend_hash_bucket_delete a ht = Some ht'"
      "hash_inv_at ht' (us @ vs)" "deleted_as (bkey (binfo_of b)) ht ht'"
      by (rule bucket_delete_inv [OF inv F(2)])
    with F hv present [of us a vs ht'] show thesis
      by (force simp: zend_hash_del_key_or_index_def dest: map_of_SomeD)
  next
    assume "find_bucket (del_match key kl (key_hash k)) (key_hash k) ht = Some None"
      "k \<notin> fst ` set (ht_items ht)"
    with hv absent show thesis by (simp add: zend_hash_del_key_or_index_def)
  qed (rule match)
qed

text \<open>The specification of a deletion.\<close>

definition del_spec :: "hkey \<Rightarrow> 'v HashTable \<Rightarrow> (zresult \<times> 'v HashTable) option \<Rightarrow> bool" where
  "del_spec k ht r \<longleftrightarrow>
     (if k \<in> fst ` set (ht_items ht)
      then \<exists>ht'. r = Some (SUCCESS, ht') \<and> hash_inv ht' \<and> deleted_as k ht ht'
      else r = Some (FAILURE, ht))"

lemma del_specs:
  assumes "hash_inv (ht :: 'v HashTable)"
  shows "key_arg key kl \<Longrightarrow> del_spec (StrKey (chars key)) ht (zend_hash_del key kl ht)"
    "key_arg key kl \<Longrightarrow> del_spec (StrKey (chars key)) ht (zend_hash_quick_del key kl (djb (chars key)) ht)"
    "del_spec (IntKey hv) ht (zend_hash_index_del hv ht)"
proof -
  obtain ps where inv: "hash_inv_at ht ps" using assms by (auto simp: hash_inv_def)
  have spec: "del_spec k ht (zend_hash_del_key_or_index key kl h0 flag ht)"
    if "\<And>b :: 'v Bucket. info_ok (binfo_of b) \<Longrightarrow> del_match key kl (key_hash k) b = Some (bkey (binfo_of b) = k)"
      "flag = HASH_DEL_KEY \<Longrightarrow> zend_inline_hash_func (chars key) kl = Some (key_hash k)"
      "flag \<noteq> HASH_DEL_KEY \<Longrightarrow> h0 = key_hash k" for k key kl h0 flag
    by (rule del_key [OF inv that]) (auto simp: hash_inv_def del_spec_def)
  show "del_spec (IntKey hv) ht (zend_hash_index_del hv ht)"
    unfolding zend_hash_index_del_def by (rule spec) (simp_all add: del_match_int)
  assume key: "key_arg key kl"
  show "del_spec (StrKey (chars key)) ht (zend_hash_del key kl ht)"
    unfolding zend_hash_del_def by (rule spec) (simp_all add: del_match_key [OF _ key] hash_func_arg [OF key])
  show "del_spec (StrKey (chars key)) ht (zend_hash_quick_del key kl (djb (chars key)) ht)"
    unfolding zend_hash_quick_del_def by (rule spec) (simp_all add: del_match_key [OF _ key])
qed

subsection \<open>Initialisation\<close>

lemma init_shift_bounds: "i \<le> 31 \<Longrightarrow> i \<le> init_shift n i \<and> init_shift n i \<le> 31"
proof (induction n i rule: init_shift.induct)
  case (1 n i)
  then show ?case by (subst (1 2) init_shift.simps) auto
qed

lemma unat_power_uint: "k \<le> 31 \<Longrightarrow> unat (2 ^ k :: uint) = 2 ^ k"
proof -
  assume k: "k \<le> 31"
  then have "(2::nat) ^ k < 2 ^ 32" by (intro power_strict_increasing) auto
  then have "unat (word_of_nat (2 ^ k) :: uint) = 2 ^ k"
    by (simp only: unsigned_of_nat) (use k in \<open>simp add: take_bit_nat_eq_self\<close>)
  then show ?thesis by simp
qed

text \<open>The size is a power of two, at least 8, and the request fits when it is at most \<open>2 ^ 31\<close>.\<close>

lemma init_shift_enough:
  "i \<le> 31 \<Longrightarrow> n \<le> 0x80000000 \<Longrightarrow> n \<le> push_bit (init_shift n i) 1"
proof (induction n i rule: init_shift.induct)
  case (1 n i)
  show ?case
  proof (cases "i < 31 \<and> push_bit i 1 < n")
    case True
    with 1 show ?thesis by (subst init_shift.simps) auto
  next
    case False
    with 1 have "i = 31 \<or> \<not> push_bit i 1 < n" by auto
    with 1(3) show ?thesis using False by (subst init_shift.simps) (auto simp: push_bit_eq_mult)
  qed
qed

lemma init_table_size:
  "\<exists>k. 3 \<le> k \<and> k \<le> 31 \<and> unat (nTableSize (zend_hash_init n d p)) = 2 ^ k"
proof (cases "n \<ge> 0x80000000")
  case True
  then show ?thesis by (intro exI [of _ 31]) (simp add: zend_hash_init_def)
next
  case False
  then show ?thesis
    using init_shift_bounds [of 3 n]
    by (intro exI [of _ "init_shift n 3"]) (simp add: zend_hash_init_def push_bit_eq_mult unat_power_uint)
qed

lemma init_inv: "hash_inv_at (zend_hash_init n d p) []" "ht_items (zend_hash_init n d p) = []"
proof -
  have "table_ok (zend_hash_init n d p)"
    using init_table_size [of n d p] by (simp add: table_ok_def zend_hash_init_def)
  then show "hash_inv_at (zend_hash_init n d p) []"
    by (simp add: hash_inv_at_def hash_struct_def heap_struct_def items_Nil list_inv_empty next_free_ok_def)
       (simp add: zend_hash_init_def heap_bounded_def list_inv_empty chain_inv_def chain_at_def)
  show "ht_items (zend_hash_init n d p) = []"
    by (simp add: ht_items_def zend_hash_init_def)
qed

lemma init_ex_inv: "hash_inv_at (zend_hash_init_ex n d p a) []" "ht_items (zend_hash_init_ex n d p a) = []"
  using init_inv [of n d p]
  by (simp_all add: zend_hash_init_ex_def hash_inv_at_def ht_items_def)

end
