(* ===== verification/Zend_Hash_Iter.thy ===== *)
theory Zend_Hash_Iter
  imports Zend_Hash_Ops
begin

text \<open>
  Destroying, cleaning and traversing a hash table: \<open>zend_hash_destroy\<close> and its
  graceful variants, \<open>zend_hash_clean\<close>, and the \<open>zend_hash_apply\<close> family. A traversal
  callback is a function of the element and of a state of its own; it may change the element
  in place and answers with the \<open>ZEND_HASH_APPLY\<close> bits. The reference is a fold over
  the element list (\<open>apply_list\<close>).
\<close>

unbundle bit_operations_syntax

subsection \<open>Destroying and cleaning\<close>

text \<open>The loop of \<open>zend_hash_destroy\<close> and \<open>zend_hash_clean\<close> over the element list.\<close>

partial_function (option) free_buckets :: "ptr \<Rightarrow> 'v HashTable \<Rightarrow> 'v HashTable option" where
  "free_buckets p ht =
     (case p of None \<Rightarrow> Some ht
      | Some q \<Rightarrow> do {
          b \<leftarrow> bheap ht q;
          ht \<leftarrow> pefree_bucket q (run_dtor (stored (pData b)) ht);
          free_buckets (pListNext b) ht })"

declare free_buckets.simps [code]

text \<open>Freeing \<open>arBuckets\<close>: an access to the empty array is a fault from then on.\<close>

definition free_arBuckets :: "'v HashTable \<Rightarrow> 'v HashTable" where
  "free_arBuckets ht = (if nTableMask ht \<noteq> 0 then ht\<lparr>arBuckets := []\<rparr> else ht)"

definition zend_hash_destroy :: "'v HashTable \<Rightarrow> 'v HashTable option" where
  "zend_hash_destroy ht = do {
     ht \<leftarrow> free_buckets (pListHead ht) ht;
     Some (free_arBuckets ht) }"

definition zend_hash_clean :: "'v HashTable \<Rightarrow> 'v HashTable option" where
  "zend_hash_clean ht =
     (let p = pListHead ht;
          ht = (if nTableMask ht \<noteq> 0
                then ht\<lparr>arBuckets := replicate (unat (nTableSize ht)) None\<rparr> else ht);
          ht = ht\<lparr>pListHead := None, pListTail := None, nNumOfElements := 0, nNextFreeElement := 0,
                  pInternalPointer := None\<rparr>
      in free_buckets p ht)"

partial_function (option) graceful_loop :: "'v HashTable \<Rightarrow> 'v HashTable option" where
  "graceful_loop ht =
     (case pListHead ht of None \<Rightarrow> Some ht
      | Some p \<Rightarrow> do { ht \<leftarrow> zend_hash_bucket_delete p ht; graceful_loop ht })"

declare graceful_loop.simps [code]

definition zend_hash_graceful_destroy :: "'v HashTable \<Rightarrow> 'v HashTable option" where
  "zend_hash_graceful_destroy ht = do { ht \<leftarrow> graceful_loop ht; Some (free_arBuckets ht) }"

partial_function (option) graceful_reverse_loop :: "'v HashTable \<Rightarrow> 'v HashTable option" where
  "graceful_reverse_loop ht =
     (case pListTail ht of None \<Rightarrow> Some ht
      | Some p \<Rightarrow> do { ht \<leftarrow> zend_hash_bucket_delete p ht; graceful_reverse_loop ht })"

declare graceful_reverse_loop.simps [code]

definition zend_hash_graceful_reverse_destroy :: "'v HashTable \<Rightarrow> 'v HashTable option" where
  "zend_hash_graceful_reverse_destroy ht = do { ht \<leftarrow> graceful_reverse_loop ht; Some (free_arBuckets ht) }"

subsection \<open>Traversal\<close>

definition ZEND_HASH_APPLY_KEEP :: uint where "ZEND_HASH_APPLY_KEEP = 0"
definition ZEND_HASH_APPLY_REMOVE :: uint where "ZEND_HASH_APPLY_REMOVE = 1"
definition ZEND_HASH_APPLY_STOP :: uint where "ZEND_HASH_APPLY_STOP = 2"

record zend_hash_key =
  hk_arKey :: charptr
  hk_nKeyLength :: uint
  hk_h :: ulong

text \<open>
  \<open>Inl\<close>: the fatal error \<^verbatim>\<open>Nesting level too deep\<close>, which leaves through the bailout
  with the counter already incremented.
\<close>

definition HASH_PROTECT_RECURSION :: "'v HashTable \<Rightarrow> 'v HashTable + 'v HashTable" where
  "HASH_PROTECT_RECURSION ht =
     (if bApplyProtection ht
      then (let ht' = ht\<lparr>nApplyCount := nApplyCount ht + 1\<rparr>
            in if nApplyCount ht \<ge> 3 then Inl ht' else Inr ht')
      else Inr ht)"

definition HASH_UNPROTECT_RECURSION :: "'v HashTable \<Rightarrow> 'v HashTable" where
  "HASH_UNPROTECT_RECURSION ht =
     (if bApplyProtection ht then ht\<lparr>nApplyCount := nApplyCount ht - 1\<rparr> else ht)"

type_synonym ('v, 's) apply_func = "'v \<Rightarrow> 's \<Rightarrow> uint \<times> 'v \<times> 's"

fun set_stored :: "'v \<Rightarrow> 'v storage \<Rightarrow> 'v storage" where
  "set_stored v (DInline _) = DInline v"
| "set_stored v (DBlock _) = DBlock v"

text \<open>
  The loop the four traversals share: \<open>succ\<close> is the link they follow, read from the
  bucket before the callback's verdict is carried out.
\<close>

partial_function (option) apply_loop ::
    "('v Bucket \<Rightarrow> ptr) \<Rightarrow> (zend_hash_key \<Rightarrow> ('v, 's) apply_func) \<Rightarrow> ptr \<Rightarrow> 'v HashTable \<Rightarrow> 's \<Rightarrow>
     ('v HashTable \<times> 's) option" where
  "apply_loop succ f p ht s =
     (case p of None \<Rightarrow> Some (ht, s)
      | Some a \<Rightarrow> do {
          b \<leftarrow> bheap ht a;
          let (result, v, s) = f \<lparr>hk_arKey = arKey b, hk_nKeyLength = nKeyLength b, hk_h = bkt_h b\<rparr>
                                 (stored (pData b)) s;
          ht \<leftarrow> wr a (\<lambda>b. b\<lparr>pData := set_stored v (pData b)\<rparr>) ht;
          ht \<leftarrow> (if result AND ZEND_HASH_APPLY_REMOVE \<noteq> 0 then zend_hash_bucket_delete a ht else Some ht);
          if result AND ZEND_HASH_APPLY_STOP \<noteq> 0 then Some (ht, s)
          else apply_loop succ f (succ b) ht s })"

declare apply_loop.simps [code]

definition apply_protected ::
    "('v HashTable \<Rightarrow> ('v HashTable \<times> 's) option) \<Rightarrow> 'v HashTable \<Rightarrow>
     ('v HashTable + 'v HashTable \<times> 's) option" where
  "apply_protected body ht =
     (case HASH_PROTECT_RECURSION ht of Inl ht' \<Rightarrow> Some (Inl ht')
      | Inr ht \<Rightarrow> do { (ht, s) \<leftarrow> body ht; Some (Inr (HASH_UNPROTECT_RECURSION ht, s)) })"

definition zend_hash_apply ::
    "('v, 's) apply_func \<Rightarrow> 'v HashTable \<Rightarrow> 's \<Rightarrow> ('v HashTable + 'v HashTable \<times> 's) option" where
  "zend_hash_apply f ht s = apply_protected (\<lambda>ht. apply_loop pListNext (\<lambda>_. f) (pListHead ht) ht s) ht"

definition zend_hash_apply_with_argument ::
    "('a \<Rightarrow> ('v, 's) apply_func) \<Rightarrow> 'a \<Rightarrow> 'v HashTable \<Rightarrow> 's \<Rightarrow> ('v HashTable + 'v HashTable \<times> 's) option" where
  "zend_hash_apply_with_argument f arg ht s =
     apply_protected (\<lambda>ht. apply_loop pListNext (\<lambda>_. f arg) (pListHead ht) ht s) ht"

definition zend_hash_apply_with_arguments ::
    "('a list \<Rightarrow> zend_hash_key \<Rightarrow> ('v, 's) apply_func) \<Rightarrow> 'a list \<Rightarrow> 'v HashTable \<Rightarrow> 's \<Rightarrow>
     ('v HashTable + 'v HashTable \<times> 's) option" where
  "zend_hash_apply_with_arguments f args ht s =
     apply_protected (\<lambda>ht. apply_loop pListNext (f args) (pListHead ht) ht s) ht"

definition zend_hash_reverse_apply ::
    "('v, 's) apply_func \<Rightarrow> 'v HashTable \<Rightarrow> 's \<Rightarrow> ('v HashTable + 'v HashTable \<times> 's) option" where
  "zend_hash_reverse_apply f ht s =
     apply_protected (\<lambda>ht. apply_loop pListLast (\<lambda>_. f) (pListTail ht) ht s) ht"

subsection \<open>The reference traversal\<close>

text \<open>The elements kept, the elements removed in order, and the callback's final state.\<close>

fun apply_list ::
    "(hkey \<Rightarrow> ('v, 's) apply_func) \<Rightarrow> (hkey \<times> 'v) list \<Rightarrow> 's \<Rightarrow> (hkey \<times> 'v) list \<times> 'v list \<times> 's" where
  "apply_list f [] s = ([], [], s)"
| "apply_list f ((k, v) # xs) s =
     (let (result, v', s') = f k v s;
          (kept, gone, s'') = (if result AND ZEND_HASH_APPLY_STOP \<noteq> 0 then (xs, [], s') else apply_list f xs s')
      in if result AND ZEND_HASH_APPLY_REMOVE \<noteq> 0 then (kept, v' # gone, s'') else ((k, v') # kept, gone, s''))"

definition hash_key_of :: "zend_hash_key \<Rightarrow> hkey" where
  "hash_key_of k = (if hk_nKeyLength k = 0 then IntKey (hk_h k)
                    else StrKey (take (unat (hk_nKeyLength k)) (chars (hk_arKey k))))"

lemma hash_key_of_bucket:
  "hash_key_of \<lparr>hk_arKey = arKey b, hk_nKeyLength = nKeyLength b, hk_h = bkt_h b\<rparr> = bkey (binfo_of b)"
  by (simp add: hash_key_of_def binfo_of_def)

subsection \<open>Freeing\<close>

lemma run_dtor_alt:
  "run_dtor v ht = ht\<lparr>dtor_log := dtor_log ht @ (if pDestructor ht then [v] else [])\<rparr>"
  by (simp add: run_dtor_def)

lemma free_buckets_all:
  assumes "dseg (lview (bheap ht)) q ps None" "distinct ps"
  shows "\<exists>ht'. free_buckets (hd_or None ps) ht = Some ht' \<and>
     ht' = ht\<lparr>bheap := (\<lambda>a. if a \<in> set ps then None else bheap ht a),
              dtor_log := dtor_log ht @ (if pDestructor ht then map snd (items (iview (bheap ht)) ps) else [])\<rparr>"
  using assms
proof (induction ps arbitrary: ht q)
  case Nil
  then show ?case by (simp add: free_buckets.simps items_Nil)
next
  case (Cons a ps)
  from Cons.prems obtain b where b: "bheap ht a = Some b" "pListNext b = hd_or None ps"
    by (auto simp: lview_def)
  let ?ht1 = "ht\<lparr>dtor_log := dtor_log ht @ (if pDestructor ht then [stored (pData b)] else []),
                bheap := (bheap ht)(a := None)\<rparr>"
  have step: "free_buckets (Some a) ht = free_buckets (hd_or None ps) ?ht1"
    by (subst free_buckets.simps) (simp add: b pefree_bucket_def run_dtor_alt)
  have seg: "dseg (lview (bheap ?ht1)) (Some a) ps None"
    using Cons.prems by (simp add: heap_simps)
  have fun_eq: "(\<lambda>c. if c \<in> set ps then None else bheap ?ht1 c)
      = (\<lambda>c. if c \<in> set (a # ps) then None else bheap ht c)"
    by auto
  show ?case
    using Cons.IH [OF seg, unfolded fun_eq] Cons.prems(2) b(1)
    by (cases "pDestructor ht") (simp_all add: step items_upd_notin items_Cons heap_simps)
qed

lemma heap_all_gone: "set ps = dom m \<Longrightarrow> (\<lambda>a. if a \<in> set ps then None else m a) = Map.empty"
  by auto

lemma free_list:
  assumes "hash_struct ht ps"
  shows "free_buckets (pListHead ht) ht =
    Some (ht\<lparr>bheap := Map.empty,
             dtor_log := dtor_log ht @ (if pDestructor ht then map snd (ht_items ht) else [])\<rparr>)"
  using free_buckets_all [of ht None ps] hash_structD(1,2,7) [OF assms] ht_items_eq [OF assms]
    heap_all_gone [of ps "bheap ht"]
  by (simp add: list_inv_def)

lemma free_arBuckets_log [simp]: "dtor_log (free_arBuckets ht) = dtor_log ht"
  by (simp add: free_arBuckets_def)

lemma destroy_result:
  assumes "hash_struct ht ps"
  shows "\<exists>ht'. zend_hash_destroy ht = Some ht' \<and> bheap ht' = Map.empty \<and>
     (nTableMask ht \<noteq> 0 \<longrightarrow> arBuckets ht' = []) \<and>
     dtor_log ht' = dtor_log ht @ (if pDestructor ht then map snd (ht_items ht) else [])"
  by (simp add: zend_hash_destroy_def free_list [OF assms] free_arBuckets_def)

lemma clean_result:
  assumes hs: "hash_struct ht ps"
  shows "\<exists>ht'. zend_hash_clean ht = Some ht' \<and> hash_inv_at ht' [] \<and> ht_items ht' = [] \<and>
     bheap ht' = Map.empty \<and> nNextFreeElement ht' = 0 \<and> nTableSize ht' = nTableSize ht \<and>
     dtor_log ht' = dtor_log ht @ (if pDestructor ht then map snd (ht_items ht) else [])"
proof -
  note D = hash_structD [OF hs]
  define ht1 where "ht1 = (if nTableMask ht \<noteq> 0
     then ht\<lparr>arBuckets := replicate (unat (nTableSize ht)) None\<rparr> else ht)
     \<lparr>pListHead := None, pListTail := None, nNumOfElements := 0, nNextFreeElement := 0,
      pInternalPointer := None\<rparr>"
  have eqs: "bheap ht1 = bheap ht" "dtor_log ht1 = dtor_log ht" "pDestructor ht1 = pDestructor ht"
    "nTableSize ht1 = nTableSize ht" "nNextFreeElement ht1 = 0" "nNumOfElements ht1 = 0"
    "pListHead ht1 = None" "pListTail ht1 = None" "pInternalPointer ht1 = None" "nTableMask ht1 = nTableMask ht"
    "arBuckets ht1 = (if nTableMask ht \<noteq> 0 then replicate (unat (nTableSize ht)) None else arBuckets ht)"
    by (simp_all add: ht1_def)
  let ?ht' = "ht1\<lparr>bheap := Map.empty,
      dtor_log := dtor_log ht @ (if pDestructor ht then map snd (ht_items ht) else [])\<rparr>"
  have gone: "(\<lambda>a. if a \<in> set ps then None else bheap ht1 a) = Map.empty"
    using heap_all_gone [OF D(2)] by (simp only: eqs(1))
  have "free_buckets (pListHead ht) ht1 = Some ?ht'"
    using free_buckets_all [of ht1 None ps, unfolded gone] D(1,7) ht_items_eq [OF hs]
    by (simp add: list_inv_def eqs)
  then have run: "zend_hash_clean ht = Some ?ht'"
    by (simp add: zend_hash_clean_def Let_def flip: ht1_def)
  have tok: "table_ok ?ht'" using D(4) by (auto simp: table_ok_def eqs)
  have ch: "chain_inv (cview Map.empty) (arBuckets ht1) ix {}" for ix
    using D(4) by (auto simp: eqs table_ok_def chain_inv_def chain_at_def)
  have "hash_inv_at ?ht' []"
    using tok ch by (simp add: hash_inv_at_def hash_struct_def heap_struct_def items_Nil eqs(1-10) list_inv_empty
        heap_bounded_def next_free_ok_def)
  moreover have "ht_items ?ht' = []" by (simp add: ht_items_def eqs)
  ultimately show ?thesis using run by (auto simp: eqs)
qed

lemma bucket_delete_at:
  assumes inv: "hash_inv_at ht (us @ a # vs)"
  obtains ht' b where "zend_hash_bucket_delete a ht = Some ht'" "hash_inv_at ht' (us @ vs)"
    "bheap ht a = Some b" "same_meta (run_dtor (stored (pData b)) ht) ht'"
    "iview (bheap ht') = (iview (bheap ht))(a := None)"
proof -
  note D = hash_inv_atD [OF inv]
  obtain b where b: "bheap ht a = Some b" using hash_structD(2) [OF D(1)] by (auto simp: set_eq_iff)
  obtain us' vs' ht' where "us @ a # vs = us' @ a # vs'" "i_zend_hash_bucket_delete a ht = Some ht'"
    "hash_inv_at ht' (us' @ vs')" "same_meta (run_dtor (stored (pData b)) ht) ht'"
    "iview (bheap ht') = (iview (bheap ht))(a := None)"
    by (rule bucket_delete_inv [OF inv b])
  moreover have "a \<notin> set us" "a \<notin> set vs" using D(3) by simp_all
  then have "us = us' \<and> vs = vs'" using calculation(1) append_Cons_eq_iff [of a us vs us' vs'] by blast
  ultimately show thesis using b that by (auto simp: zend_hash_bucket_delete_def)
qed

lemma same_meta_log:
  "same_meta (run_dtor v ht) ht' \<Longrightarrow>
   dtor_log ht' = dtor_log ht @ (if pDestructor ht then [v] else []) \<and> pDestructor ht' = pDestructor ht \<and>
   nApplyCount ht' = nApplyCount ht \<and> bApplyProtection ht' = bApplyProtection ht"
  by (auto simp: same_meta_def run_dtor_def split: if_splits)

lemma head_tail:
  "hash_inv_at ht ps \<Longrightarrow> pListHead ht = hd_or None ps" "hash_inv_at ht ps \<Longrightarrow> pListTail ht = last_or None ps"
  using hash_inv_atD(1) hash_structD(1) by (auto simp: list_inv_def)

text \<open>Deleting from the front, and from the back, until nothing is left.\<close>

lemma graceful_all:
  "hash_inv_at ht ps \<Longrightarrow> \<exists>ht'. graceful_loop ht = Some ht' \<and> hash_inv_at ht' [] \<and>
     dtor_log ht' = dtor_log ht @ (if pDestructor ht then map snd (items (iview (bheap ht)) ps) else [])"
proof (induction ps arbitrary: ht)
  case Nil
  then show ?case using head_tail(1) [OF Nil]
    by (subst graceful_loop.simps) (simp add: items_Nil)
next
  case (Cons a ps)
  have inv: "hash_inv_at ht ([] @ a # ps)" using Cons.prems by simp
  obtain ht1 b where del: "zend_hash_bucket_delete a ht = Some ht1" "hash_inv_at ht1 ([] @ ps)"
    "bheap ht a = Some b" "same_meta (run_dtor (stored (pData b)) ht) ht1"
    "iview (bheap ht1) = (iview (bheap ht))(a := None)"
    by (rule bucket_delete_at [OF inv])
  have a: "a \<notin> set ps" using hash_inv_atD(3) [OF Cons.prems] by simp
  have step: "graceful_loop ht = graceful_loop ht1"
    using head_tail(1) [OF Cons.prems] del(1) by (subst graceful_loop.simps) simp
  show ?case
    using Cons.IH [of ht1] del(2,3) same_meta_log [OF del(4)] a
    by (auto simp: step del(5) items_Cons items_upd_notin heap_simps)
qed

lemma graceful_reverse_all:
  "hash_inv_at ht ps \<Longrightarrow> \<exists>ht'. graceful_reverse_loop ht = Some ht' \<and> hash_inv_at ht' [] \<and>
     dtor_log ht' = dtor_log ht @ (if pDestructor ht then rev (map snd (items (iview (bheap ht)) ps)) else [])"
proof (induction ps arbitrary: ht rule: rev_induct)
  case Nil
  then show ?case using head_tail(2) [OF Nil]
    by (subst graceful_reverse_loop.simps) (simp add: items_Nil)
next
  case (snoc a ps)
  obtain ht1 b where del: "zend_hash_bucket_delete a ht = Some ht1" "hash_inv_at ht1 (ps @ [])"
    "bheap ht a = Some b" "same_meta (run_dtor (stored (pData b)) ht) ht1"
    "iview (bheap ht1) = (iview (bheap ht))(a := None)"
    by (rule bucket_delete_at [OF snoc.prems])
  have a: "a \<notin> set ps" using hash_inv_atD(3) [OF snoc.prems] by simp
  have step: "graceful_reverse_loop ht = graceful_reverse_loop ht1"
    using head_tail(2) [OF snoc.prems] del(1) by (subst graceful_reverse_loop.simps) simp
  show ?case
    using snoc.IH [of ht1] del(2,3) same_meta_log [OF del(4)] a
    by (auto simp: step del(5) items_append items_Cons items_Nil items_upd_notin heap_simps)
qed

subsection \<open>Traversal\<close>

text \<open>What a traversal leaves alone.\<close>

definition traversed :: "'v list \<Rightarrow> 'v HashTable \<Rightarrow> 'v HashTable \<Rightarrow> bool" where
  "traversed gone ht ht' \<longleftrightarrow>
     dtor_log ht' = dtor_log ht @ (if pDestructor ht then gone else []) \<and> pDestructor ht' = pDestructor ht \<and>
     nApplyCount ht' = nApplyCount ht \<and> bApplyProtection ht' = bApplyProtection ht \<and>
     nNextFreeElement ht' = nNextFreeElement ht"

lemma traversed_trans: "traversed g ht ht1 \<Longrightarrow> traversed h ht1 ht2 \<Longrightarrow> traversed (g @ h) ht ht2"
  by (auto simp: traversed_def)

lemma stored_set [simp]: "stored (set_stored v d) = v"
  by (cases d) simp_all

lemma apply_step:
  assumes inv: "hash_inv_at ht (us @ a # vs)" and b: "bheap ht a = Some b"
  obtains ht1 ht2 where "wr a (\<lambda>b. b\<lparr>pData := set_stored v (pData b)\<rparr>) ht = Some ht1"
    "(if rem then zend_hash_bucket_delete a ht1 else Some ht1) = Some ht2"
    "hash_inv_at ht2 (us @ (if rem then [] else [a]) @ vs)"
    "items (iview (bheap ht2)) us = items (iview (bheap ht)) us"
    "items (iview (bheap ht2)) vs = items (iview (bheap ht)) vs"
    "rem \<or> items (iview (bheap ht2)) [a] = [(bkey (binfo_of b), v)]"
    "traversed (if rem then [v] else []) ht ht2"
proof -
  have notin: "a \<notin> set us" "a \<notin> set vs" using hash_inv_atD(3) [OF inv] by simp_all
  let ?d = "set_stored v (pData b)"
  obtain ht1 where W: "wr a (\<lambda>b. b\<lparr>pData := ?d\<rparr>) ht = Some ht1" "hash_inv_at ht1 (us @ a # vs)"
    "iview (bheap ht1) = (iview (bheap ht))(a \<mapsto> (bkt_h b, nKeyLength b, arKey b, ?d))"
    "bheap ht1 a = Some (b\<lparr>pData := ?d\<rparr>)" "same_meta ht ht1"
    by (rule set_data_inv [OF inv b])
  have w: "wr a (\<lambda>b. b\<lparr>pData := set_stored v (pData b)\<rparr>) ht = Some ht1"
    using W(1) b by (simp add: wr_def)
  show thesis
  proof (cases rem)
    case False
    then show thesis
      using W(2,3,5) notin
      by (intro that [OF w, of ht1])
         (simp_all add: items_upd_notin items_Cons items_Nil binfo_of_def traversed_def same_meta_def)
  next
    case True
    obtain ht2 b' where del: "zend_hash_bucket_delete a ht1 = Some ht2" "hash_inv_at ht2 (us @ vs)"
      "bheap ht1 a = Some b'" "same_meta (run_dtor (stored (pData b')) ht1) ht2"
      "iview (bheap ht2) = (iview (bheap ht1))(a := None)"
      by (rule bucket_delete_at [OF W(2)])
    have "stored (pData b') = v" using del(3) W(4) by auto
    then have "traversed [v] ht ht2"
      using W(5) del(4) by (auto simp: traversed_def same_meta_def run_dtor_alt)
    with True del W(3) notin show thesis
      by (intro that [OF w, of ht2]) (simp_all add: items_upd_notin)
  qed
qed

lemma apply_forward:
  assumes "hash_inv_at ht (us @ vs)" "apply_list f (items (iview (bheap ht)) vs) s = (kept, gone, s')"
  shows "\<exists>ht' ps. apply_loop pListNext (\<lambda>k. f (hash_key_of k)) (hd_or None vs) ht s = Some (ht', s') \<and>
     hash_inv_at ht' ps \<and> ht_items ht' = items (iview (bheap ht)) us @ kept \<and> traversed gone ht ht'"
  using assms
proof (induction vs arbitrary: us ht s kept gone)
  case Nil
  then show ?case
    using hash_inv_atD(2) [OF Nil(1)]
    by (subst apply_loop.simps) (auto simp: items_Nil traversed_def)
next
  case (Cons a vs)
  note D = hash_inv_atD [OF Cons.prems(1)]
  obtain b where b: "bheap ht a = Some b" "pListNext b = hd_or None vs"
    using list_inv_at [OF hash_structD(1) [OF D(1)]] by (auto simp: lview_def)
  obtain r v s1 where f: "f (bkey (binfo_of b)) (stored (pData b)) s = (r, v, s1)"
    by (metis prod_cases3)
  let ?rem = "r AND ZEND_HASH_APPLY_REMOVE \<noteq> 0" and ?stop = "r AND ZEND_HASH_APPLY_STOP \<noteq> 0"
  obtain ht1 ht2 where S: "wr a (\<lambda>b. b\<lparr>pData := set_stored v (pData b)\<rparr>) ht = Some ht1"
    "(if ?rem then zend_hash_bucket_delete a ht1 else Some ht1) = Some ht2"
    "hash_inv_at ht2 (us @ (if ?rem then [] else [a]) @ vs)"
    "items (iview (bheap ht2)) us = items (iview (bheap ht)) us"
    "items (iview (bheap ht2)) vs = items (iview (bheap ht)) vs"
    "?rem \<or> items (iview (bheap ht2)) [a] = [(bkey (binfo_of b), v)]"
    "traversed (if ?rem then [v] else []) ht ht2"
    by (rule apply_step [OF Cons.prems(1) b(1)])
  let ?us = "us @ (if ?rem then [] else [a])"
  have us: "items (iview (bheap ht2)) ?us
      = items (iview (bheap ht)) us @ (if ?rem then [] else [(bkey (binfo_of b), v)])"
    using S(4,6) by (auto simp: items_append items_Nil)
  have step: "apply_loop pListNext (\<lambda>k. f (hash_key_of k)) (hd_or None (a # vs)) ht s =
     (if ?stop then Some (ht2, s1) else apply_loop pListNext (\<lambda>k. f (hash_key_of k)) (hd_or None vs) ht2 s1)"
    using S(1,2) by (subst apply_loop.simps) (simp add: b f hash_key_of_bucket)
  have inv2: "hash_inv_at ht2 (?us @ vs)" using S(3) by simp
  have ys: "items (iview (bheap ht)) (a # vs) = (bkey (binfo_of b), stored (pData b)) # items (iview (bheap ht)) vs"
    using b by (simp add: items_Cons heap_simps)
  show ?case
  proof (cases ?stop)
    case True
    with Cons.prems(2) f have "kept = (if ?rem then [] else [(bkey (binfo_of b), v)]) @ items (iview (bheap ht)) vs"
      "gone = (if ?rem then [v] else [])" "s' = s1"
      by (auto simp: ys split: if_splits)
    with True step inv2 S(5,7) us hash_inv_atD(2) [OF inv2] show ?thesis
      by (auto simp: items_append)
  next
    case False
    obtain kept' gone' where R: "apply_list f (items (iview (bheap ht)) vs) s1 = (kept', gone', s')"
      "kept = (if ?rem then [] else [(bkey (binfo_of b), v)]) @ kept'"
      "gone = (if ?rem then [v] else []) @ gone'"
      using Cons.prems(2) f False
      by (cases "apply_list f (items (iview (bheap ht)) vs) s1") (auto simp: ys split: if_splits)
    from Cons.IH [OF inv2, of s1 kept' gone'] R(1) S(5) obtain ht' ps where
      "apply_loop pListNext (\<lambda>k. f (hash_key_of k)) (hd_or None vs) ht2 s1 = Some (ht', s')"
      "hash_inv_at ht' ps" "ht_items ht' = items (iview (bheap ht2)) ?us @ kept'" "traversed gone' ht2 ht'"
      by auto
    with False step us R traversed_trans [OF S(7)] show ?thesis by auto
  qed
qed
lemma items_rev: "items I (rev ps) = rev (items I ps)"
  by (simp add: items_def rev_map)

lemma apply_backward:
  assumes "hash_inv_at ht (us @ vs)" "apply_list f (rev (items (iview (bheap ht)) us)) s = (kept, gone, s')"
  shows "\<exists>ht' ps. apply_loop pListLast (\<lambda>k. f (hash_key_of k)) (last_or None us) ht s = Some (ht', s') \<and>
     hash_inv_at ht' ps \<and> ht_items ht' = rev kept @ items (iview (bheap ht)) vs \<and> traversed gone ht ht'"
  using assms
proof (induction us arbitrary: vs ht s kept gone rule: rev_induct)
  case Nil
  then show ?case
    using hash_inv_atD(2) [OF Nil(1)]
    by (subst apply_loop.simps) (auto simp: items_Nil traversed_def)
next
  case (snoc a us)
  have inv: "hash_inv_at ht (us @ a # vs)" using snoc.prems(1) by simp
  note D = hash_inv_atD [OF inv]
  obtain b where b: "bheap ht a = Some b" "pListLast b = last_or None us"
    using list_inv_at [OF hash_structD(1) [OF D(1)]] by (auto simp: lview_def)
  obtain r v s1 where f: "f (bkey (binfo_of b)) (stored (pData b)) s = (r, v, s1)"
    by (metis prod_cases3)
  let ?rem = "r AND ZEND_HASH_APPLY_REMOVE \<noteq> 0" and ?stop = "r AND ZEND_HASH_APPLY_STOP \<noteq> 0"
  obtain ht1 ht2 where S: "wr a (\<lambda>b. b\<lparr>pData := set_stored v (pData b)\<rparr>) ht = Some ht1"
    "(if ?rem then zend_hash_bucket_delete a ht1 else Some ht1) = Some ht2"
    "hash_inv_at ht2 (us @ (if ?rem then [] else [a]) @ vs)"
    "items (iview (bheap ht2)) us = items (iview (bheap ht)) us"
    "items (iview (bheap ht2)) vs = items (iview (bheap ht)) vs"
    "?rem \<or> items (iview (bheap ht2)) [a] = [(bkey (binfo_of b), v)]"
    "traversed (if ?rem then [v] else []) ht ht2"
    by (rule apply_step [OF inv b(1)])
  let ?vs = "(if ?rem then [] else [a]) @ vs"
  have vs: "items (iview (bheap ht2)) ?vs
      = (if ?rem then [] else [(bkey (binfo_of b), v)]) @ items (iview (bheap ht)) vs"
    using S(5,6) by (auto simp: items_append items_Nil)
  have step: "apply_loop pListLast (\<lambda>k. f (hash_key_of k)) (last_or None (us @ [a])) ht s =
     (if ?stop then Some (ht2, s1) else apply_loop pListLast (\<lambda>k. f (hash_key_of k)) (last_or None us) ht2 s1)"
    using S(1,2) by (subst apply_loop.simps) (simp add: b f hash_key_of_bucket)
  note inv2 = S(3)
  have ys: "rev (items (iview (bheap ht)) (us @ [a]))
      = (bkey (binfo_of b), stored (pData b)) # rev (items (iview (bheap ht)) us)"
    using b by (simp add: items_append items_Cons items_Nil heap_simps)
  show ?case
  proof (cases ?stop)
    case True
    with snoc.prems(2) f have "rev kept = items (iview (bheap ht)) us @ (if ?rem then [] else [(bkey (binfo_of b), v)])"
      "gone = (if ?rem then [v] else [])" "s' = s1"
      by (auto simp: ys split: if_splits)
    with True step inv2 S(4,7) vs hash_inv_atD(2) [OF inv2] show ?thesis
      by (auto simp: items_append)
  next
    case False
    obtain kept' gone' where R: "apply_list f (rev (items (iview (bheap ht)) us)) s1 = (kept', gone', s')"
      "kept = (if ?rem then [] else [(bkey (binfo_of b), v)]) @ kept'"
      "gone = (if ?rem then [v] else []) @ gone'"
      using snoc.prems(2) f False
      by (cases "apply_list f (rev (items (iview (bheap ht)) us)) s1") (auto simp: ys split: if_splits)
    from snoc.IH [OF inv2, of s1 kept' gone'] R(1) S(4) obtain ht' ps where
      "apply_loop pListLast (\<lambda>k. f (hash_key_of k)) (last_or None us) ht2 s1 = Some (ht', s')"
      "hash_inv_at ht' ps" "ht_items ht' = rev kept' @ items (iview (bheap ht2)) ?vs" "traversed gone' ht2 ht'"
      by auto
    with False step vs R traversed_trans [OF S(7)] show ?thesis by auto
  qed
qed

text \<open>The recursion counter around a traversal.\<close>

definition apply_allowed :: "'v HashTable \<Rightarrow> bool" where
  "apply_allowed ht \<longleftrightarrow> bApplyProtection ht \<longrightarrow> nApplyCount ht < 3"

definition apply_spec ::
    "(hkey \<Rightarrow> ('v, 's) apply_func) \<Rightarrow> bool \<Rightarrow> 'v HashTable \<Rightarrow> 's \<Rightarrow>
     ('v HashTable + 'v HashTable \<times> 's) option \<Rightarrow> bool" where
  "apply_spec f backwards ht s res \<longleftrightarrow>
     (if apply_allowed ht
      then let dir = (if backwards then rev else id); (kept, gone, s') = apply_list f (dir (ht_items ht)) s
           in \<exists>ht'. res = Some (Inr (ht', s')) \<and> hash_inv ht' \<and> ht_items ht' = dir kept \<and> traversed gone ht ht'
      else res = Some (Inl (ht\<lparr>nApplyCount := nApplyCount ht + 1\<rparr>)))"

lemma protect_inv:
  fixes ht :: "'v HashTable"
  defines "ht0 \<equiv> (if bApplyProtection ht then ht\<lparr>nApplyCount := nApplyCount ht + 1\<rparr> else ht)"
  shows "apply_allowed ht \<Longrightarrow> HASH_PROTECT_RECURSION ht = Inr ht0"
    "hash_inv_at ht0 ps = hash_inv_at ht ps" "ht_items ht0 = ht_items ht"
    "traversed gone ht0 ht' \<Longrightarrow> traversed gone ht (HASH_UNPROTECT_RECURSION ht')"
  by (auto simp: ht0_def HASH_PROTECT_RECURSION_def HASH_UNPROTECT_RECURSION_def apply_allowed_def Let_def
        hash_inv_at_def ht_items_def traversed_def not_less)

lemma unprotect_inv:
  "hash_inv_at (HASH_UNPROTECT_RECURSION ht) ps = hash_inv_at ht ps"
  "ht_items (HASH_UNPROTECT_RECURSION ht) = ht_items ht"
  by (simp_all add: HASH_UNPROTECT_RECURSION_def hash_inv_at_def ht_items_def)

lemma protect_refused: "\<not> apply_allowed ht \<Longrightarrow>
   HASH_PROTECT_RECURSION ht = Inl (ht\<lparr>nApplyCount := nApplyCount ht + 1\<rparr>)"
  by (auto simp: HASH_PROTECT_RECURSION_def apply_allowed_def Let_def)

lemma apply_protected_spec:
  assumes inv: "hash_inv ht"
    and body: "\<And>ht ps kept gone s'. hash_inv_at ht ps \<Longrightarrow>
       apply_list f ((if back then rev else id) (ht_items ht)) s = (kept, gone, s') \<Longrightarrow>
       \<exists>ht' ps'. body ht = Some (ht', s') \<and> hash_inv_at ht' ps' \<and>
          ht_items ht' = (if back then rev else id) kept \<and> traversed gone ht ht'"
  shows "apply_spec f back ht s (apply_protected body ht)"
proof (cases "apply_allowed ht")
  case False
  then show ?thesis by (simp add: apply_spec_def apply_protected_def protect_refused)
next
  case True
  obtain ps where inv: "hash_inv_at ht ps" using inv by (auto simp: hash_inv_def)
  define ht0 where "ht0 = (if bApplyProtection ht then ht\<lparr>nApplyCount := nApplyCount ht + 1\<rparr> else ht)"
  note P = protect_inv [where ht = ht, folded ht0_def]
  have inv0: "hash_inv_at ht0 ps" using inv P(2) by simp
  obtain kept gone s' where L: "apply_list f ((if back then rev else id) (ht_items ht)) s = (kept, gone, s')"
    by (metis prod_cases3)
  from body [OF inv0] L P(3) obtain ht' ps' where B: "body ht0 = Some (ht', s')" "hash_inv_at ht' ps'"
    "ht_items ht' = (if back then rev else id) kept" "traversed gone ht0 ht'"
    by metis
  have "apply_protected body ht = Some (Inr (HASH_UNPROTECT_RECURSION ht', s'))"
    using P(1) [OF True] B(1) by (simp add: apply_protected_def)
  moreover have "hash_inv (HASH_UNPROTECT_RECURSION ht')" "traversed gone ht (HASH_UNPROTECT_RECURSION ht')"
    using B(2,4) P(4) by (auto simp: hash_inv_def unprotect_inv)
  ultimately show ?thesis using True L B(3) by (simp add: apply_spec_def Let_def unprotect_inv)
qed

lemma forward_spec:
  assumes "hash_inv ht"
  shows "apply_spec f False ht s
     (apply_protected (\<lambda>ht. apply_loop pListNext (\<lambda>k. f (hash_key_of k)) (pListHead ht) ht s) ht)"
proof (rule apply_protected_spec [OF assms])
  fix ht ps kept gone s'
  assume inv: "hash_inv_at ht ps" and l: "apply_list f ((if False then rev else id) (ht_items ht)) s = (kept, gone, s')"
  from apply_forward [of ht "[]" ps f s kept gone s'] inv l hash_inv_atD(2) [OF inv] head_tail(1) [OF inv]
  show "\<exists>ht' ps'. apply_loop pListNext (\<lambda>k. f (hash_key_of k)) (pListHead ht) ht s = Some (ht', s') \<and>
     hash_inv_at ht' ps' \<and> ht_items ht' = (if False then rev else id) kept \<and> traversed gone ht ht'"
    by (simp add: items_Nil)
qed

lemma backward_spec:
  assumes "hash_inv ht"
  shows "apply_spec f True ht s
     (apply_protected (\<lambda>ht. apply_loop pListLast (\<lambda>k. f (hash_key_of k)) (pListTail ht) ht s) ht)"
proof (rule apply_protected_spec [OF assms])
  fix ht ps kept gone s'
  assume inv: "hash_inv_at ht ps" and l: "apply_list f ((if True then rev else id) (ht_items ht)) s = (kept, gone, s')"
  from apply_backward [of ht ps "[]" f s kept gone s'] inv l hash_inv_atD(2) [OF inv] head_tail(2) [OF inv]
  show "\<exists>ht' ps'. apply_loop pListLast (\<lambda>k. f (hash_key_of k)) (pListTail ht) ht s = Some (ht', s') \<and>
     hash_inv_at ht' ps' \<and> ht_items ht' = (if True then rev else id) kept \<and> traversed gone ht ht'"
    by (simp add: items_Nil)
qed

end
