(* ===== verification/Zend_Hash_Copy.thy ===== *)
theory Zend_Hash_Copy
  imports Zend_Hash_Ops Zend_Hash_Iter
begin

text \<open>
  Copying and merging tables (\<open>zend_hash_copy\<close>, \<open>zend_hash_merge\<close>,
  \<open>zend_hash_merge_ex\<close>) and positions in a table: saved pointers, the internal pointer
  and external \<open>HashPosition\<close> variables. Source and target are different tables with heaps
  of their own. A copy constructor is a function on the element it is given a pointer to.
\<close>

unbundle bit_operations_syntax

subsection \<open>Copying and merging\<close>

text \<open>\<^verbatim>\<open>if (pCopyConstructor) pCopyConstructor(new_entry)\<close>\<close>

definition construct :: "('v \<Rightarrow> 'v) option \<Rightarrow> ptr \<Rightarrow> 'v HashTable \<Rightarrow> 'v HashTable option" where
  "construct ctor p ht =
     (case ctor of None \<Rightarrow> Some ht
      | Some f \<Rightarrow> (case p of None \<Rightarrow> None
                   | Some a \<Rightarrow> wr a (\<lambda>b. b\<lparr>pData := set_stored (f (stored (pData b))) (pData b)\<rparr>) ht))"

partial_function (option) copy_loop ::
    "('v \<Rightarrow> 'v) option \<Rightarrow> uint \<Rightarrow> bool \<Rightarrow> 'v HashTable \<Rightarrow> ptr \<Rightarrow> 'v HashTable \<Rightarrow> 'v HashTable option" where
  "copy_loop ctor sz setTargetPointer source p target =
     (case p of None \<Rightarrow> Some target
      | Some a \<Rightarrow> do {
          b \<leftarrow> bheap source a;
          let target = (if setTargetPointer \<and> pInternalPointer source = Some a
                        then target\<lparr>pInternalPointer := None\<rparr> else target);
          (r, new_entry, target) \<leftarrow>
            (if nKeyLength b \<noteq> 0
             then zend_hash_quick_add_or_update (arKey b) (nKeyLength b) (bkt_h b) (stored (pData b)) sz
                    HASH_UPDATE target
             else zend_hash_index_update (bkt_h b) (stored (pData b)) sz target);
          target \<leftarrow> construct ctor new_entry target;
          copy_loop ctor sz setTargetPointer source (pListNext b) target })"

declare copy_loop.simps [code]

definition zend_hash_copy ::
    "('v \<Rightarrow> 'v) option \<Rightarrow> uint \<Rightarrow> 'v HashTable \<Rightarrow> 'v HashTable \<Rightarrow> 'v HashTable option" where
  "zend_hash_copy ctor sz target source = do {
     target \<leftarrow> copy_loop ctor sz (pInternalPointer target = None) source (pListHead source) target;
     Some (if pInternalPointer target = None then target\<lparr>pInternalPointer := pListHead target\<rparr> else target) }"

partial_function (option) merge_loop ::
    "('v \<Rightarrow> 'v) option \<Rightarrow> uint \<Rightarrow> uint \<Rightarrow> 'v HashTable \<Rightarrow> ptr \<Rightarrow> 'v HashTable \<Rightarrow> 'v HashTable option" where
  "merge_loop ctor sz mode source p target =
     (case p of None \<Rightarrow> Some target
      | Some a \<Rightarrow> do {
          b \<leftarrow> bheap source a;
          target \<leftarrow>
            (if nKeyLength b > 0 then do {
               (r, t, target) \<leftarrow> zend_hash_quick_add_or_update (arKey b) (nKeyLength b) (bkt_h b)
                                    (stored (pData b)) sz mode target;
               if r = SUCCESS then construct ctor t target else Some target }
             else do {
               there \<leftarrow> zend_hash_index_exists (bkt_h b) target;
               if mode = HASH_UPDATE \<or> \<not> there then do {
                 (r, t, target) \<leftarrow> zend_hash_index_update (bkt_h b) (stored (pData b)) sz target;
                 if r = SUCCESS then construct ctor t target else Some target }
               else Some target });
          merge_loop ctor sz mode source (pListNext b) target })"

declare merge_loop.simps [code]

definition zend_hash_merge ::
    "('v \<Rightarrow> 'v) option \<Rightarrow> uint \<Rightarrow> bool \<Rightarrow> 'v HashTable \<Rightarrow> 'v HashTable \<Rightarrow> 'v HashTable option" where
  "zend_hash_merge ctor sz overwrite target source = do {
     target \<leftarrow> merge_loop ctor sz (if overwrite then HASH_UPDATE else HASH_ADD) source (pListHead source) target;
     Some (target\<lparr>pInternalPointer := pListHead target\<rparr>) }"

type_synonym ('v, 'p) merge_checker = "'v HashTable \<Rightarrow> 'v \<Rightarrow> zend_hash_key \<Rightarrow> 'p \<Rightarrow> bool"

definition zend_hash_replace_checker_wrapper ::
    "'v HashTable \<Rightarrow> 'v \<Rightarrow> 'v Bucket \<Rightarrow> 'p \<Rightarrow> ('v, 'p) merge_checker \<Rightarrow> bool" where
  "zend_hash_replace_checker_wrapper target source_data p pParam merge_checker_func =
     merge_checker_func target source_data
       \<lparr>hk_arKey = arKey p, hk_nKeyLength = nKeyLength p, hk_h = bkt_h p\<rparr> pParam"

partial_function (option) merge_ex_loop ::
    "('v \<Rightarrow> 'v) option \<Rightarrow> uint \<Rightarrow> ('v, 'p) merge_checker \<Rightarrow> 'p \<Rightarrow> 'v HashTable \<Rightarrow> ptr \<Rightarrow> 'v HashTable \<Rightarrow>
     'v HashTable option" where
  "merge_ex_loop ctor sz pMergeSource pParam source p target =
     (case p of None \<Rightarrow> Some target
      | Some a \<Rightarrow> do {
          b \<leftarrow> bheap source a;
          target \<leftarrow>
            (if zend_hash_replace_checker_wrapper target (stored (pData b)) b pParam pMergeSource then do {
               (r, t, target) \<leftarrow> zend_hash_quick_add_or_update (arKey b) (nKeyLength b) (bkt_h b)
                                    (stored (pData b)) sz HASH_UPDATE target;
               if r = SUCCESS then construct ctor t target else Some target }
             else Some target);
          merge_ex_loop ctor sz pMergeSource pParam source (pListNext b) target })"

declare merge_ex_loop.simps [code]

definition zend_hash_merge_ex ::
    "('v \<Rightarrow> 'v) option \<Rightarrow> uint \<Rightarrow> ('v, 'p) merge_checker \<Rightarrow> 'p \<Rightarrow> 'v HashTable \<Rightarrow> 'v HashTable \<Rightarrow>
     'v HashTable option" where
  "zend_hash_merge_ex ctor sz pMergeSource pParam target source = do {
     target \<leftarrow> merge_ex_loop ctor sz pMergeSource pParam source (pListHead source) target;
     Some (target\<lparr>pInternalPointer := pListHead target\<rparr>) }"

subsection \<open>Positions\<close>

record HashPointer =
  hp_pos :: ptr
  hp_h :: ulong

definition zend_hash_get_pointer :: "'v HashTable \<Rightarrow> (HashPointer \<times> bool) option" where
  "zend_hash_get_pointer ht =
     (case pInternalPointer ht of
        Some a \<Rightarrow> do { b \<leftarrow> bheap ht a; Some (\<lparr>hp_pos = Some a, hp_h = bkt_h b\<rparr>, True) }
      | None \<Rightarrow> Some (\<lparr>hp_pos = None, hp_h = 0\<rparr>, False))"

text \<open>The search of \<open>zend_hash_set_pointer\<close> for the saved bucket in the chain of the saved hash.\<close>

partial_function (option) pointer_search :: "'v Bucket heap \<Rightarrow> nat \<Rightarrow> ptr \<Rightarrow> bool option" where
  "pointer_search m pos p =
     (case p of None \<Rightarrow> Some False
      | Some a \<Rightarrow> if a = pos then Some True else do { b \<leftarrow> m a; pointer_search m pos (pNext b) })"

declare pointer_search.simps [code]

definition zend_hash_set_pointer :: "HashPointer \<Rightarrow> 'v HashTable \<Rightarrow> (bool \<times> 'v HashTable) option" where
  "zend_hash_set_pointer hp ht =
     (case hp_pos hp of
        None \<Rightarrow> Some (True, ht\<lparr>pInternalPointer := None\<rparr>)
      | Some pos \<Rightarrow>
          if pInternalPointer ht \<noteq> Some pos then do {
            p \<leftarrow> rd_slot (nIndex (hp_h hp) ht) ht;
            hit \<leftarrow> pointer_search (bheap ht) pos p;
            if hit then Some (True, ht\<lparr>pInternalPointer := Some pos\<rparr>) else Some (False, ht) }
          else Some (True, ht))"

text \<open>
  A \<open>HashPosition *\<close> argument: \<open>None\<close> is a null argument (the internal pointer is
  meant), \<open>Some p\<close> an external position variable that holds \<open>p\<close>.
\<close>

type_synonym hpos = "ptr option"

definition cur_pos :: "hpos \<Rightarrow> 'v HashTable \<Rightarrow> ptr" where
  "cur_pos pos ht = (case pos of Some p \<Rightarrow> p | None \<Rightarrow> pInternalPointer ht)"

definition set_pos :: "ptr \<Rightarrow> hpos \<Rightarrow> 'v HashTable \<Rightarrow> hpos \<times> 'v HashTable" where
  "set_pos p pos ht = (case pos of Some _ \<Rightarrow> (Some p, ht) | None \<Rightarrow> (None, ht\<lparr>pInternalPointer := p\<rparr>))"

definition zend_hash_internal_pointer_reset_ex :: "hpos \<Rightarrow> 'v HashTable \<Rightarrow> hpos \<times> 'v HashTable" where
  "zend_hash_internal_pointer_reset_ex pos ht = set_pos (pListHead ht) pos ht"

definition zend_hash_internal_pointer_end_ex :: "hpos \<Rightarrow> 'v HashTable \<Rightarrow> hpos \<times> 'v HashTable" where
  "zend_hash_internal_pointer_end_ex pos ht = set_pos (pListTail ht) pos ht"

definition zend_hash_move_forward_ex :: "hpos \<Rightarrow> 'v HashTable \<Rightarrow> (zresult \<times> hpos \<times> 'v HashTable) option" where
  "zend_hash_move_forward_ex pos ht =
     (case cur_pos pos ht of
        Some a \<Rightarrow> do { b \<leftarrow> bheap ht a; Some (SUCCESS, set_pos (pListNext b) pos ht) }
      | None \<Rightarrow> Some (FAILURE, pos, ht))"

definition zend_hash_move_backwards_ex :: "hpos \<Rightarrow> 'v HashTable \<Rightarrow> (zresult \<times> hpos \<times> 'v HashTable) option" where
  "zend_hash_move_backwards_ex pos ht =
     (case cur_pos pos ht of
        Some a \<Rightarrow> do { b \<leftarrow> bheap ht a; Some (SUCCESS, set_pos (pListLast b) pos ht) }
      | None \<Rightarrow> Some (FAILURE, pos, ht))"

text \<open>
  The answer of the key queries; the string comes as the bucket's own pointer or as a fresh
  copy without the terminating byte.
\<close>

datatype current_key = HASH_KEY_IS_STRING charptr uint | HASH_KEY_IS_LONG ulong | HASH_KEY_NON_EXISTENT

definition estrndup :: "charptr \<Rightarrow> uint \<Rightarrow> charptr" where
  "estrndup s n = CPrivate (take (unat n) (chars s))"

definition zend_hash_get_current_key_ex :: "bool \<Rightarrow> hpos \<Rightarrow> 'v HashTable \<Rightarrow> current_key option" where
  "zend_hash_get_current_key_ex duplicate pos ht =
     (case cur_pos pos ht of
        Some a \<Rightarrow> do {
          b \<leftarrow> bheap ht a;
          Some (if nKeyLength b \<noteq> 0
                then HASH_KEY_IS_STRING (if duplicate then estrndup (arKey b) (nKeyLength b - 1) else arKey b)
                       (nKeyLength b)
                else HASH_KEY_IS_LONG (bkt_h b)) }
      | None \<Rightarrow> Some HASH_KEY_NON_EXISTENT)"

datatype key_zval = ZNull | ZString charptr uint | ZLong ulong

definition zend_hash_get_current_key_zval_ex :: "hpos \<Rightarrow> 'v HashTable \<Rightarrow> key_zval option" where
  "zend_hash_get_current_key_zval_ex pos ht =
     (case cur_pos pos ht of
        None \<Rightarrow> Some ZNull
      | Some a \<Rightarrow> do {
          b \<leftarrow> bheap ht a;
          Some (if nKeyLength b \<noteq> 0
                then ZString (if IS_INTERNED (arKey b) then arKey b else estrndup (arKey b) (nKeyLength b - 1))
                       (nKeyLength b - 1)
                else ZLong (bkt_h b)) })"

datatype key_type = KEY_STRING | KEY_LONG | KEY_NON_EXISTENT

definition zend_hash_get_current_key_type_ex :: "hpos \<Rightarrow> 'v HashTable \<Rightarrow> key_type option" where
  "zend_hash_get_current_key_type_ex pos ht =
     (case cur_pos pos ht of
        Some a \<Rightarrow> do { b \<leftarrow> bheap ht a; Some (if nKeyLength b \<noteq> 0 then KEY_STRING else KEY_LONG) }
      | None \<Rightarrow> Some KEY_NON_EXISTENT)"

definition zend_hash_has_more_elements_ex :: "hpos \<Rightarrow> 'v HashTable \<Rightarrow> zresult option" where
  "zend_hash_has_more_elements_ex pos ht =
     do { t \<leftarrow> zend_hash_get_current_key_type_ex pos ht; Some (if t = KEY_NON_EXISTENT then FAILURE else SUCCESS) }"

definition zend_hash_get_current_data_ex :: "hpos \<Rightarrow> 'v HashTable \<Rightarrow> 'v option option" where
  "zend_hash_get_current_data_ex pos ht = data_at (cur_pos pos ht) ht"

subsection \<open>The internal pointer\<close>

lemma set_internal_inv:
  assumes "hash_inv_at ht ps" "\<And>a. p = Some a \<Longrightarrow> a \<in> set ps"
  shows "hash_inv_at (ht\<lparr>pInternalPointer := p\<rparr>) ps" "ht_items (ht\<lparr>pInternalPointer := p\<rparr>) = ht_items ht"
  using assms by (auto simp: hash_inv_at_def hash_struct_def heap_struct_def table_ok_def ht_items_def)

lemma clear_internal_inv:
  assumes "hash_inv ht"
  shows "hash_inv (ht\<lparr>pInternalPointer := None\<rparr>)" "ht_items (ht\<lparr>pInternalPointer := None\<rparr>) = ht_items ht"
    "ht_cursor (ht\<lparr>pInternalPointer := None\<rparr>) = None"
  using assms set_internal_inv [of ht _ None] by (auto simp: hash_inv_def ht_cursor_def ht_items_def)

text \<open>Putting the internal pointer at the head.\<close>

definition first_key :: "(hkey \<times> 'v) list \<Rightarrow> hkey option" where
  "first_key xs = (case xs of [] \<Rightarrow> None | x # _ \<Rightarrow> Some (fst x))"

lemma head_internal_inv:
  assumes "hash_inv ht"
  shows "hash_inv (ht\<lparr>pInternalPointer := pListHead ht\<rparr>)"
    "ht_items (ht\<lparr>pInternalPointer := pListHead ht\<rparr>) = ht_items ht"
    "ht_cursor (ht\<lparr>pInternalPointer := pListHead ht\<rparr>) = first_key (ht_items ht)"
proof -
  obtain ps where inv: "hash_inv_at ht ps" using assms by (auto simp: hash_inv_def)
  note h = head_tail(1) [OF inv]
  have I: "hash_inv_at (ht\<lparr>pInternalPointer := pListHead ht\<rparr>) ps"
    by (rule set_internal_inv [OF inv]) (use h hd_or_in in auto)
  then show "hash_inv (ht\<lparr>pInternalPointer := pListHead ht\<rparr>)" by (auto simp: hash_inv_def)
  show it: "ht_items (ht\<lparr>pInternalPointer := pListHead ht\<rparr>) = ht_items ht" by (simp add: ht_items_def)
  show "ht_cursor (ht\<lparr>pInternalPointer := pListHead ht\<rparr>) = first_key (ht_items ht)"
  proof (cases ps)
    case Nil
    then show ?thesis using h hash_inv_atD(2) [OF inv] by (simp add: ht_cursor_def items_Nil first_key_def)
  next
    case (Cons a qs)
    then have "pInternalPointer (ht\<lparr>pInternalPointer := pListHead ht\<rparr>) = Some a" using h by simp
    from cursor_at [OF hash_inv_atD(1) [OF I] this] show ?thesis
      using Cons hash_inv_atD(2) [OF inv] by (simp add: items_Cons first_key_def)
  qed
qed

lemma cursor_internal: "hash_inv ht \<Longrightarrow> ht_cursor ht = None \<longleftrightarrow> pInternalPointer ht = None"
  using cursor_None_iff hash_inv_atD(1) by (auto simp: hash_inv_def)

subsection \<open>One element\<close>

definition ctor_fun :: "('v \<Rightarrow> 'v) option \<Rightarrow> 'v \<Rightarrow> 'v" where
  "ctor_fun ctor = (case ctor of None \<Rightarrow> id | Some f \<Rightarrow> f)"

lemma construct_inv:
  assumes inv: "hash_inv ht" and e: "entry_at a ht = Some (k, v)"
  obtains ht' where "construct ctor (Some a) ht = Some ht'" "hash_inv ht'"
    "ht_items ht' = AList.update k (ctor_fun ctor v) (ht_items ht)" "ht_cursor ht' = ht_cursor ht"
    "same_meta ht ht'"
proof -
  obtain ps where inv: "hash_inv_at ht ps" using inv by (auto simp: hash_inv_def)
  obtain b where b: "bheap ht a = Some b" "bkey (binfo_of b) = k" "stored (pData b) = v"
    using e by (auto simp: entry_at_def split: option.splits)
  have a: "a \<in> set ps" using hash_inv_atD(4) [OF inv b(1)] by simp
  obtain us vs where sp: "ps = us @ a # vs"
    "ht_items ht = items (iview (bheap ht)) us @ (k, v) # items (iview (bheap ht)) vs"
    "k \<notin> fst ` set (items (iview (bheap ht)) us)"
    by (rule split_at_bucket [OF inv a]) (use b in auto)
  show thesis
  proof (cases ctor)
    case None
    with inv sp show thesis
      by (intro that [of ht])
         (auto simp: construct_def ctor_fun_def hash_inv_def same_meta_def update_split)
  next
    case (Some f)
    have notin: "a \<notin> set us" "a \<notin> set vs" using hash_inv_atD(3) [OF inv] sp(1) by auto
    let ?d = "set_stored (f v) (pData b)"
    obtain ht' where W: "wr a (\<lambda>b. b\<lparr>pData := ?d\<rparr>) ht = Some ht'" "hash_inv_at ht' (us @ a # vs)"
      "iview (bheap ht') = (iview (bheap ht))(a \<mapsto> (bkt_h b, nKeyLength b, arKey b, ?d))"
      "same_meta ht ht'" "ht_cursor ht' = ht_cursor ht"
      by (rule set_data_inv [OF inv [unfolded sp(1)] b(1)])
    have "ht_items ht' = AList.update k (f v) (ht_items ht)"
      using hash_inv_atD(2) [OF W(2)] sp notin b(2)
      by (simp add: W(3) items_append items_Cons items_upd_notin update_split) (auto simp: binfo_of_def)
    moreover have "construct ctor (Some a) ht = Some ht'"
      using W(1) b by (simp add: construct_def Some wr_def)
    ultimately show thesis
      using W that by (auto simp: ctor_fun_def Some hash_inv_def)
  qed
qed

lemma bucket_key_arg:
  assumes "info_ok (binfo_of b)" "nKeyLength b \<noteq> 0"
  shows "key_arg (arKey b) (nKeyLength b)" "bkt_h b = djb (chars (arKey b))"
    "bkey (binfo_of b) = StrKey (chars (arKey b))"
  using info_ok_str [OF assms] assms(2) by (auto simp: bkey_info_str take_all_chars)

text \<open>Storing a bucket of another table under its key, as \<open>zend_hash_copy\<close> does.\<close>

lemma store_bucket:
  assumes inv: "hash_inv t" and ok: "info_ok (binfo_of b)"
  shows "store_spec (bkey (binfo_of b)) v False t
     (if nKeyLength b \<noteq> 0
      then zend_hash_quick_add_or_update (arKey b) (nKeyLength b) (bkt_h b) v sz HASH_UPDATE t
      else zend_hash_index_update (bkt_h b) v sz t)"
proof (cases "nKeyLength b = 0")
  case True
  then show ?thesis using store_specs(3) [OF inv, of "bkt_h b" v sz] by (simp add: binfo_of_def)
next
  case False
  have "HASH_UPDATE AND HASH_ADD = 0" by (simp add: HASH_UPDATE_def HASH_ADD_def)
  with False bucket_key_arg [OF ok False] show ?thesis
    using quick_spec [OF inv, of "arKey b" "nKeyLength b" v HASH_UPDATE sz] by simp
qed

lemma update_update: "AList.update k w (AList.update k v xs) = AList.update k w xs"
  by (induction xs) auto

lemma store_bucket_construct:
  assumes inv: "hash_inv t" and ok: "info_ok (binfo_of b)" and room: "room t"
  obtains a t1 t2 where
     "(if nKeyLength b \<noteq> 0
       then zend_hash_quick_add_or_update (arKey b) (nKeyLength b) (bkt_h b) v sz HASH_UPDATE t
       else zend_hash_index_update (bkt_h b) v sz t) = Some (SUCCESS, Some a, t1)"
     "construct ctor (Some a) t1 = Some t2" "hash_inv t2"
     "ht_items t2 = AList.update (bkey (binfo_of b)) (ctor_fun ctor v) (ht_items t)"
     "ht_cursor t2 = (if ht_cursor t = None \<and> bkey (binfo_of b) \<notin> fst ` set (ht_items t)
                      then Some (bkey (binfo_of b)) else ht_cursor t)"
proof -
  let ?k = "bkey (binfo_of b)"
  obtain a t1 where S: "(if nKeyLength b \<noteq> 0
       then zend_hash_quick_add_or_update (arKey b) (nKeyLength b) (bkt_h b) v sz HASH_UPDATE t
       else zend_hash_index_update (bkt_h b) v sz t) = Some (SUCCESS, Some a, t1)"
     "hash_inv t1" "stored_as ?k v t t1" "entry_at a t1 = Some (?k, v)"
    using store_bucket [OF inv ok, of v sz] room by (auto simp: store_spec_def)
  obtain t2 where C: "construct ctor (Some a) t1 = Some t2" "hash_inv t2"
    "ht_items t2 = AList.update ?k (ctor_fun ctor v) (ht_items t1)" "ht_cursor t2 = ht_cursor t1"
    by (rule construct_inv [OF S(2,4)])
  show thesis
    by (rule that [OF S(1) C(1,2)])
       (use S(3) C(3,4) in \<open>auto simp: stored_as_def update_update map_of_eq_None_iff\<close>)
qed

subsection \<open>Copying\<close>

text \<open>The effect of copying one element on the list of elements and the cursor.\<close>

definition copy_step ::
    "('v \<Rightarrow> 'v) option \<Rightarrow> hkey option \<Rightarrow> hkey \<times> 'v \<Rightarrow> (hkey \<times> 'v) list \<times> hkey option \<Rightarrow>
     (hkey \<times> 'v) list \<times> hkey option" where
  "copy_step ctor reset kv st =
     (case kv of (k, v) \<Rightarrow> case st of (xs, cur) \<Rightarrow>
       let cur = (if reset = Some k then None else cur)
       in (AList.update k (ctor_fun ctor v) xs, if cur = None \<and> k \<notin> fst ` set xs then Some k else cur))"

lemma length_update_le: "length (AList.update k v xs) \<le> Suc (length xs)"
  by (induction xs) auto

lemma copy_loop_spec:
  assumes "dseg (lview (bheap src)) q ps None" "\<And>a. a \<in> set ps \<Longrightarrow> info_ok (the (iview (bheap src) a))"
    and "hash_inv t" "length (ht_items t) + length ps < 2 ^ 32"
    and "\<And>a. a \<in> set ps \<Longrightarrow> (setp \<and> pInternalPointer src = Some a) = (reset = Some (bkey (the (iview (bheap src) a))))"
  shows "\<exists>t'. copy_loop ctor sz setp src (hd_or None ps) t = Some t' \<and> hash_inv t' \<and>
     (ht_items t', ht_cursor t') =
       fold (copy_step ctor reset) (items (iview (bheap src)) ps) (ht_items t, ht_cursor t)"
  using assms
proof (induction ps arbitrary: q t)
  case Nil
  then show ?case by (subst copy_loop.simps) (simp add: items_Nil)
next
  case (Cons a ps)
  from Cons.prems(1) obtain b where b: "bheap src a = Some b" "pListNext b = hd_or None ps"
    by (auto simp: lview_def)
  have iv: "iview (bheap src) a = Some (binfo_of b)" using b by (simp add: heap_simps)
  have ok: "info_ok (binfo_of b)" using Cons.prems(2) [of a] iv by simp
  let ?hit = "setp \<and> pInternalPointer src = Some a"
  define t0 where "t0 = (if ?hit then t\<lparr>pInternalPointer := None\<rparr> else t)"
  have hit: "?hit = (reset = Some (bkey (binfo_of b)))" using Cons.prems(5) [of a] iv by simp
  have t0: "hash_inv t0" "ht_items t0 = ht_items t" "ht_cursor t0 = (if ?hit then None else ht_cursor t)"
    using Cons.prems(3) clear_internal_inv [of t] by (simp_all add: t0_def)
  have "room t0" using Cons.prems(4) t0(2) by (simp add: room_def)
  from store_bucket_construct [OF t0(1) ok this, where v = "stored (pData b)" and sz = sz and ctor = ctor]
  obtain c t1 t2 where S: "(if nKeyLength b \<noteq> 0
       then zend_hash_quick_add_or_update (arKey b) (nKeyLength b) (bkt_h b) (stored (pData b)) sz HASH_UPDATE t0
       else zend_hash_index_update (bkt_h b) (stored (pData b)) sz t0) = Some (SUCCESS, Some c, t1)"
     "construct ctor (Some c) t1 = Some t2" "hash_inv t2"
     "ht_items t2 = AList.update (bkey (binfo_of b)) (ctor_fun ctor (stored (pData b))) (ht_items t0)"
     "ht_cursor t2 = (if ht_cursor t0 = None \<and> bkey (binfo_of b) \<notin> fst ` set (ht_items t0)
                      then Some (bkey (binfo_of b)) else ht_cursor t0)"
    by blast
  have step: "copy_loop ctor sz setp src (Some a) t = copy_loop ctor sz setp src (hd_or None ps) t2"
    using S(1,2) by (subst copy_loop.simps) (simp add: b Let_def flip: t0_def)
  have st: "(ht_items t2, ht_cursor t2) = copy_step ctor reset (bkey (binfo_of b), stored (pData b)) (ht_items t, ht_cursor t)"
    using S(4,5) t0(2,3) hit by (simp add: copy_step_def Let_def)
  have len: "length (ht_items t2) + length ps < 2 ^ 32"
    using Cons.prems(4) length_update_le [of "bkey (binfo_of b)" "ctor_fun ctor (stored (pData b))" "ht_items t"]
    by (simp add: S(4) t0(2))
  have "\<exists>t'. copy_loop ctor sz setp src (hd_or None ps) t2 = Some t' \<and> hash_inv t' \<and>
     (ht_items t', ht_cursor t') =
       fold (copy_step ctor reset) (items (iview (bheap src)) ps) (ht_items t2, ht_cursor t2)"
    by (rule Cons.IH [of "Some a"]) (use Cons.prems S(3) len in auto)
  then show ?case by (simp add: step st items_Cons iv)
qed

lemma fst_fold_copy_step:
  "fst (fold (copy_step ctor reset) xs st) = fold (\<lambda>(k, v). AList.update k (ctor_fun ctor v)) xs (fst st)"
  by (induction xs arbitrary: st) (auto simp: copy_step_def Let_def split: prod.split)

lemma fold_copy_step_empty:
  "distinct (map fst xs) \<Longrightarrow>
   fold (copy_step ctor reset) xs ([], None) =
     (map (\<lambda>(k, v). (k, ctor_fun ctor v)) xs,
      if reset \<in> Some ` fst ` set xs then reset else first_key xs)"
proof (induction xs rule: rev_induct)
  case Nil
  then show ?case by (simp add: first_key_def)
next
  case (snoc x xs)
  obtain k v where x: "x = (k, v)" by (cases x)
  have keys: "fst ` set (map (\<lambda>(k, v). (k, ctor_fun ctor v)) xs) = fst ` set xs"
    by force
  have "k \<notin> fst ` set xs" "distinct (map fst xs)" using snoc.prems x by auto
  then show ?case
    using snoc.IH keys update_absent [of k "map (\<lambda>(k, v). (k, ctor_fun ctor v)) xs"]
    by (cases xs) (auto simp: x copy_step_def Let_def first_key_def)
qed

lemma hash_inv_seg:
  assumes "hash_inv_at ht ps"
  shows "dseg (lview (bheap ht)) None ps None" "pListHead ht = hd_or None ps"
    "\<And>a. a \<in> set ps \<Longrightarrow> info_ok (the (iview (bheap ht) a))" "length (ht_items ht) = length ps"
    "ht_items ht = items (iview (bheap ht)) ps"
  using assms hash_structD(1) [OF hash_inv_atD(1) [OF assms]] items_length [OF assms] hash_inv_atD(2) [OF assms]
  by (auto simp: list_inv_def hash_inv_at_def)

lemma cursor_key_iff:
  assumes inv: "hash_inv_at ht ps" and a: "a \<in> set ps"
  shows "pInternalPointer ht = Some a \<longleftrightarrow> ht_cursor ht = Some (bkey (the (iview (bheap ht) a)))"
proof
  assume "pInternalPointer ht = Some a"
  then show "ht_cursor ht = Some (bkey (the (iview (bheap ht) a)))"
    using cursor_at [OF hash_inv_atD(1) [OF inv]] by simp
next
  assume c: "ht_cursor ht = Some (bkey (the (iview (bheap ht) a)))"
  then obtain p where p: "pInternalPointer ht = Some p" by (auto simp: ht_cursor_def split: option.splits)
  then have "p \<in> set ps" "bkey (the (iview (bheap ht) p)) = bkey (the (iview (bheap ht) a))"
    using cursor_at [OF hash_inv_atD(1) [OF inv] p] c hash_structD(8) [OF hash_inv_atD(1) [OF inv]] by auto
  moreover have "inj_on (\<lambda>a. bkey (the (iview (bheap ht) a))) (set ps)"
    using hash_inv_atD(2,5) [OF inv] by (simp add: fst_items distinct_map)
  ultimately show "pInternalPointer ht = Some a" using a p by (auto dest: inj_onD)
qed

lemma cursor_in_items:
  assumes inv: "hash_inv_at ht ps" and c: "ht_cursor ht = Some k"
  shows "k \<in> fst ` set (ht_items ht)"
proof -
  obtain p where p: "pInternalPointer ht = Some p" using c by (auto simp: ht_cursor_def split: option.splits)
  note D = hash_inv_atD [OF inv]
  have "p \<in> set ps" "k = bkey (the (iview (bheap ht) p))"
    using hash_structD(8) [OF D(1) p] cursor_at [OF D(1) p] c by auto
  then show ?thesis by (simp add: D(2) items_key_mem) blast
qed

lemma copy_result:
  assumes src: "hash_inv src" and t: "hash_inv t" and len: "length (ht_items t) + length (ht_items src) < 2 ^ 32"
  shows "\<exists>t'. zend_hash_copy ctor sz t src = Some t' \<and> hash_inv t' \<and>
     (\<exists>cur. (ht_items t', cur) = fold (copy_step ctor (if ht_cursor t = None then ht_cursor src else None))
                           (ht_items src) (ht_items t, ht_cursor t) \<and>
        ht_cursor t' = (if cur = None then first_key (ht_items t') else cur))"
proof -
  obtain ps where inv: "hash_inv_at src ps" using src by (auto simp: hash_inv_def)
  note G = hash_inv_seg [OF inv]
  let ?setp = "pInternalPointer t = None" and ?reset = "if ht_cursor t = None then ht_cursor src else None"
  have "(?setp \<and> pInternalPointer src = Some a) = (?reset = Some (bkey (the (iview (bheap src) a))))"
    if "a \<in> set ps" for a
    using cursor_key_iff [OF inv that] cursor_internal [OF t] by auto
  from copy_loop_spec [OF G(1,3) t _ this, where ctor = ctor and sz = sz] len G(4,5)
  obtain t1 where C: "copy_loop ctor sz ?setp src (hd_or None ps) t = Some t1" "hash_inv t1"
    "(ht_items t1, ht_cursor t1) = fold (copy_step ctor ?reset) (ht_items src) (ht_items t, ht_cursor t)"
    by auto
  let ?t' = "if pInternalPointer t1 = None then t1\<lparr>pInternalPointer := pListHead t1\<rparr> else t1"
  have "zend_hash_copy ctor sz t src = Some ?t'"
    using C(1) G(2) by (simp add: zend_hash_copy_def)
  moreover have "hash_inv ?t'" "ht_items ?t' = ht_items t1"
    "ht_cursor ?t' = (if ht_cursor t1 = None then first_key (ht_items t1) else ht_cursor t1)"
    using C(2) head_internal_inv [OF C(2)] cursor_internal [OF C(2)] by simp_all
  ultimately show ?thesis using C(3) by auto
qed

subsection \<open>Merging\<close>

definition merge_step :: "('v \<Rightarrow> 'v) option \<Rightarrow> bool \<Rightarrow> hkey \<times> 'v \<Rightarrow> (hkey \<times> 'v) list \<Rightarrow> (hkey \<times> 'v) list" where
  "merge_step ctor overwrite kv xs =
     (case kv of (k, v) \<Rightarrow>
        if overwrite \<or> k \<notin> fst ` set xs then AList.update k (ctor_fun ctor v) xs else xs)"

lemma add_bucket:
  assumes inv: "hash_inv t" and ok: "info_ok (binfo_of b)" and str: "nKeyLength b \<noteq> 0" and room: "room t"
  shows "\<exists>r p t1 t2. zend_hash_quick_add_or_update (arKey b) (nKeyLength b) (bkt_h b) v sz HASH_ADD t = Some (r, p, t1) \<and>
     (if r = SUCCESS then construct ctor p t1 else Some t1) = Some t2 \<and> hash_inv t2 \<and>
     ht_items t2 = merge_step ctor False (bkey (binfo_of b), v) (ht_items t)"
proof -
  let ?k = "bkey (binfo_of b)"
  have add: "HASH_ADD AND HASH_ADD \<noteq> 0" by (simp add: HASH_ADD_def)
  have S: "store_spec ?k v True t (zend_hash_quick_add_or_update (arKey b) (nKeyLength b) (bkt_h b) v sz HASH_ADD t)"
    using quick_spec [OF inv, of "arKey b" "nKeyLength b" v HASH_ADD sz] bucket_key_arg [OF ok str] add by simp
  show ?thesis
  proof (cases "?k \<in> fst ` set (ht_items t)")
    case True
    obtain ps where "hash_inv_at t ps" using inv by (auto simp: hash_inv_def)
    from check_init_inv [OF this] have "hash_inv (CHECK_INIT t)" "ht_items (CHECK_INIT t) = ht_items t"
      by (auto simp: hash_inv_def)
    with S True show ?thesis by (auto simp: store_spec_def merge_step_def)
  next
    case False
    with S room obtain a t1 where A: "zend_hash_quick_add_or_update (arKey b) (nKeyLength b) (bkt_h b) v sz HASH_ADD t
        = Some (SUCCESS, Some a, t1)" "hash_inv t1" "stored_as ?k v t t1" "entry_at a t1 = Some (?k, v)"
      by (auto simp: store_spec_def)
    obtain t2 where "construct ctor (Some a) t1 = Some t2" "hash_inv t2"
      "ht_items t2 = AList.update ?k (ctor_fun ctor v) (ht_items t1)"
      by (rule construct_inv [OF A(2,4)])
    with A False show ?thesis by (auto simp: stored_as_def update_update merge_step_def)
  qed
qed

lemma length_merge_step: "length (merge_step ctor ov kv xs) \<le> Suc (length xs)"
  by (auto simp: merge_step_def length_update_le split: prod.split)

lemma merge_loop_spec:
  assumes "dseg (lview (bheap src)) q ps None" "\<And>a. a \<in> set ps \<Longrightarrow> info_ok (the (iview (bheap src) a))"
    and "hash_inv t" "length (ht_items t) + length ps < 2 ^ 32"
  shows "\<exists>t'. merge_loop ctor sz (if ov then HASH_UPDATE else HASH_ADD) src (hd_or None ps) t = Some t' \<and>
     hash_inv t' \<and> ht_items t' = fold (merge_step ctor ov) (items (iview (bheap src)) ps) (ht_items t)"
  using assms
proof (induction ps arbitrary: q t)
  case Nil
  then show ?case by (subst merge_loop.simps) (simp add: items_Nil)
next
  case (Cons a ps)
  let ?mode = "if ov then HASH_UPDATE else HASH_ADD"
  from Cons.prems(1) obtain b where b: "bheap src a = Some b" "pListNext b = hd_or None ps"
    by (auto simp: lview_def)
  have iv: "iview (bheap src) a = Some (binfo_of b)" using b by (simp add: heap_simps)
  have ok: "info_ok (binfo_of b)" using Cons.prems(2) [of a] iv by simp
  have room: "room t" using Cons.prems(4) by (simp add: room_def)
  let ?k = "bkey (binfo_of b)" and ?v = "stored (pData b)"
  obtain c t1 t2 where S: "(if nKeyLength b \<noteq> 0
       then zend_hash_quick_add_or_update (arKey b) (nKeyLength b) (bkt_h b) ?v sz HASH_UPDATE t
       else zend_hash_index_update (bkt_h b) ?v sz t) = Some (SUCCESS, Some c, t1)"
     "construct ctor (Some c) t1 = Some t2" "hash_inv t2"
     "ht_items t2 = AList.update ?k (ctor_fun ctor ?v) (ht_items t)"
    by (rule store_bucket_construct [OF Cons.prems(3) ok room, where v = ?v and sz = sz and ctor = ctor])
  obtain r p t3 t4 where A: "nKeyLength b \<noteq> 0 \<Longrightarrow>
      zend_hash_quick_add_or_update (arKey b) (nKeyLength b) (bkt_h b) ?v sz HASH_ADD t = Some (r, p, t3) \<and>
      (if r = SUCCESS then construct ctor p t3 else Some t3) = Some t4 \<and> hash_inv t4 \<and>
      ht_items t4 = merge_step ctor False (?k, ?v) (ht_items t)"
    using add_bucket [OF Cons.prems(3) ok _ room, where v = ?v and sz = sz and ctor = ctor] by metis
  obtain tps where "hash_inv_at t tps" using Cons.prems(3) by (auto simp: hash_inv_def)
  from index_find_eq(2) [OF this] have ex: "nKeyLength b = 0 \<Longrightarrow>
      zend_hash_index_exists (bkt_h b) t = Some (?k \<in> fst ` set (ht_items t))"
    by (simp add: binfo_of_def)
  have modes: "HASH_ADD \<noteq> HASH_UPDATE" by (simp add: HASH_ADD_def HASH_UPDATE_def)
  have pos: "0 < nKeyLength b \<longleftrightarrow> nKeyLength b \<noteq> 0" by (simp add: word_neq_0_conv)
  obtain t5 where T: "merge_loop ctor sz ?mode src (Some a) t = merge_loop ctor sz ?mode src (hd_or None ps) t5"
    "hash_inv t5" "ht_items t5 = merge_step ctor ov (?k, ?v) (ht_items t)"
  proof (cases ov)
    case True
    have "merge_loop ctor sz ?mode src (Some a) t = merge_loop ctor sz ?mode src (hd_or None ps) t2"
      using S(1,2) True ex by (subst merge_loop.simps) (auto simp: b pos split: if_splits)
    with S(3,4) True that show thesis by (simp add: merge_step_def)
  next
    case False
    show thesis
    proof (cases "nKeyLength b = 0")
      case True
      show thesis
      proof (cases "?k \<in> fst ` set (ht_items t)")
        case present: True
        have "merge_loop ctor sz ?mode src (Some a) t = merge_loop ctor sz ?mode src (hd_or None ps) t"
          using True False ex present modes by (subst merge_loop.simps) (simp add: b)
        with Cons.prems(3) False present that show thesis by (simp add: merge_step_def)
      next
        case absent: False
        have "merge_loop ctor sz ?mode src (Some a) t = merge_loop ctor sz ?mode src (hd_or None ps) t2"
          using True \<open>\<not> ov\<close> ex absent S(1,2) by (subst merge_loop.simps) (simp add: b)
        with S(3,4) absent that show thesis by (simp add: merge_step_def)
      qed
    next
      case str: False
      have "merge_loop ctor sz ?mode src (Some a) t = merge_loop ctor sz ?mode src (hd_or None ps) t4"
        using str \<open>\<not> ov\<close> A by (subst merge_loop.simps) (simp add: b pos)
      with A str \<open>\<not> ov\<close> that show thesis by simp
    qed
  qed
  have "length (ht_items t5) + length ps < 2 ^ 32"
    using Cons.prems(4) length_merge_step [of ctor ov "(?k, ?v)" "ht_items t"] by (simp add: T(3))
  then have "\<exists>t'. merge_loop ctor sz ?mode src (hd_or None ps) t5 = Some t' \<and> hash_inv t' \<and>
     ht_items t' = fold (merge_step ctor ov) (items (iview (bheap src)) ps) (ht_items t5)"
    by (intro Cons.IH [of "Some a"]) (use Cons.prems T(2) in auto)
  then show ?case using T(1,3) by (simp add: items_Cons iv)
qed

lemma merge_result:
  assumes src: "hash_inv src" and t: "hash_inv t" and len: "length (ht_items t) + length (ht_items src) < 2 ^ 32"
  shows "\<exists>t'. zend_hash_merge ctor sz ov t src = Some t' \<and> hash_inv t' \<and>
     ht_items t' = fold (merge_step ctor ov) (ht_items src) (ht_items t) \<and>
     ht_cursor t' = first_key (ht_items t')"
proof -
  obtain ps where inv: "hash_inv_at src ps" using src by (auto simp: hash_inv_def)
  note G = hash_inv_seg [OF inv]
  from merge_loop_spec [OF G(1,3) t, where ctor = ctor and sz = sz and ov = ov] len G(4,5)
  obtain t1 where C: "merge_loop ctor sz (if ov then HASH_UPDATE else HASH_ADD) src (hd_or None ps) t = Some t1"
    "hash_inv t1" "ht_items t1 = fold (merge_step ctor ov) (ht_items src) (ht_items t)"
    by auto
  have "zend_hash_merge ctor sz ov t src = Some (t1\<lparr>pInternalPointer := pListHead t1\<rparr>)"
    using C(1) G(2) by (simp add: zend_hash_merge_def)
  with head_internal_inv [OF C(2)] C(3) show ?thesis by auto
qed

subsection \<open>Walking a table\<close>

text \<open>
  The loop the engine writes over a table with a position of its own: reset, then data, key
  and step forward until there is no current element.
\<close>

partial_function (option) foreach_from :: "hpos \<Rightarrow> 'v HashTable \<Rightarrow> (current_key \<times> 'v) list option" where
  "foreach_from pos ht = do {
     d \<leftarrow> zend_hash_get_current_data_ex pos ht;
     (case d of None \<Rightarrow> Some []
      | Some v \<Rightarrow> do {
          k \<leftarrow> zend_hash_get_current_key_ex False pos ht;
          (r, pos, ht) \<leftarrow> zend_hash_move_forward_ex pos ht;
          rest \<leftarrow> foreach_from pos ht;
          Some ((k, v) # rest) }) }"

declare foreach_from.simps [code]

definition foreach :: "'v HashTable \<Rightarrow> (current_key \<times> 'v) list option" where
  "foreach ht = (case zend_hash_internal_pointer_reset_ex (Some None) ht of (pos, ht) \<Rightarrow> foreach_from pos ht)"

fun current_hkey :: "current_key \<Rightarrow> hkey option" where
  "current_hkey (HASH_KEY_IS_STRING s n) = Some (StrKey (take (unat n) (chars s)))"
| "current_hkey (HASH_KEY_IS_LONG hv) = Some (IntKey hv)"
| "current_hkey HASH_KEY_NON_EXISTENT = None"

lemma foreach_seg:
  assumes "dseg (lview (bheap ht)) q ps None"
  shows "\<exists>kvs. foreach_from (Some (hd_or None ps)) ht = Some kvs \<and>
     map (\<lambda>(k, v). (current_hkey k, v)) kvs = map (\<lambda>(k, v). (Some k, v)) (items (iview (bheap ht)) ps)"
  using assms
proof (induction ps arbitrary: q)
  case Nil
  then show ?case
    by (subst foreach_from.simps) (simp add: zend_hash_get_current_data_ex_def cur_pos_def data_at_def items_Nil)
next
  case (Cons a ps)
  from Cons.prems obtain b where b: "bheap ht a = Some b" "pListNext b = hd_or None ps"
    by (auto simp: lview_def)
  from Cons.IH [of "Some a"] Cons.prems obtain kvs where IH: "foreach_from (Some (hd_or None ps)) ht = Some kvs"
    "map (\<lambda>(k, v). (current_hkey k, v)) kvs = map (\<lambda>(k, v). (Some k, v)) (items (iview (bheap ht)) ps)"
    by auto
  have "foreach_from (Some (Some a)) ht =
      Some ((if nKeyLength b \<noteq> 0 then HASH_KEY_IS_STRING (arKey b) (nKeyLength b) else HASH_KEY_IS_LONG (bkt_h b),
             stored (pData b)) # kvs)"
    using IH(1) b
    by (subst foreach_from.simps)
       (simp add: zend_hash_get_current_data_ex_def zend_hash_get_current_key_ex_def zend_hash_move_forward_ex_def
          cur_pos_def data_at_def set_pos_def)
  moreover have "current_hkey (if nKeyLength b \<noteq> 0 then HASH_KEY_IS_STRING (arKey b) (nKeyLength b)
      else HASH_KEY_IS_LONG (bkt_h b)) = Some (bkey (binfo_of b))"
    by (simp add: binfo_of_def)
  ultimately show ?case using IH(2) b by (simp add: items_Cons heap_simps)
qed

lemma foreach_items:
  assumes "hash_inv ht"
  shows "\<exists>kvs. foreach ht = Some kvs \<and>
     map (\<lambda>(k, v). (current_hkey k, v)) kvs = map (\<lambda>(k, v). (Some k, v)) (ht_items ht)"
proof -
  obtain ps where inv: "hash_inv_at ht ps" using assms by (auto simp: hash_inv_def)
  show ?thesis
    using foreach_seg [OF hash_inv_seg(1) [OF inv]] hash_inv_seg(2,5) [OF inv]
    by (simp add: foreach_def zend_hash_internal_pointer_reset_ex_def set_pos_def)
qed

text \<open>Moving forward and back again.\<close>

lemma move_there_and_back:
  assumes inv: "hash_inv_at ht (us @ a # c # vs)"
  shows "zend_hash_move_forward_ex (Some (Some a)) ht = Some (SUCCESS, Some (Some c), ht)"
    "zend_hash_move_backwards_ex (Some (Some c)) ht = Some (SUCCESS, Some (Some a), ht)"
proof -
  have L: "list_inv (lview (bheap ht)) (pListHead ht) (pListTail ht) (us @ a # c # vs)"
    by (rule hash_structD(1) [OF hash_inv_atD(1) [OF inv]])
  then have L': "list_inv (lview (bheap ht)) (pListHead ht) (pListTail ht) ((us @ [a]) @ c # vs)" by simp
  from list_inv_at [OF L] list_inv_at [OF L'] obtain b b' where
    "bheap ht a = Some b" "pListNext b = Some c" "bheap ht c = Some b'" "pListLast b' = Some a"
    by (auto simp: lview_def)
  then show "zend_hash_move_forward_ex (Some (Some a)) ht = Some (SUCCESS, Some (Some c), ht)"
    "zend_hash_move_backwards_ex (Some (Some c)) ht = Some (SUCCESS, Some (Some a), ht)"
    by (simp_all add: zend_hash_move_forward_ex_def zend_hash_move_backwards_ex_def cur_pos_def set_pos_def)
qed

subsection \<open>Saved pointers\<close>

lemma pointer_search_seg:
  "dseg (cview m) q cs None \<Longrightarrow> pointer_search m pos (hd_or None cs) = Some (pos \<in> set cs)"
proof (induction cs arbitrary: q)
  case Nil
  then show ?case by (simp add: pointer_search.simps)
next
  case (Cons a cs)
  then obtain b where "m a = Some b" "pNext b = hd_or None cs" by (auto simp: cview_def)
  with Cons show ?case by (subst pointer_search.simps) auto
qed

lemma set_pointer_result:
  assumes inv: "hash_inv_at ht ps" and pos: "hp_pos hp = Some a"
  shows "zend_hash_set_pointer hp ht =
    (if pInternalPointer ht = Some a \<or> (\<exists>b. bheap ht a = Some b \<and> nIndex (bkt_h b) ht = nIndex (hp_h hp) ht)
     then Some (True, ht\<lparr>pInternalPointer := Some a\<rparr>) else Some (False, ht))"
proof (cases "pInternalPointer ht = Some a")
  case True
  then show ?thesis by (simp add: zend_hash_set_pointer_def pos)
next
  case False
  note D = hash_structD [OF hash_inv_atD(1) [OF inv]]
  let ?i = "nIndex (hp_h hp) ht" and ?ix = "slot_of (nTableMask ht) (iview (bheap ht))"
  have i: "?i < length (arBuckets ht)" by (rule nIndex_bound [OF D(4)])
  obtain c where c: "chain_at (cview (bheap ht)) (arBuckets ht ! ?i) c {a \<in> set ps. ?ix a = ?i}"
    using chain_invD [OF D(6) i] by blast
  have "pointer_search (bheap ht) a (arBuckets ht ! ?i) = Some (a \<in> set c)"
    using c pointer_search_seg [of "bheap ht" None c a] by (simp add: chain_at_def)
  moreover have "a \<in> set c \<longleftrightarrow> (\<exists>b. bheap ht a = Some b \<and> nIndex (bkt_h b) ht = ?i)"
    using c D(2) slot_of_nIndex [of "bheap ht" a _ ht] by (auto simp: chain_at_def)
  ultimately show ?thesis
    using False i by (simp add: zend_hash_set_pointer_def pos rd_slot_def)
qed

end
