(* ===== verification/Zend_Qsort.thy ===== *)
theory Zend_Qsort
  imports Zend_Prelude
begin

text \<open>
  The sort of \<^verbatim>\<open>Zend/zend_qsort.c\<close>: an iterative quicksort with an explicit stack of
  \<open>QSORT_STACK_SIZE\<close> segments. Positions are element indices, \<open>int\<close> because a segment
  may end one before its begin; an access outside the array or a push on a full stack is
  \<open>None\<close>. The contract of a sort routine is the locale \<open>sorter\<close>.
\<close>

subsection \<open>Swapping two elements bytewise\<close>

text \<open>
  \<open>_zend_qsort_swap\<close> on two blocks of \<open>siz\<close> bytes: words of four bytes first, then the
  remaining bytes one at a time. \<open>i\<close> is the C loop variable.
\<close>

fun swap_range :: "nat \<Rightarrow> nat \<Rightarrow> 'b list \<times> 'b list \<Rightarrow> 'b list \<times> 'b list" where
  "swap_range lo 0 ab = ab"
| "swap_range lo (Suc n) (a, b) = swap_range (Suc lo) n (a[lo := b ! lo], b[lo := a ! lo])"

definition sizeof_int :: nat where "sizeof_int = 4"

function swap_ints :: "nat \<Rightarrow> nat \<Rightarrow> 'b list \<times> 'b list \<Rightarrow> nat \<times> 'b list \<times> 'b list" where
  "swap_ints siz i ab =
     (if i \<le> siz then swap_ints siz (i + sizeof_int) (swap_range (i - sizeof_int) sizeof_int ab) else (i, ab))"
  by pat_completeness auto
termination
  by (relation "measure (\<lambda>(siz, i, _). Suc siz - i)") (auto simp: sizeof_int_def)

function swap_chars :: "nat \<Rightarrow> nat \<Rightarrow> 'b list \<times> 'b list \<Rightarrow> 'b list \<times> 'b list" where
  "swap_chars siz i ab = (if i \<le> siz then swap_chars siz (i + 1) (swap_range (i - 1) 1 ab) else ab)"
  by pat_completeness auto
termination
  by (relation "measure (\<lambda>(siz, i, _). Suc siz - i)") auto

declare swap_ints.simps [simp del] swap_chars.simps [simp del]

definition zend_qsort_swap :: "nat \<Rightarrow> 'b list \<times> 'b list \<Rightarrow> 'b list \<times> 'b list" where
  "zend_qsort_swap siz ab =
     (case swap_ints siz sizeof_int ab of (i, ab) \<Rightarrow> swap_chars siz (i - sizeof_int + 1) ab)"

subsection \<open>The sort\<close>

definition rd :: "'a list \<Rightarrow> int \<Rightarrow> 'a option" where
  "rd xs i = (if 0 \<le> i \<and> i < int (length xs) then Some (xs ! nat i) else None)"

text \<open>\<open>_zend_qsort_swap\<close> on two elements of the array.\<close>

definition swap :: "'a list \<Rightarrow> int \<Rightarrow> int \<Rightarrow> 'a list option" where
  "swap xs i j = do { x \<leftarrow> rd xs i; y \<leftarrow> rd xs j; Some (xs[nat i := y, nat j := x]) }"

partial_function (option) scan_up :: "('a \<Rightarrow> 'a \<Rightarrow> int) \<Rightarrow> 'a list \<Rightarrow> int \<Rightarrow> int \<Rightarrow> int \<Rightarrow> int option" where
  "scan_up compare xs b seg1 seg2 =
     (if seg1 < seg2 then do {
        p \<leftarrow> rd xs b; x \<leftarrow> rd xs seg1;
        if compare p x > 0 then scan_up compare xs b (seg1 + 1) seg2 else Some seg1 }
      else Some seg1)"

partial_function (option) scan_down :: "('a \<Rightarrow> 'a \<Rightarrow> int) \<Rightarrow> 'a list \<Rightarrow> int \<Rightarrow> int \<Rightarrow> int \<Rightarrow> int option" where
  "scan_down compare xs b seg1 seg2 =
     (if seg2 \<ge> seg1 then do {
        p \<leftarrow> rd xs b; x \<leftarrow> rd xs seg2;
        if compare x p > 0 then scan_down compare xs b seg1 (seg2 - 1) else Some seg2 }
      else Some seg2)"

partial_function (option) partition_loop ::
    "('a \<Rightarrow> 'a \<Rightarrow> int) \<Rightarrow> 'a list \<Rightarrow> int \<Rightarrow> int \<Rightarrow> int \<Rightarrow> ('a list \<times> int) option" where
  "partition_loop compare xs b seg1 seg2 = do {
     seg1 \<leftarrow> scan_up compare xs b seg1 seg2;
     seg2 \<leftarrow> scan_down compare xs b seg1 seg2;
     if seg1 \<ge> seg2 then Some (xs, seg2)
     else do {
       xs \<leftarrow> swap xs seg1 seg2;
       partition_loop compare xs b (seg1 + 1) (seg2 - 1) } }"

declare scan_up.simps [code] scan_down.simps [code] partition_loop.simps [code]

text \<open>The element swapped to the front: \<open>offset\<close> is a byte distance truncated to 32 bits.\<close>

definition pivot_index :: "nat \<Rightarrow> int \<Rightarrow> int \<Rightarrow> int" where
  "pivot_index siz b e =
     (let offset = (word_of_int (((e - b) * int siz) div 2) :: uint)
      in b + (uint offset - uint offset mod int siz) div int siz)"

definition qsort_partition ::
    "('a \<Rightarrow> 'a \<Rightarrow> int) \<Rightarrow> nat \<Rightarrow> 'a list \<Rightarrow> int \<Rightarrow> int \<Rightarrow> ('a list \<times> int) option" where
  "qsort_partition compare siz xs b e = do {
     xs \<leftarrow> swap xs b (pivot_index siz b e);
     (xs, seg2) \<leftarrow> partition_loop compare xs b (b + 1) e;
     xs \<leftarrow> swap xs b seg2;
     Some (xs, seg2) }"

definition QSORT_STACK_SIZE :: nat where "QSORT_STACK_SIZE = 64"

definition qsort_push :: "int \<times> int \<Rightarrow> (int \<times> int) list \<Rightarrow> (int \<times> int) list option" where
  "qsort_push seg stk = (if length stk < QSORT_STACK_SIZE then Some (seg # stk) else None)"

text \<open>The inner \<open>while\<close>: one segment, deferring the larger part of each partition.\<close>

partial_function (option) qsort_segment ::
    "('a \<Rightarrow> 'a \<Rightarrow> int) \<Rightarrow> nat \<Rightarrow> 'a list \<Rightarrow> int \<Rightarrow> int \<Rightarrow> (int \<times> int) list \<Rightarrow>
     ('a list \<times> (int \<times> int) list) option" where
  "qsort_segment compare siz xs b e stk =
     (if b < e then do {
        (xs, seg2p) \<leftarrow> qsort_partition compare siz xs b e;
        if seg2p - b \<le> e - seg2p then do {
          stk \<leftarrow> (if seg2p + 1 < e then qsort_push (seg2p + 1, e) stk else Some stk);
          qsort_segment compare siz xs b (seg2p - 1) stk }
        else do {
          stk \<leftarrow> (if seg2p - 1 > b then qsort_push (b, seg2p - 1) stk else Some stk);
          qsort_segment compare siz xs (seg2p + 1) e stk } }
      else Some (xs, stk))"

partial_function (option) qsort_loop ::
    "('a \<Rightarrow> 'a \<Rightarrow> int) \<Rightarrow> nat \<Rightarrow> 'a list \<Rightarrow> (int \<times> int) list \<Rightarrow> 'a list option" where
  "qsort_loop compare siz xs stk =
     (case stk of [] \<Rightarrow> Some xs
      | (b, e) # stk \<Rightarrow> do {
          (xs, stk) \<leftarrow> qsort_segment compare siz xs b e stk;
          qsort_loop compare siz xs stk })"

declare qsort_segment.simps [code] qsort_loop.simps [code]

definition zend_qsort_r :: "nat \<Rightarrow> ('a \<Rightarrow> 'a \<Rightarrow> int) \<Rightarrow> 'a list \<Rightarrow> 'a list option" where
  "zend_qsort_r siz compare xs = qsort_loop compare siz xs [(0, int (length xs) - 1)]"

definition zend_qsort :: "nat \<Rightarrow> ('a \<Rightarrow> 'a \<Rightarrow> int) \<Rightarrow> 'a list \<Rightarrow> 'a list option" where
  "zend_qsort siz compare xs = zend_qsort_r siz compare xs"

subsection \<open>The contract of a sort routine\<close>

definition consistent :: "('a \<Rightarrow> 'a \<Rightarrow> int) \<Rightarrow> 'a set \<Rightarrow> bool" where
  "consistent compare A \<longleftrightarrow>
     (\<forall>x\<in>A. \<forall>y\<in>A. 0 < compare x y \<longleftrightarrow> compare y x < 0) \<and>
     (\<forall>x\<in>A. \<forall>y\<in>A. \<forall>z\<in>A. compare x y \<le> 0 \<longrightarrow> compare y z \<le> 0 \<longrightarrow> compare x z \<le> 0)"

lemma consistent_image:
  assumes "consistent cmp (f ` A)"
  shows "consistent (\<lambda>a b. cmp (f a) (f b)) A"
  unfolding consistent_def
proof (intro conjI ballI impI)
  fix x y assume "x \<in> A" "y \<in> A"
  then show "0 < cmp (f x) (f y) \<longleftrightarrow> cmp (f y) (f x) < 0"
    using assms unfolding consistent_def by blast
next
  fix x y z assume "x \<in> A" "y \<in> A" "z \<in> A" "cmp (f x) (f y) \<le> 0" "cmp (f y) (f z) \<le> 0"
  then show "cmp (f x) (f z) \<le> 0"
    using assms [unfolded consistent_def, THEN conjunct2] by blast
qed

locale sorter =
  fixes sort :: "('a \<Rightarrow> 'a \<Rightarrow> int) \<Rightarrow> 'a list \<Rightarrow> 'a list option"
    and capacity :: nat
  assumes sort_perm: "length xs < capacity \<Longrightarrow> \<exists>ys. sort compare xs = Some ys \<and> mset ys = mset xs"
    and sort_sorted: "length xs < capacity \<Longrightarrow> consistent compare (set xs) \<Longrightarrow> sort compare xs = Some ys \<Longrightarrow>
           sorted_wrt (\<lambda>x y. compare x y \<le> 0) ys"
begin

lemma sort_length: "length xs < capacity \<Longrightarrow> sort compare xs = Some ys \<Longrightarrow> length ys = length xs \<and> set ys = set xs"
  using sort_perm [of xs compare] by (auto dest: mset_eq_length mset_eq_setD)

lemma sort_distinct: "length xs < capacity \<Longrightarrow> sort compare xs = Some ys \<Longrightarrow> distinct ys = distinct xs"
  using sort_perm [of xs compare] by (auto dest: mset_eq_imp_distinct_iff)

text \<open>Sorting what is sorted by a strict order on distinct keys gives the same list back.\<close>

lemma sort_unique:
  assumes "length xs < capacity" "consistent compare (set xs)" "sort compare xs = Some ys" "sort compare zs = Some ws"
    and "mset xs = mset zs" "\<And>x y. x \<in> set xs \<Longrightarrow> y \<in> set xs \<Longrightarrow> compare x y = 0 \<Longrightarrow> x = y"
  shows "ys = ws"
proof -
  note len = mset_eq_length [OF assms(5)] and st = mset_eq_setD [OF assms(5)]
  have s: "sorted_wrt (\<lambda>x y. compare x y \<le> 0) ys" "sorted_wrt (\<lambda>x y. compare x y \<le> 0) ws"
    using sort_sorted [of xs compare ys] sort_sorted [of zs compare ws] assms(1-4) len st by auto
  have m: "mset ys = mset ws"
    using sort_perm [of xs compare] sort_perm [of zs compare] assms(1,3-5) len by auto
  have anti: "\<And>x y. x \<in> set xs \<Longrightarrow> y \<in> set xs \<Longrightarrow> compare x y \<le> 0 \<Longrightarrow> compare y x \<le> 0 \<Longrightarrow> x = y"
  proof -
    fix x y assume xy: "x \<in> set xs" "y \<in> set xs" "compare x y \<le> 0" "compare y x \<le> 0"
    have "0 < compare y x \<longleftrightarrow> compare x y < 0" using assms(2) xy(1,2) by (simp add: consistent_def)
    with xy have "compare x y = 0" by linarith
    with assms(6) xy show "x = y" by blast
  qed
  have sub: "set ys = set xs" "set ws = set xs"
    using sort_length [of xs compare ys] sort_length [of zs compare ws] assms(1,3,4) len st by auto
  have "sorted_wrt (\<lambda>x y. compare x y \<le> 0) ys' \<Longrightarrow> sorted_wrt (\<lambda>x y. compare x y \<le> 0) ws' \<Longrightarrow>
        mset ys' = mset ws' \<Longrightarrow> set ys' \<subseteq> set xs \<Longrightarrow> ys' = ws'" for ys' ws'
  proof (induction ys' arbitrary: ws')
    case (Cons y ys')
    then obtain w ws'' where w: "ws' = w # ws''" by (cases ws') auto
    have "y \<in> set ws'" "w \<in> set (y # ys')" using mset_eq_setD [OF Cons.prems(3)] w by auto
    then have "y = w" using Cons.prems w by (auto intro: anti)
    with Cons w show ?case by simp
  qed simp
  with s m sub show ?thesis by simp
qed

end

subsection \<open>Partitioning\<close>

abbreviation at :: "'a list \<Rightarrow> int \<Rightarrow> 'a" where
  "at xs i \<equiv> xs ! nat i"

lemma rd_at: "0 \<le> i \<Longrightarrow> i < int (length xs) \<Longrightarrow> rd xs i = Some (at xs i)"
  by (simp add: rd_def)

lemma swap_at:
  assumes "0 \<le> i" "i < int (length xs)" "0 \<le> j" "j < int (length xs)"
  obtains ys where "swap xs i j = Some ys" "mset ys = mset xs" "length ys = length xs"
    "at ys i = at xs j" "at ys j = at xs i" "\<And>k. 0 \<le> k \<Longrightarrow> k \<noteq> i \<Longrightarrow> k \<noteq> j \<Longrightarrow> at ys k = at xs k"
proof
  let ?ys = "xs[nat i := at xs j, nat j := at xs i]"
  show "swap xs i j = Some ?ys" using assms by (simp add: swap_def rd_at)
  show "mset ?ys = mset xs" using assms by (subst mset_swap) auto
  show "length ?ys = length xs" "at ?ys i = at xs j" "at ?ys j = at xs i"
    using assms by (auto simp: nth_list_update)
  show "\<And>k. 0 \<le> k \<Longrightarrow> k \<noteq> i \<Longrightarrow> k \<noteq> j \<Longrightarrow> at ?ys k = at xs k"
    using assms by (simp add: nat_eq_iff)
qed

lemma scan_up_spec:
  assumes "0 \<le> b" "b < int (length xs)" "0 \<le> seg1" "seg2 < int (length xs)"
  shows "\<exists>s. scan_up cmp xs b seg1 seg2 = Some s \<and> seg1 \<le> s \<and> s \<le> max seg1 seg2 \<and>
     (\<forall>i. seg1 \<le> i \<and> i < s \<longrightarrow> cmp (at xs b) (at xs i) > 0) \<and> (s < seg2 \<longrightarrow> cmp (at xs b) (at xs s) \<le> 0)"
  using assms
proof (induction "nat (seg2 - seg1)" arbitrary: seg1)
  case 0
  then show ?case by (subst scan_up.simps) auto
next
  case (Suc n)
  then have lt: "seg1 < seg2" by simp
  show ?case
  proof (cases "cmp (at xs b) (at xs seg1) > 0")
    case True
    with lt Suc.prems have step: "scan_up cmp xs b seg1 seg2 = scan_up cmp xs b (seg1 + 1) seg2"
      by (subst scan_up.simps) (simp add: rd_at)
    have n: "n = nat (seg2 - (seg1 + 1))" using Suc.hyps(2) by linarith
    obtain s where s: "scan_up cmp xs b (seg1 + 1) seg2 = Some s" "seg1 + 1 \<le> s" "s \<le> max (seg1 + 1) seg2"
      "\<forall>i. seg1 + 1 \<le> i \<and> i < s \<longrightarrow> cmp (at xs b) (at xs i) > 0" "s < seg2 \<longrightarrow> cmp (at xs b) (at xs s) \<le> 0"
      using Suc.hyps(1) [of "seg1 + 1"] n Suc.prems by auto
    have "\<forall>i. seg1 \<le> i \<and> i < s \<longrightarrow> cmp (at xs b) (at xs i) > 0"
    proof (intro allI impI)
      fix i assume "seg1 \<le> i \<and> i < s"
      then show "cmp (at xs b) (at xs i) > 0" using True s(4) by (cases "i = seg1") auto
    qed
    with s lt step show ?thesis by auto
  next
    case False
    with lt Suc.prems show ?thesis by (subst scan_up.simps) (simp add: rd_at)
  qed
qed

lemma scan_down_spec:
  assumes "0 \<le> b" "b < int (length xs)" "0 \<le> seg1" "seg2 < int (length xs)" "seg1 \<le> seg2 + 1"
  shows "\<exists>s. scan_down cmp xs b seg1 seg2 = Some s \<and> s \<le> seg2 \<and> seg1 - 1 \<le> s \<and>
     (\<forall>i. s < i \<and> i \<le> seg2 \<longrightarrow> cmp (at xs i) (at xs b) > 0) \<and> (seg1 \<le> s \<longrightarrow> cmp (at xs s) (at xs b) \<le> 0)"
  using assms
proof (induction "nat (seg2 - seg1 + 1)" arbitrary: seg2)
  case 0
  then show ?case by (subst scan_down.simps) auto
next
  case (Suc n)
  then have le: "seg1 \<le> seg2" by simp
  show ?case
  proof (cases "cmp (at xs seg2) (at xs b) > 0")
    case True
    with le Suc.prems have step: "scan_down cmp xs b seg1 seg2 = scan_down cmp xs b seg1 (seg2 - 1)"
      by (subst scan_down.simps) (simp add: rd_at)
    have n: "n = nat (seg2 - 1 - seg1 + 1)" using Suc.hyps(2) by linarith
    obtain s where s: "scan_down cmp xs b seg1 (seg2 - 1) = Some s" "s \<le> seg2 - 1" "seg1 - 1 \<le> s"
      "\<forall>i. s < i \<and> i \<le> seg2 - 1 \<longrightarrow> cmp (at xs i) (at xs b) > 0" "seg1 \<le> s \<longrightarrow> cmp (at xs s) (at xs b) \<le> 0"
      using Suc.hyps(1) [of "seg2 - 1"] n Suc.prems le by auto
    have "\<forall>i. s < i \<and> i \<le> seg2 \<longrightarrow> cmp (at xs i) (at xs b) > 0"
    proof (intro allI impI)
      fix i assume "s < i \<and> i \<le> seg2"
      then show "cmp (at xs i) (at xs b) > 0" using True s(4) by (cases "i = seg2") auto
    qed
    with s step show ?thesis by auto
  next
    case False
    with le Suc.prems show ?thesis by (subst scan_down.simps) (simp add: rd_at)
  qed
qed

text \<open>The sign symmetry a comparison function promises.\<close>

definition antisym_on :: "('a \<Rightarrow> 'a \<Rightarrow> int) \<Rightarrow> 'a set \<Rightarrow> bool" where
  "antisym_on cmp A \<longleftrightarrow> (\<forall>x\<in>A. \<forall>y\<in>A. 0 < cmp x y \<longleftrightarrow> cmp y x < 0)"

lemma at_in: "0 \<le> i \<Longrightarrow> i < int (length xs) \<Longrightarrow> at xs i \<in> set xs"
  by (simp add: nat_less_iff)

lemma partition_loop_spec:
  assumes "0 \<le> b" "b < seg1" "seg1 \<le> seg2 + 1" "seg2 \<le> e" "e < int (length xs)" "b < e"
  shows "\<exists>ys s. partition_loop cmp xs b seg1 seg2 = Some (ys, s) \<and> b \<le> s \<and> s \<le> e \<and> mset ys = mset xs \<and>
     (\<forall>i. 0 \<le> i \<and> (i \<le> b \<or> e < i) \<longrightarrow> at ys i = at xs i) \<and>
     (\<forall>i. b \<le> i \<and> i \<le> e \<longrightarrow> (\<exists>k. b \<le> k \<and> k \<le> e \<and> at ys i = at xs k)) \<and>
     (antisym_on cmp (set xs) \<longrightarrow>
       (\<forall>i. b < i \<and> i < seg1 \<longrightarrow> cmp (at xs i) (at xs b) \<le> 0) \<longrightarrow>
       (\<forall>i. seg2 < i \<and> i \<le> e \<longrightarrow> cmp (at xs b) (at xs i) \<le> 0) \<longrightarrow>
       (\<forall>i. b < i \<and> i \<le> s \<longrightarrow> cmp (at ys i) (at ys b) \<le> 0) \<and>
       (\<forall>i. s < i \<and> i \<le> e \<longrightarrow> cmp (at ys b) (at ys i) \<le> 0))"
  using assms
proof (induction "nat (seg2 - seg1 + 1)" arbitrary: xs seg1 seg2 rule: less_induct)
  case less
  obtain s1 where s1: "scan_up cmp xs b seg1 seg2 = Some s1" "seg1 \<le> s1" "s1 \<le> max seg1 seg2"
     "\<forall>i. seg1 \<le> i \<and> i < s1 \<longrightarrow> cmp (at xs b) (at xs i) > 0" "s1 < seg2 \<longrightarrow> cmp (at xs b) (at xs s1) \<le> 0"
    using scan_up_spec [of b xs seg1 seg2 cmp] less.prems by auto
  have "s1 \<le> seg2 + 1" using s1(3) less.prems(3) by linarith
  then obtain s2 where s2: "scan_down cmp xs b s1 seg2 = Some s2" "s2 \<le> seg2" "s1 - 1 \<le> s2"
     "\<forall>i. s2 < i \<and> i \<le> seg2 \<longrightarrow> cmp (at xs i) (at xs b) > 0" "s1 \<le> s2 \<longrightarrow> cmp (at xs s2) (at xs b) \<le> 0"
    using scan_down_spec [of b xs s1 seg2 cmp] less.prems s1(2,3) by auto
  have anti: "cmp (at xs i) (at xs b) \<le> 0" if "antisym_on cmp (set xs)" "cmp (at xs b) (at xs i) > 0" "0 \<le> i" "i \<le> e" for i
    using that less.prems at_in [of i xs] at_in [of b xs] by (force simp: antisym_on_def)
  have anti': "cmp (at xs b) (at xs i) \<le> 0" if "antisym_on cmp (set xs)" "cmp (at xs i) (at xs b) > 0" "0 \<le> i" "i \<le> e" for i
    using that less.prems at_in [of i xs] at_in [of b xs] by (force simp: antisym_on_def)
  have L: "\<forall>i. b < i \<and> i < s1 \<longrightarrow> cmp (at xs i) (at xs b) \<le> 0"
    if "antisym_on cmp (set xs)" "\<forall>i. b < i \<and> i < seg1 \<longrightarrow> cmp (at xs i) (at xs b) \<le> 0"
  proof (intro allI impI)
    fix i assume i: "b < i \<and> i < s1"
    show "cmp (at xs i) (at xs b) \<le> 0"
      using that i s1(3,4) anti [OF that(1), of i] less.prems by (cases "i < seg1") auto
  qed
  have R: "\<forall>i. s2 < i \<and> i \<le> e \<longrightarrow> cmp (at xs b) (at xs i) \<le> 0"
    if "antisym_on cmp (set xs)" "\<forall>i. seg2 < i \<and> i \<le> e \<longrightarrow> cmp (at xs b) (at xs i) \<le> 0"
  proof (intro allI impI)
    fix i assume i: "s2 < i \<and> i \<le> e"
    show "cmp (at xs b) (at xs i) \<le> 0"
      using that i s1(2) s2(3,4) anti' [OF that(1), of i] less.prems by (cases "seg2 < i") auto
  qed
  show ?case
  proof (cases "s1 \<ge> s2")
    case True
    have run: "partition_loop cmp xs b seg1 seg2 = Some (xs, s2)"
      using s1(1) s2(1) True by (subst partition_loop.simps) simp
    have "\<forall>i. b < i \<and> i \<le> s2 \<longrightarrow> cmp (at xs i) (at xs b) \<le> 0"
      if "antisym_on cmp (set xs)" "\<forall>i. b < i \<and> i < seg1 \<longrightarrow> cmp (at xs i) (at xs b) \<le> 0"
    proof (intro allI impI)
      fix i assume i: "b < i \<and> i \<le> s2"
      show "cmp (at xs i) (at xs b) \<le> 0"
      proof (cases "i < s1")
        case False
        then have "i = s2" "s1 \<le> s2" using i True by auto
        with s2(5) show ?thesis by simp
      qed (use L [OF that] i in blast)
    qed
    note le = this
    have "b \<le> s2" "s2 \<le> e" using less.prems s1(2) s2(2,3) by auto
    with run R le show ?thesis
      by (intro exI [of _ xs] exI [of _ s2] conjI) (auto 4 3)
  next
    case False
    then have lt: "s1 < s2" by simp
    have bounds: "0 \<le> s1" "s1 < int (length xs)" "0 \<le> s2" "s2 < int (length xs)"
      using less.prems s1(2) s2(2) lt by auto
    obtain zs where zs: "swap xs s1 s2 = Some zs" "mset zs = mset xs" "length zs = length xs"
      "at zs s1 = at xs s2" "at zs s2 = at xs s1" "\<And>k. 0 \<le> k \<Longrightarrow> k \<noteq> s1 \<Longrightarrow> k \<noteq> s2 \<Longrightarrow> at zs k = at xs k"
      by (rule swap_at [OF bounds]) blast
    have run: "partition_loop cmp xs b seg1 seg2 = partition_loop cmp zs b (s1 + 1) (s2 - 1)"
      using s1(1) s2(1) lt zs(1) by (subst partition_loop.simps) simp
    have zb: "at zs b = at xs b" using zs(6) [of b] less.prems s1(2) lt by simp
    have "nat (s2 - 1 - (s1 + 1) + 1) < nat (seg2 - seg1 + 1)" using s1(2) s2(2) lt by simp
    from less.hyps [OF this, of zs] obtain ys s where ys: "partition_loop cmp zs b (s1 + 1) (s2 - 1) = Some (ys, s)"
      "b \<le> s" "s \<le> e" "mset ys = mset zs" "\<forall>i. 0 \<le> i \<and> (i \<le> b \<or> e < i) \<longrightarrow> at ys i = at zs i"
      "\<forall>i. b \<le> i \<and> i \<le> e \<longrightarrow> (\<exists>k. b \<le> k \<and> k \<le> e \<and> at ys i = at zs k)"
      "antisym_on cmp (set zs) \<longrightarrow>
       (\<forall>i. b < i \<and> i < s1 + 1 \<longrightarrow> cmp (at zs i) (at zs b) \<le> 0) \<longrightarrow>
       (\<forall>i. s2 - 1 < i \<and> i \<le> e \<longrightarrow> cmp (at zs b) (at zs i) \<le> 0) \<longrightarrow>
       (\<forall>i. b < i \<and> i \<le> s \<longrightarrow> cmp (at ys i) (at ys b) \<le> 0) \<and>
       (\<forall>i. s < i \<and> i \<le> e \<longrightarrow> cmp (at ys b) (at ys i) \<le> 0)"
      using less.prems s1(2) s2(2) lt zs(3) by auto
    have L': "\<forall>i. b < i \<and> i < s1 + 1 \<longrightarrow> cmp (at zs i) (at zs b) \<le> 0"
      if "antisym_on cmp (set xs)" "\<forall>i. b < i \<and> i < seg1 \<longrightarrow> cmp (at xs i) (at xs b) \<le> 0"
    proof (intro allI impI)
      fix i assume i: "b < i \<and> i < s1 + 1"
      show "cmp (at zs i) (at zs b) \<le> 0"
        using L [OF that] i lt less.prems(1) s2(5) zs(4,6) zb by (cases "i = s1") auto
    qed
    have R': "\<forall>i. s2 - 1 < i \<and> i \<le> e \<longrightarrow> cmp (at zs b) (at zs i) \<le> 0"
      if "antisym_on cmp (set xs)" "\<forall>i. seg2 < i \<and> i \<le> e \<longrightarrow> cmp (at xs b) (at xs i) \<le> 0"
    proof (intro allI impI)
      fix i assume i: "s2 - 1 < i \<and> i \<le> e"
      have "cmp (at xs b) (at xs s1) \<le> 0" using s1(5) s2(2) lt by auto
      then show "cmp (at zs b) (at zs i) \<le> 0"
        using R [OF that] i lt bounds zs(5,6) zb by (cases "i = s2") auto
    qed
    have out: "\<forall>i. 0 \<le> i \<and> (i \<le> b \<or> e < i) \<longrightarrow> at ys i = at xs i"
      using ys(5) zs(6) less.prems s1(2) s2(2) lt by auto
    have zs_in: "\<exists>k. b \<le> k \<and> k \<le> e \<and> at zs i = at xs k" if "b \<le> i" "i \<le> e" for i
    proof (cases "i = s1 \<or> i = s2")
      case True
      moreover have "b \<le> s1" "s1 \<le> e" "b \<le> s2" "s2 \<le> e" using less.prems s1(2) s2(2) lt by auto
      ultimately show ?thesis using zs(4,5) by metis
    next
      case False
      then show ?thesis using zs(6) [of i] that less.prems(1) by auto
    qed
    have seg_in: "\<forall>i. b \<le> i \<and> i \<le> e \<longrightarrow> (\<exists>k. b \<le> k \<and> k \<le> e \<and> at ys i = at xs k)"
      using ys(6) zs_in by metis
    have "set zs = set xs" using zs(2) by (rule mset_eq_setD)
    with run ys(1-4,7) zs(2) out seg_in L' R' show ?thesis by auto
  qed
qed

lemma pivot_bounds:
  assumes "b < e" "0 < siz"
  shows "b \<le> pivot_index siz b e" "pivot_index siz b e \<le> e"
proof -
  define d where "d = (e - b) * int siz div 2"
  define r where "r = uint (word_of_int d :: uint)"
  have "0 \<le> (e - b) * int siz" using assms by simp
  then have d: "0 \<le> d" "d \<le> (e - b) * int siz" unfolding d_def by presburger+
  have "r = d mod 2 ^ 32" by (simp add: r_def uint_word_of_int)
  then have r: "0 \<le> r" "r \<le> d" using d(1) by (auto intro: zmod_le_nonneg_dividend)
  have "(r - r mod int siz) div int siz = r div int siz"
    by (simp add: minus_mod_eq_mult_div)
  moreover have "r div int siz \<le> (e - b) * int siz div int siz"
    using r d assms(2) by (intro zdiv_mono1) auto
  moreover have "0 \<le> r div int siz" using r(1) assms(2) by (simp add: pos_imp_zdiv_nonneg_iff)
  ultimately show "b \<le> pivot_index siz b e" "pivot_index siz b e \<le> e"
    using assms(2) by (simp_all add: pivot_index_def Let_def flip: d_def r_def)
qed

text \<open>One partition of a segment.\<close>

definition partitioned :: "('a \<Rightarrow> 'a \<Rightarrow> int) \<Rightarrow> 'a list \<Rightarrow> int \<Rightarrow> int \<Rightarrow> int \<Rightarrow> bool" where
  "partitioned cmp ys b s e \<longleftrightarrow>
     (\<forall>i. b \<le> i \<and> i < s \<longrightarrow> cmp (at ys i) (at ys s) \<le> 0) \<and>
     (\<forall>i. s < i \<and> i \<le> e \<longrightarrow> cmp (at ys s) (at ys i) \<le> 0)"

lemma qsort_partition_spec:
  assumes "0 \<le> b" "b < e" "e < int (length xs)" "0 < siz"
  obtains ys s where "qsort_partition cmp siz xs b e = Some (ys, s)" "b \<le> s" "s \<le> e" "mset ys = mset xs"
    "\<And>i. 0 \<le> i \<Longrightarrow> i < b \<or> e < i \<Longrightarrow> at ys i = at xs i"
    "\<And>i. b \<le> i \<Longrightarrow> i \<le> e \<Longrightarrow> \<exists>k. b \<le> k \<and> k \<le> e \<and> at ys i = at xs k"
    "antisym_on cmp (set xs) \<Longrightarrow> partitioned cmp ys b s e"
proof -
  note piv = pivot_bounds [OF assms(2,4)]
  obtain x1 where x1: "swap xs b (pivot_index siz b e) = Some x1" "mset x1 = mset xs" "length x1 = length xs"
    "at x1 b = at xs (pivot_index siz b e)" "at x1 (pivot_index siz b e) = at xs b"
    "\<And>k. 0 \<le> k \<Longrightarrow> k \<noteq> b \<Longrightarrow> k \<noteq> pivot_index siz b e \<Longrightarrow> at x1 k = at xs k"
    by (rule swap_at [of b xs "pivot_index siz b e"]) (use assms piv in auto)
  obtain x2 s where x2: "partition_loop cmp x1 b (b + 1) e = Some (x2, s)" "b \<le> s" "s \<le> e" "mset x2 = mset x1"
    "\<forall>i. 0 \<le> i \<and> (i \<le> b \<or> e < i) \<longrightarrow> at x2 i = at x1 i"
    "\<forall>i. b \<le> i \<and> i \<le> e \<longrightarrow> (\<exists>k. b \<le> k \<and> k \<le> e \<and> at x2 i = at x1 k)"
    "antisym_on cmp (set x1) \<longrightarrow> (\<forall>i. b < i \<and> i \<le> s \<longrightarrow> cmp (at x2 i) (at x2 b) \<le> 0) \<and>
       (\<forall>i. s < i \<and> i \<le> e \<longrightarrow> cmp (at x2 b) (at x2 i) \<le> 0)"
    using partition_loop_spec [of b "b + 1" e e x1 cmp] assms x1(3) by auto
  have len2: "length x2 = length xs" using x2(4) x1(3) by (metis mset_eq_length)
  obtain ys where ys: "swap x2 b s = Some ys" "mset ys = mset x2" "length ys = length x2"
    "at ys b = at x2 s" "at ys s = at x2 b" "\<And>k. 0 \<le> k \<Longrightarrow> k \<noteq> b \<Longrightarrow> k \<noteq> s \<Longrightarrow> at ys k = at x2 k"
    by (rule swap_at [of b x2 s]) (use assms x2 len2 in auto)
  have step1: "\<exists>k. b \<le> k \<and> k \<le> e \<and> at x1 i = at xs k" if "b \<le> i" "i \<le> e" for i
  proof (cases "i = b \<or> i = pivot_index siz b e")
    case True
    then show ?thesis using x1(4,5) assms(2) piv by (metis order_less_imp_le order_refl)
  next
    case False
    then show ?thesis using x1(6) [of i] that assms(1) by auto
  qed
  have step3: "\<exists>k. b \<le> k \<and> k \<le> e \<and> at ys i = at x2 k" if "b \<le> i" "i \<le> e" for i
  proof (cases "i = b \<or> i = s")
    case True
    then show ?thesis using ys(4,5) assms(2) x2(2,3) by (metis order_less_imp_le order_refl)
  next
    case False
    then show ?thesis using ys(6) [of i] that assms(1) by auto
  qed
  have "partitioned cmp ys b s e" if "antisym_on cmp (set xs)"
  proof -
    have "set x1 = set xs" using x1(2) by (rule mset_eq_setD)
    with x2(7) that have P: "\<forall>i. b < i \<and> i \<le> s \<longrightarrow> cmp (at x2 i) (at x2 b) \<le> 0"
      "\<forall>i. s < i \<and> i \<le> e \<longrightarrow> cmp (at x2 b) (at x2 i) \<le> 0" by simp_all
    have "cmp (at ys i) (at ys s) \<le> 0" if "b \<le> i" "i < s" for i
      using P(1) ys(4,5) ys(6) [of i] that assms(1) by (cases "i = b") auto
    moreover have "cmp (at ys s) (at ys i) \<le> 0" if "s < i" "i \<le> e" for i
      using P(2) ys(5) ys(6) [of i] that assms(1) x2(2) by auto
    ultimately show ?thesis by (simp add: partitioned_def)
  qed
  moreover have "at ys i = at xs i" if "0 \<le> i" "i < b \<or> e < i" for i
    using ys(6) [of i] x2(5) x1(6) [of i] that x2(2,3) piv assms(2) by auto
  moreover have "\<exists>k. b \<le> k \<and> k \<le> e \<and> at ys i = at xs k" if "b \<le> i" "i \<le> e" for i
    using step3 [OF that] x2(6) step1 by metis
  moreover have "qsort_partition cmp siz xs b e = Some (ys, s)"
    using x1(1) x2(1) ys(1) by (simp add: qsort_partition_def)
  moreover have "mset ys = mset xs" using ys(2) x2(4) x1(2) by simp
  ultimately show thesis using x2(2,3) that by blast
qed

subsection \<open>Pending segments\<close>

definition in_seg :: "int \<Rightarrow> int \<times> int \<Rightarrow> bool" where
  "in_seg i seg \<longleftrightarrow> fst seg \<le> i \<and> i \<le> snd seg"

fun apart :: "(int \<times> int) list \<Rightarrow> bool" where
  "apart [] = True"
| "apart (s # segs) = ((\<forall>t\<in>set segs. \<forall>i. \<not> (in_seg i s \<and> in_seg i t)) \<and> apart segs)"

text \<open>Everything is in order except for pairs that lie in a common pending segment.\<close>

definition ordered_but :: "('a \<Rightarrow> 'a \<Rightarrow> int) \<Rightarrow> 'a list \<Rightarrow> (int \<times> int) list \<Rightarrow> bool" where
  "ordered_but cmp xs segs \<longleftrightarrow>
     (\<forall>i j. 0 \<le> i \<and> i < j \<and> j < int (length xs) \<and> (\<forall>s\<in>set segs. \<not> (in_seg i s \<and> in_seg j s)) \<longrightarrow>
        cmp (at xs i) (at xs j) \<le> 0)"

definition sort_state :: "('a \<Rightarrow> 'a \<Rightarrow> int) \<Rightarrow> 'a list \<Rightarrow> (int \<times> int) list \<Rightarrow> bool" where
  "sort_state cmp xs segs \<longleftrightarrow> consistent cmp (set xs) \<and> apart segs \<and> ordered_but cmp xs segs"

lemma ordered_but_drop:
  assumes "ordered_but cmp xs ((b, e) # segs)" "e \<le> b"
  shows "ordered_but cmp xs segs"
proof -
  have "\<not> (in_seg i (b, e) \<and> in_seg j (b, e))" if "i < j" for i j
    using assms(2) that by (auto simp: in_seg_def)
  with assms(1) show ?thesis by (auto simp: ordered_but_def)
qed

lemma sort_state_drop: "sort_state cmp xs ((b, e) # segs) \<Longrightarrow> e \<le> b \<Longrightarrow> sort_state cmp xs segs"
  using ordered_but_drop by (auto simp: sort_state_def)

lemma sort_state_swap: "sort_state cmp xs (s # t # segs) \<Longrightarrow> sort_state cmp xs (t # s # segs)"
  unfolding sort_state_def ordered_but_def by (auto simp: disj_commute)

lemma sort_state_split:
  assumes st: "sort_state cmp xs ((b, e) # segs)" and be: "0 \<le> b" "b < e" "e < int (length xs)"
    and s: "b \<le> s" "s \<le> e" and m: "mset ys = mset xs"
    and out: "\<And>i. 0 \<le> i \<Longrightarrow> i < b \<or> e < i \<Longrightarrow> at ys i = at xs i"
    and ins: "\<And>i. b \<le> i \<Longrightarrow> i \<le> e \<Longrightarrow> \<exists>k. b \<le> k \<and> k \<le> e \<and> at ys i = at xs k"
    and part: "partitioned cmp ys b s e"
  shows "sort_state cmp ys ((b, s - 1) # (s + 1, e) # segs)"
proof -
  have set_eq: "set ys = set xs" and len: "length ys = length xs"
    using m by (auto dest: mset_eq_setD mset_eq_length)
  have cons: "consistent cmp (set ys)" using st set_eq by (simp add: sort_state_def)
  have sub: "in_seg i (b, s - 1) \<Longrightarrow> in_seg i (b, e)" "in_seg i (s + 1, e) \<Longrightarrow> in_seg i (b, e)" for i
    using s by (auto simp: in_seg_def)
  have ap: "apart ((b, s - 1) # (s + 1, e) # segs)"
  proof -
    have "\<not> (in_seg i (b, s - 1) \<and> in_seg i (s + 1, e))" for i by (auto simp: in_seg_def)
    moreover have "\<forall>t\<in>set segs. \<forall>i. \<not> (in_seg i (b, e) \<and> in_seg i t)" "apart segs"
      using st by (simp_all add: sort_state_def)
    ultimately show ?thesis using sub by auto
  qed
  have trans: "cmp (at ys i) (at ys j) \<le> 0"
    if "cmp (at ys i) (at ys k) \<le> 0" "cmp (at ys k) (at ys j) \<le> 0" "0 \<le> i" "0 \<le> j" "0 \<le> k"
      "i < int (length xs)" "j < int (length xs)" "k < int (length xs)" for i j k
  proof -
    have "at ys i \<in> set ys" "at ys j \<in> set ys" "at ys k \<in> set ys"
      using that len by (auto simp: nat_less_iff)
    with that(1,2) cons show ?thesis unfolding consistent_def by blast
  qed
  have ord: "cmp (at xs i) (at xs j) \<le> 0"
    if "0 \<le> i" "i < j" "j < int (length xs)" "\<not> (in_seg i (b, e) \<and> in_seg j (b, e))"
      "\<forall>t\<in>set segs. \<not> (in_seg i t \<and> in_seg j t)" for i j
    using st that by (auto simp: sort_state_def ordered_but_def)
  have apart_segs: "in_seg i (b, e) \<Longrightarrow> t \<in> set segs \<Longrightarrow> \<not> in_seg i t" for i t
    using st by (auto simp: sort_state_def)
  have "cmp (at ys i) (at ys j) \<le> 0"
    if ij: "0 \<le> i" "i < j" "j < int (length xs)" "\<not> (in_seg i (b, s - 1) \<and> in_seg j (b, s - 1))"
      "\<not> (in_seg i (s + 1, e) \<and> in_seg j (s + 1, e))" "\<forall>t\<in>set segs. \<not> (in_seg i t \<and> in_seg j t)" for i j
  proof (cases "in_seg i (b, e)"; cases "in_seg j (b, e)")
    assume i: "in_seg i (b, e)" and j: "in_seg j (b, e)"
    then have "i \<le> s \<and> s \<le> j" using ij by (auto simp: in_seg_def)
    with i j ij(1-3) part trans [of i s j] be show ?thesis
      by (cases "i = s"; cases "j = s") (auto simp: partitioned_def in_seg_def)
  next
    assume i: "in_seg i (b, e)" and j: "\<not> in_seg j (b, e)"
    obtain k where k: "b \<le> k" "k \<le> e" "at ys i = at xs k" using ins [of i] i by (auto simp: in_seg_def)
    have "k < j" using i j ij(2) k by (auto simp: in_seg_def)
    moreover have "at ys j = at xs j" using out [of j] j ij by (auto simp: in_seg_def)
    moreover have "\<forall>t\<in>set segs. \<not> (in_seg k t \<and> in_seg j t)"
      using apart_segs [of k] k by (auto simp: in_seg_def)
    ultimately show ?thesis using ord [of k j] k j ij(3) be by simp
  next
    assume i: "\<not> in_seg i (b, e)" and j: "in_seg j (b, e)"
    obtain k where k: "b \<le> k" "k \<le> e" "at ys j = at xs k" using ins [of j] j by (auto simp: in_seg_def)
    have "i < k" using i j ij(2) k by (auto simp: in_seg_def)
    moreover have "at ys i = at xs i" using out [of i] i ij by (auto simp: in_seg_def)
    moreover have "\<forall>t\<in>set segs. \<not> (in_seg i t \<and> in_seg k t)"
      using apart_segs [of k] k by (auto simp: in_seg_def)
    ultimately show ?thesis using ord [of i k] k i ij(1) be by simp
  next
    assume i: "\<not> in_seg i (b, e)" and j: "\<not> in_seg j (b, e)"
    then have "at ys i = at xs i" "at ys j = at xs j" using out [of i] out [of j] ij by (auto simp: in_seg_def)
    then show ?thesis using ord [of i j] ij i by simp
  qed
  then show ?thesis using cons ap len by (auto simp: sort_state_def ordered_but_def)
qed

text \<open>
  The stack: every deferred segment is non-empty and inside the array, and a segment at depth
  \<open>k\<close> has at most \<open>n / 2^k\<close> elements, since the smaller part is always done first.
\<close>

fun stack_ok :: "nat \<Rightarrow> (int \<times> int) list \<Rightarrow> bool" where
  "stack_ok n [] = True"
| "stack_ok n ((b, e) # stk) =
     (0 \<le> b \<and> b \<le> e \<and> e < int n \<and> (e - b + 1) * 2 ^ length stk \<le> int n \<and> stack_ok n stk)"

definition weight :: "int \<Rightarrow> int \<Rightarrow> nat" where
  "weight b e = nat (2 * (e - b) + 1)"

definition stack_weight :: "(int \<times> int) list \<Rightarrow> nat" where
  "stack_weight stk = sum_list (map (\<lambda>(b, e). weight b e) stk)"

lemma push_ok:
  assumes "stack_ok n stk" "0 \<le> b" "b < e" "e < int n" "(e - b + 1) * 2 ^ length stk \<le> int n" "n < 2 ^ 64"
  shows "qsort_push (b, e) stk = Some ((b, e) # stk)" "stack_ok n ((b, e) # stk)"
proof -
  have "2 * 2 ^ length stk \<le> (e - b + 1) * 2 ^ length stk" using assms(3) by (intro mult_right_mono) auto
  from order_trans [OF this assms(5)] have "(2::int) ^ Suc (length stk) \<le> int n" by simp
  also have "int n < 2 ^ 64" using assms(6) by simp
  finally have "(2::int) ^ Suc (length stk) < 2 ^ 64" .
  then have "Suc (length stk) < 64" by (rule power_less_imp_less_exp [rotated]) simp
  then show "qsort_push (b, e) stk = Some ((b, e) # stk)" by (simp add: qsort_push_def QSORT_STACK_SIZE_def)
  show "stack_ok n ((b, e) # stk)" using assms by simp
qed

lemma half_size: "x \<le> y \<Longrightarrow> (x + y + 1) * 2 ^ k \<le> n \<Longrightarrow> x * 2 ^ Suc k \<le> (n :: int)"
proof -
  assume "x \<le> y" and n: "(x + y + 1) * 2 ^ k \<le> n"
  then have "2 * x * 2 ^ k \<le> (x + y + 1) * 2 ^ k" by (intro mult_right_mono) auto
  from order_trans [OF this n] show ?thesis by (simp add: mult.assoc mult.left_commute)
qed

lemma smaller_size: "x \<le> y \<Longrightarrow> y * 2 ^ k \<le> n \<Longrightarrow> x * 2 ^ k \<le> (n :: int)"
  by (rule order_trans [OF mult_right_mono]) simp_all

definition segment_post ::
    "('a \<Rightarrow> 'a \<Rightarrow> int) \<Rightarrow> 'a list \<Rightarrow> int \<Rightarrow> int \<Rightarrow> (int \<times> int) list \<Rightarrow> 'a list \<Rightarrow> (int \<times> int) list \<Rightarrow> bool" where
  "segment_post cmp xs b e stk ys stk' \<longleftrightarrow>
     mset ys = mset xs \<and> stack_ok (length xs) stk' \<and>
     stack_weight stk' + (if b \<le> e then 1 else 0) \<le> weight b e + stack_weight stk \<and>
     (sort_state cmp xs ((b, e) # stk) \<longrightarrow> sort_state cmp ys stk')"

lemma qsort_segment_spec:
  assumes "0 \<le> b" "e < int (length xs)" "0 < siz" "length xs < 2 ^ 64" "stack_ok (length xs) stk"
    and "(e - b + 1) * 2 ^ length stk \<le> int (length xs)"
  shows "\<exists>ys stk'. qsort_segment cmp siz xs b e stk = Some (ys, stk') \<and> segment_post cmp xs b e stk ys stk'"
  using assms
proof (induction "nat (e - b + 1)" arbitrary: xs b e stk rule: less_induct)
  case less
  show ?case
  proof (cases "b < e")
    case False
    then have "qsort_segment cmp siz xs b e stk = Some (xs, stk)" by (subst qsort_segment.simps) simp
    moreover have "segment_post cmp xs b e stk xs stk"
      using False less.prems sort_state_drop [of cmp xs b e stk] by (auto simp: segment_post_def weight_def)
    ultimately show ?thesis by blast
  next
    case True
    obtain ys s where P: "qsort_partition cmp siz xs b e = Some (ys, s)" "b \<le> s" "s \<le> e" "mset ys = mset xs"
      "\<And>i. 0 \<le> i \<Longrightarrow> i < b \<or> e < i \<Longrightarrow> at ys i = at xs i"
      "\<And>i. b \<le> i \<Longrightarrow> i \<le> e \<Longrightarrow> \<exists>k. b \<le> k \<and> k \<le> e \<and> at ys i = at xs k"
      "antisym_on cmp (set xs) \<Longrightarrow> partitioned cmp ys b s e"
      by (rule qsort_partition_spec [OF less.prems(1) True less.prems(2,3)]) blast
    have len: "length ys = length xs" using P(4) by (rule mset_eq_length)
    have split: "sort_state cmp ys ((b, s - 1) # (s + 1, e) # stk)" if "sort_state cmp xs ((b, e) # stk)"
    proof (rule sort_state_split [OF that less.prems(1) True less.prems(2) P(2-6)])
      show "partitioned cmp ys b s e"
        using that P(7) by (simp add: sort_state_def consistent_def antisym_on_def)
    qed
    show ?thesis
    proof (cases "s - b \<le> e - s")
      case small: True
      let ?push = "s + 1 < e"
      define stk1 where "stk1 = (if ?push then (s + 1, e) # stk else stk)"
      have psz: "(e - (s + 1) + 1) * 2 ^ length stk \<le> int (length xs)"
        by (rule smaller_size [OF _ less.prems(6)]) (use P(2) in simp)
      have push: "(if ?push then qsort_push (s + 1, e) stk else Some stk) = Some stk1" "stack_ok (length xs) stk1"
        using push_ok [OF less.prems(5), of "s + 1" e] less.prems(1,2,4,5) psz P(2) by (auto simp: stk1_def)
      have sz: "(s - 1 - b + 1) * 2 ^ length stk1 \<le> int (length xs)"
      proof (cases ?push)
        case True
        have "((s - b) + (e - s) + 1) * 2 ^ length stk \<le> int (length xs)" using less.prems(6) by simp
        from half_size [OF small this] show ?thesis by (simp add: stk1_def True)
      next
        case False
        have "(s - b) * 2 ^ length stk \<le> int (length xs)" by (rule smaller_size [OF _ less.prems(6)]) (use P(3) in simp)
        with False show ?thesis by (simp add: stk1_def)
      qed
      have meas: "nat (s - 1 - b + 1) < nat (e - b + 1)" using True P(2,3) by simp
      obtain zs stk' where Z: "qsort_segment cmp siz ys b (s - 1) stk1 = Some (zs, stk')"
        "segment_post cmp ys b (s - 1) stk1 zs stk'"
        using less.hyps [OF meas, of ys stk1] less.prems(1-4) push(2) sz len P(3) by auto
      have run: "qsort_segment cmp siz xs b e stk = Some (zs, stk')"
        using True P(1) small push(1) Z(1) by (subst qsort_segment.simps) simp
      have w: "weight b (s - 1) + stack_weight stk1 + 1 \<le> weight b e + stack_weight stk"
        using P(2,3) True by (auto simp: weight_def stack_weight_def stk1_def)
      have st: "sort_state cmp ys ((b, s - 1) # stk1)" if "sort_state cmp xs ((b, e) # stk)"
      proof (cases ?push)
        case False
        with sort_state_drop [OF sort_state_swap [OF split [OF that]]] show ?thesis by (simp add: stk1_def)
      qed (use split [OF that] in \<open>simp add: stk1_def\<close>)
      have "segment_post cmp xs b e stk zs stk'"
        using Z(2) P(4) len w st True by (auto simp: segment_post_def split: if_splits)
      with run show ?thesis by blast
    next
      case small: False
      let ?push = "s - 1 > b"
      define stk1 where "stk1 = (if ?push then (b, s - 1) # stk else stk)"
      have psz: "(s - 1 - b + 1) * 2 ^ length stk \<le> int (length xs)"
        by (rule smaller_size [OF _ less.prems(6)]) (use P(3) in simp)
      have push: "(if ?push then qsort_push (b, s - 1) stk else Some stk) = Some stk1" "stack_ok (length xs) stk1"
        using push_ok [OF less.prems(5), of b "s - 1"] less.prems(1,2,4,5) psz P(3) by (auto simp: stk1_def)
      have sz: "(e - (s + 1) + 1) * 2 ^ length stk1 \<le> int (length xs)"
      proof (cases ?push)
        case True
        have "((e - s) + (s - b) + 1) * 2 ^ length stk \<le> int (length xs)" using less.prems(6) by simp
        from half_size [OF _ this] small show ?thesis by (simp add: stk1_def True)
      next
        case False
        have "(e - s) * 2 ^ length stk \<le> int (length xs)" by (rule smaller_size [OF _ less.prems(6)]) (use P(2) in simp)
        with False show ?thesis by (simp add: stk1_def)
      qed
      have meas: "nat (e - (s + 1) + 1) < nat (e - b + 1)" using True P(2,3) by simp
      obtain zs stk' where Z: "qsort_segment cmp siz ys (s + 1) e stk1 = Some (zs, stk')"
        "segment_post cmp ys (s + 1) e stk1 zs stk'"
        using less.hyps [OF meas, of ys stk1] less.prems(1-4) push(2) sz len P(2) by auto
      have run: "qsort_segment cmp siz xs b e stk = Some (zs, stk')"
        using True P(1) small push(1) Z(1) by (subst qsort_segment.simps) simp
      have w: "weight (s + 1) e + stack_weight stk1 + 1 \<le> weight b e + stack_weight stk"
        using P(2,3) True small by (auto simp: weight_def stack_weight_def stk1_def)
      have st: "sort_state cmp ys ((s + 1, e) # stk1)" if "sort_state cmp xs ((b, e) # stk)"
      proof (cases ?push)
        case False
        with sort_state_drop [OF split [OF that]] show ?thesis by (simp add: stk1_def)
      qed (use sort_state_swap [OF split [OF that]] in \<open>simp add: stk1_def\<close>)
      have "segment_post cmp xs b e stk zs stk'"
        using Z(2) P(4) len w st True by (auto simp: segment_post_def split: if_splits)
      with run show ?thesis by blast
    qed
  qed
qed

lemma qsort_loop_spec:
  assumes "0 < siz" "length xs < 2 ^ 64" "stack_ok (length xs) stk"
  shows "\<exists>ys. qsort_loop cmp siz xs stk = Some ys \<and> mset ys = mset xs \<and>
     (sort_state cmp xs stk \<longrightarrow> sort_state cmp ys [])"
  using assms
proof (induction "stack_weight stk" arbitrary: xs stk rule: less_induct)
  case less
  show ?case
  proof (cases stk)
    case Nil
    then show ?thesis by (subst qsort_loop.simps) auto
  next
    case (Cons seg stk0)
    obtain b e where seg: "seg = (b, e)" by (cases seg)
    have ok: "0 \<le> b" "b \<le> e" "e < int (length xs)" "(e - b + 1) * 2 ^ length stk0 \<le> int (length xs)"
      "stack_ok (length xs) stk0"
      using less.prems(3) by (auto simp: Cons seg)
    obtain ys stk' where S: "qsort_segment cmp siz xs b e stk0 = Some (ys, stk')" "segment_post cmp xs b e stk0 ys stk'"
      using qsort_segment_spec [OF ok(1,3) less.prems(1,2) ok(5,4)] by blast
    have len: "length ys = length xs" using S(2) by (auto simp: segment_post_def dest: mset_eq_length)
    have "stack_weight stk' < stack_weight stk"
      using S(2) ok(2) by (simp add: segment_post_def Cons seg stack_weight_def)
    from less.hyps [OF this, of ys] S(2) len less.prems(1,2) obtain zs where
      "qsort_loop cmp siz ys stk' = Some zs" "mset zs = mset ys" "sort_state cmp ys stk' \<longrightarrow> sort_state cmp zs []"
      by (auto simp: segment_post_def)
    with S show ?thesis
      by (subst qsort_loop.simps) (auto simp: Cons seg segment_post_def)
  qed
qed

lemma ordered_sorted: "ordered_but cmp xs [] \<Longrightarrow> sorted_wrt (\<lambda>x y. cmp x y \<le> 0) xs"
  unfolding sorted_wrt_iff_nth_less
proof (intro allI impI)
  fix i j assume o: "ordered_but cmp xs []" and ij: "i < j" "j < length xs"
  have "0 \<le> int i \<and> int i < int j \<and> int j < int (length xs)" using ij by simp
  with o have "cmp (at xs (int i)) (at xs (int j)) \<le> 0" unfolding ordered_but_def by (metis empty_iff list.set(1))
  then show "cmp (xs ! i) (xs ! j) \<le> 0" by simp
qed

lemma zend_qsort_spec:
  assumes "0 < siz" "length xs < 2 ^ 64"
  shows "\<exists>ys. zend_qsort siz cmp xs = Some ys \<and> mset ys = mset xs \<and>
     (consistent cmp (set xs) \<longrightarrow> sorted_wrt (\<lambda>x y. cmp x y \<le> 0) ys)"
proof (cases "xs = []")
  case True
  then show ?thesis
    by (simp add: zend_qsort_def zend_qsort_r_def qsort_loop.simps [of _ _ _ "_ # _"] qsort_segment.simps
          qsort_loop.simps [of _ _ _ "[]"])
next
  case False
  let ?stk = "[(0, int (length xs) - 1)]"
  have "stack_ok (length xs) ?stk" using False by (simp add: Suc_le_eq)
  from qsort_loop_spec [OF assms this, of cmp] obtain ys where
    Q: "qsort_loop cmp siz xs ?stk = Some ys" "mset ys = mset xs" "sort_state cmp xs ?stk \<longrightarrow> sort_state cmp ys []"
    by blast
  have "consistent cmp (set xs) \<Longrightarrow> sort_state cmp xs ?stk"
    by (auto simp: sort_state_def ordered_but_def in_seg_def)
  with Q ordered_sorted [of cmp ys] show ?thesis
    by (auto simp: zend_qsort_def zend_qsort_r_def sort_state_def)
qed

text \<open>The interface holds for the routine at every element size.\<close>

interpretation zq: sorter "zend_qsort (Suc k)" "2 ^ 64"
proof
  fix xs :: "'a list" and cmp ys
  assume len: "length xs < 2 ^ 64"
  from zend_qsort_spec [OF _ len, of "Suc k" cmp] show "\<exists>ys. zend_qsort (Suc k) cmp xs = Some ys \<and> mset ys = mset xs"
    by auto
  assume "consistent cmp (set xs)" "zend_qsort (Suc k) cmp xs = Some ys"
  with zend_qsort_spec [OF _ len, of "Suc k" cmp] show "sorted_wrt (\<lambda>x y. cmp x y \<le> 0) ys" by auto
qed

subsection \<open>The byte swap\<close>

text \<open>Two blocks of which the first \<open>k\<close> bytes have been exchanged.\<close>

definition mixed :: "'b list \<Rightarrow> 'b list \<Rightarrow> nat \<Rightarrow> 'b list \<times> 'b list" where
  "mixed a b k = (take k b @ drop k a, take k a @ drop k b)"

lemma mixed_step:
  assumes "k < length a" "length b = length a"
  shows "swap_range k (Suc n) (mixed a b k) = swap_range (Suc k) n (mixed a b (Suc k))"
  using assms by (simp add: mixed_def nth_append take_Suc_conv_app_nth list_update_append flip: Cons_nth_drop_Suc)

lemma swap_range_mixed:
  "k + n \<le> length a \<Longrightarrow> length b = length a \<Longrightarrow> swap_range k n (mixed a b k) = mixed a b (k + n)"
  by (induction n arbitrary: k) (simp_all add: mixed_step)

lemma swap_ints_mixed:
  "length b = length a \<Longrightarrow> sizeof_int \<le> i \<Longrightarrow> i - sizeof_int \<le> length a \<Longrightarrow>
   \<exists>i'. swap_ints (length a) i (mixed a b (i - sizeof_int)) = (i', mixed a b (i' - sizeof_int)) \<and>
        sizeof_int \<le> i' \<and> i' - sizeof_int \<le> length a"
proof (induction "Suc (length a) - i" arbitrary: i rule: less_induct)
  case less
  show ?case
  proof (cases "i \<le> length a")
    case False
    with less.prems show ?thesis by (subst swap_ints.simps) simp
  next
    case True
    have "swap_range (i - sizeof_int) sizeof_int (mixed a b (i - sizeof_int)) = mixed a b (i + sizeof_int - sizeof_int)"
      using swap_range_mixed [of "i - sizeof_int" sizeof_int a b] less.prems True by simp
    moreover have "Suc (length a) - (i + sizeof_int) < Suc (length a) - i" using True by (simp add: sizeof_int_def)
    ultimately show ?thesis
      using True less.prems less.hyps [of "i + sizeof_int"] by (subst swap_ints.simps) simp
  qed
qed

lemma swap_chars_mixed:
  "length b = length a \<Longrightarrow> 1 \<le> i \<Longrightarrow> i \<le> Suc (length a) \<Longrightarrow>
   swap_chars (length a) i (mixed a b (i - 1)) = mixed a b (length a)"
proof (induction "Suc (length a) - i" arbitrary: i rule: less_induct)
  case less
  show ?case
  proof (cases "i \<le> length a")
    case False
    with less.prems have "i = Suc (length a)" by simp
    then show ?thesis by (subst swap_chars.simps) simp
  next
    case True
    have "swap_range (i - 1) 1 (mixed a b (i - 1)) = mixed a b (i + 1 - 1)"
      using swap_range_mixed [of "i - 1" 1 a b] less.prems True by simp
    then show ?thesis
      using True less.prems less.hyps [of "i + 1"] by (subst swap_chars.simps) simp
  qed
qed

lemma swap_bytes:
  assumes "length a = siz" "length b = siz"
  shows "zend_qsort_swap siz (a, b) = (b, a)"
proof -
  have m0: "(a, b) = mixed a b (sizeof_int - sizeof_int)" by (simp add: mixed_def)
  obtain i' where i': "swap_ints siz sizeof_int (a, b) = (i', mixed a b (i' - sizeof_int))"
    "sizeof_int \<le> i'" "i' - sizeof_int \<le> length a"
    using swap_ints_mixed [of b a sizeof_int] assms m0 by auto
  then show ?thesis
    using swap_chars_mixed [of b a "i' - sizeof_int + 1"] assms
    by (simp add: zend_qsort_swap_def mixed_def)
qed

subsection \<open>Properties\<close>

text \<open>
  C13. \<open>zend_qsort\<close> sorts: on every array it returns, reads and writes inside the array
  only and never overflows its stack of 64 segments, whatever the comparison function
  answers; the result is a permutation of the input, and it is in order when the comparison
  is a consistent total preorder on the elements.
\<close>

theorem zend_qsort_sorts:
  assumes "0 < siz" "length xs < 2 ^ 64"
  shows "\<exists>ys. zend_qsort siz compare xs = Some ys \<and> mset ys = mset xs \<and>
     (consistent compare (set xs) \<longrightarrow> sorted_wrt (\<lambda>x y. compare x y \<le> 0) ys)"
  by (rule zend_qsort_spec [OF assms])

theorem zend_qsort_sorts_witness:
  "\<exists>ys. zend_qsort 8 (\<lambda>x y. x - y) [3, 1, 2, 1 :: int] = Some ys \<and> mset ys = {#1, 1, 2, 3#} \<and> sorted_wrt (\<lambda>x y. x - y \<le> 0) ys"
  using zend_qsort_sorts [of 8 "[3, 1, 2, 1 :: int]" "\<lambda>x y. x - y"] by (auto simp: consistent_def)

text \<open>
  \<open>_zend_qsort_swap\<close> exchanges two disjoint blocks of any size exactly, although it
  moves four bytes at a time and finishes with single bytes.
\<close>

theorem qsort_swap_exchanges:
  assumes "length a = siz" "length b = siz"
  shows "zend_qsort_swap siz (a, b) = (b, a)"
  by (rule swap_bytes [OF assms])

theorem qsort_swap_exchanges_witness:
  "zend_qsort_swap 6 ([1, 2, 3, 4, 5, 6], [7, 8, 9, 10, 11, 12 :: nat]) = ([7, 8, 9, 10, 11, 12], [1, 2, 3, 4, 5, 6])"
  by (rule qsort_swap_exchanges) simp_all

end
