(* ===== verification/Zend_Hash_Sort.thy ===== *)
theory Zend_Hash_Sort
  imports Zend_Hash_Copy Zend_Qsort
begin

text \<open>
  Operations that reorder or renumber a whole table: \<open>zend_hash_reindex\<close>,
  \<open>zend_hash_sort\<close>, \<open>zend_hash_splice\<close>, and the ones that compare whole tables,
  \<open>zend_hash_compare\<close> and \<open>zend_hash_minmax\<close>. The sort routine is a parameter, as it
  is in C (a function pointer).
\<close>

unbundle bit_operations_syntax

subsection \<open>Renumbering\<close>

partial_function (option) reindex_loop ::
    "bool \<Rightarrow> ptr \<Rightarrow> ulong \<Rightarrow> 'v HashTable \<Rightarrow> ('v HashTable \<times> ulong) option" where
  "reindex_loop only_integer_keys p offset ht =
     (case p of None \<Rightarrow> Some (ht, offset)
      | Some a \<Rightarrow> do {
          b \<leftarrow> bheap ht a;
          let hit = (\<not> only_integer_keys \<or> nKeyLength b = 0);
          ht \<leftarrow> (if hit then wr a (\<lambda>b. b\<lparr>bkt_h := offset, nKeyLength := 0\<rparr>) ht else Some ht);
          let offset = (if hit then offset + 1 else offset);
          b \<leftarrow> bheap ht a;
          hd \<leftarrow> rd_slot (nIndex (bkt_h b) ht) ht;
          ht \<leftarrow> CONNECT_TO_BUCKET_DLLIST a hd ht;
          ht \<leftarrow> wr_slot (nIndex (bkt_h b) ht) (Some a) ht;
          b \<leftarrow> bheap ht a;
          reindex_loop only_integer_keys (pListNext b) offset ht })"

declare reindex_loop.simps [code]

definition zend_hash_reindex :: "bool \<Rightarrow> 'v HashTable \<Rightarrow> 'v HashTable option" where
  "zend_hash_reindex only_integer_keys ht =
     (if nNumOfElements ht = 0 then Some (ht\<lparr>nNextFreeElement := 0\<rparr>)
      else do {
        (ht, offset) \<leftarrow> reindex_loop only_integer_keys (pListHead ht) 0
                          (ht\<lparr>arBuckets := replicate (unat (nTableSize ht)) None\<rparr>);
        Some (ht\<lparr>nNextFreeElement := offset\<rparr>) })"

subsection \<open>Sorting\<close>

text \<open>The bucket pointers in list order (\<open>arTmp\<close>).\<close>

partial_function (option) collect :: "'v Bucket heap \<Rightarrow> ptr \<Rightarrow> nat list option" where
  "collect m p =
     (case p of None \<Rightarrow> Some []
      | Some a \<Rightarrow> do { b \<leftarrow> m a; as \<leftarrow> collect m (pListNext b); Some (a # as) })"

declare collect.simps [code]

text \<open>Linking the buckets in the order of the sorted array.\<close>

fun relink :: "ptr \<Rightarrow> nat list \<Rightarrow> 'v HashTable \<Rightarrow> 'v HashTable option" where
  "relink q [] ht = Some ht"
| "relink q (a # as) ht = do {
     ht \<leftarrow> wr a (\<lambda>b. b\<lparr>pListLast := q, pListNext := (case as of [] \<Rightarrow> None | c # _ \<Rightarrow> Some c)\<rparr>) ht;
     relink (Some a) as ht }"

type_synonym 'a compare_func = "'a \<Rightarrow> 'a \<Rightarrow> int"
type_synonym 'a sort_func = "'a compare_func \<Rightarrow> 'a list \<Rightarrow> 'a list option"

definition zend_hash_sort ::
    "nat sort_func \<Rightarrow> 'v Bucket compare_func \<Rightarrow> bool \<Rightarrow> 'v HashTable \<Rightarrow> 'v HashTable option" where
  "zend_hash_sort sort_func compar renumber ht =
     (if \<not> nNumOfElements ht > 1 \<and> \<not> (renumber \<and> nNumOfElements ht > 0) then Some ht
      else do {
        arTmp \<leftarrow> collect (bheap ht) (pListHead ht);
        arTmp \<leftarrow> sort_func (\<lambda>a c. compar (the (bheap ht a)) (the (bheap ht c))) arTmp;
        (case arTmp of [] \<Rightarrow> None
         | first # _ \<Rightarrow> do {
             ht \<leftarrow> relink None arTmp
                    (ht\<lparr>pListHead := Some first, pListTail := None, pInternalPointer := Some first\<rparr>);
             let ht = ht\<lparr>pListTail := Some (last arTmp)\<rparr>;
             if renumber then zend_hash_reindex False ht else Some ht }) })"

subsection \<open>Splicing\<close>

text \<open>Skipping to the offset.\<close>

partial_function (option) splice_skip :: "uint \<Rightarrow> uint \<Rightarrow> ptr \<Rightarrow> 'v HashTable \<Rightarrow> (uint \<times> ptr) option" where
  "splice_skip offset pos p ht =
     (case p of None \<Rightarrow> Some (pos, None)
      | Some a \<Rightarrow>
          if pos < offset then do { b \<leftarrow> bheap ht a; splice_skip offset (pos + 1) (pListNext b) ht }
          else Some (pos, Some a))"

declare splice_skip.simps [code]

definition splice_save ::
    "('v \<Rightarrow> 'v) option \<Rightarrow> 'v Bucket \<Rightarrow> 'v HashTable option \<Rightarrow> 'v HashTable option option" where
  "splice_save ctor b removed =
     (case removed of None \<Rightarrow> Some None
      | Some rt \<Rightarrow> do {
          (r, new_entry, rt) \<leftarrow>
            (if nKeyLength b = 0 then zend_hash_next_index_insert (stored (pData b)) sizeof_ptr rt
             else zend_hash_quick_add_or_update (arKey b) (nKeyLength b) (bkt_h b) (stored (pData b)) sizeof_ptr
                    HASH_UPDATE rt);
          rt \<leftarrow> construct ctor new_entry rt;
          Some (Some rt) })"

partial_function (option) splice_remove ::
    "('v \<Rightarrow> 'v) option \<Rightarrow> uint \<Rightarrow> uint \<Rightarrow> ptr \<Rightarrow> 'v HashTable \<Rightarrow> 'v HashTable option \<Rightarrow>
     (ptr \<times> 'v HashTable \<times> 'v HashTable option) option" where
  "splice_remove ctor stop pos p ht removed =
     (case p of None \<Rightarrow> Some (None, ht, removed)
      | Some a \<Rightarrow>
          if pos < stop then do {
            b \<leftarrow> bheap ht a;
            removed \<leftarrow> splice_save ctor b removed;
            ht \<leftarrow> zend_hash_bucket_delete a ht;
            splice_remove ctor stop (pos + 1) (pListNext b) ht removed }
          else Some (Some a, ht, removed))"

declare splice_remove.simps [code]

text \<open>
  One new element: linked into the element list only. Its chain links stay uninitialised
  until the table is reindexed; no operation in between reads them.
\<close>

definition splice_insert1 ::
    "('v \<Rightarrow> 'v) option \<Rightarrow> uint \<Rightarrow> ptr \<Rightarrow> 'v \<Rightarrow> 'v HashTable \<Rightarrow> 'v HashTable option" where
  "splice_insert1 ctor nDataSize p v ht = do {
     let (q, ht) = pemalloc_bucket (new_int_bucket 0 v nDataSize) ht;
     lst \<leftarrow> (case p of Some a \<Rightarrow> do { b \<leftarrow> bheap ht a; Some (pListLast b) } | None \<Rightarrow> Some (pListTail ht));
     ht \<leftarrow> CONNECT_TO_GLOBAL_DLLIST_EX q lst p ht;
     construct ctor (Some q) (ht\<lparr>nNumOfElements := nNumOfElements ht + 1\<rparr>) }"

fun splice_insert ::
    "('v \<Rightarrow> 'v) option \<Rightarrow> uint \<Rightarrow> ptr \<Rightarrow> 'v list \<Rightarrow> 'v HashTable \<Rightarrow> 'v HashTable option" where
  "splice_insert ctor nDataSize p [] ht = Some ht"
| "splice_insert ctor nDataSize p (v # vs) ht = do {
     ht \<leftarrow> splice_insert1 ctor nDataSize p v ht;
     splice_insert ctor nDataSize p vs ht }"

text \<open>\<open>lst\<close> is the array \<open>list\<close> with its \<open>list_count\<close> elements, \<open>None\<close> when it is null.\<close>

definition zend_hash_splice ::
    "uint \<Rightarrow> ('v \<Rightarrow> 'v) option \<Rightarrow> uint \<Rightarrow> uint \<Rightarrow> 'v list option \<Rightarrow> 'v HashTable option \<Rightarrow> 'v HashTable \<Rightarrow>
     ('v HashTable \<times> 'v HashTable option) option" where
  "zend_hash_splice nDataSize ctor offset len lst removed ht0 = do {
     let ht = CHECK_INIT ht0;
     (pos, p) \<leftarrow> splice_skip offset 0 (pListHead ht) ht;
     (p, ht, removed) \<leftarrow> splice_remove ctor (offset + len) pos p ht removed;
     ht \<leftarrow> (case lst of None \<Rightarrow> Some ht
           | Some vs \<Rightarrow> do { ht \<leftarrow> splice_insert ctor nDataSize p vs ht; ZEND_HASH_IF_FULL_DO_RESIZE ht });
     ht \<leftarrow> zend_hash_reindex True ht;
     Some (ht, removed) }"

subsection \<open>Comparing\<close>

text \<open>\<open>memcmp\<close> fixes only the sign of its result; bytes compare as unsigned.\<close>

fun memcmp_sgn :: "string \<Rightarrow> string \<Rightarrow> int" where
  "memcmp_sgn (c # cs) (d # ds) =
     (if (of_char c :: nat) < of_char d then - 1 else if (of_char d :: nat) < of_char c then 1
      else memcmp_sgn cs ds)"
| "memcmp_sgn _ _ = 0"

definition int_of_uint :: "uint \<Rightarrow> int" where
  "int_of_uint w = sint w"

text \<open>
  One round: \<open>Inl r\<close> returns \<open>r\<close> from the function, \<open>Inr d\<close> goes on to compare the
  elements, \<open>d\<close> being the one of the second table.
\<close>

definition compare_keys_ordered :: "'v Bucket \<Rightarrow> 'v Bucket \<Rightarrow> int" where
  "compare_keys_ordered b1 b2 =
     (if nKeyLength b1 = 0 \<and> nKeyLength b2 = 0
      then (if bkt_h b1 \<noteq> bkt_h b2 then (if bkt_h b1 > bkt_h b2 then 1 else - 1) else 0)
      else let result = int_of_uint (nKeyLength b1 - nKeyLength b2)
           in if result \<noteq> 0 then result
              else memcmp_sgn (take (unat (nKeyLength b1)) (chars (arKey b1)))
                     (take (unat (nKeyLength b1)) (chars (arKey b2))))"

definition compare_partner ::
    "bool \<Rightarrow> 'v HashTable \<Rightarrow> 'v Bucket \<Rightarrow> ptr \<Rightarrow> (int + 'v) option" where
  "compare_partner ordered ht2 b1 p2 =
     (if ordered then
        (case p2 of None \<Rightarrow> Some (Inl 1)
         | Some a2 \<Rightarrow> do {
             b2 \<leftarrow> bheap ht2 a2;
             let result = compare_keys_ordered b1 b2;
             Some (if result \<noteq> 0 then Inl result else Inr (stored (pData b2))) })
      else do {
        d \<leftarrow> (if nKeyLength b1 = 0 then zend_hash_index_find (bkt_h b1) ht2
              else zend_hash_quick_find (arKey b1) (nKeyLength b1) (bkt_h b1) ht2);
        Some (case d of None \<Rightarrow> Inl 1 | Some v \<Rightarrow> Inr v) })"

partial_function (option) compare_loop ::
    "'v compare_func \<Rightarrow> bool \<Rightarrow> 'v HashTable \<Rightarrow> 'v HashTable \<Rightarrow> ptr \<Rightarrow> ptr \<Rightarrow> int option" where
  "compare_loop compar ordered ht1 ht2 p1 p2 =
     (case p1 of None \<Rightarrow> Some 0
      | Some a1 \<Rightarrow> do {
          b1 \<leftarrow> bheap ht1 a1;
          d \<leftarrow> compare_partner ordered ht2 b1 p2;
          (case d of Inl result \<Rightarrow> Some result
           | Inr v2 \<Rightarrow>
               if compar (stored (pData b1)) v2 \<noteq> 0 then Some (compar (stored (pData b1)) v2)
               else do {
                 p2 \<leftarrow> (case p2 of Some a2 \<Rightarrow> if ordered then do { b2 \<leftarrow> bheap ht2 a2; Some (pListNext b2) }
                                             else Some p2
                                 | None \<Rightarrow> Some None);
                 compare_loop compar ordered ht1 ht2 (pListNext b1) p2 }) })"

declare compare_loop.simps [code]

text \<open>\<open>Inl\<close>: the fatal nesting error; \<open>Inr\<close>: the result with the two tables.\<close>

definition zend_hash_compare ::
    "'v compare_func \<Rightarrow> bool \<Rightarrow> 'v HashTable \<Rightarrow> 'v HashTable \<Rightarrow>
     ('v HashTable \<times> 'v HashTable + int \<times> 'v HashTable \<times> 'v HashTable) option" where
  "zend_hash_compare compar ordered ht1 ht2 =
     (case HASH_PROTECT_RECURSION ht1 of Inl ht1 \<Rightarrow> Some (Inl (ht1, ht2))
      | Inr ht1 \<Rightarrow>
        (case HASH_PROTECT_RECURSION ht2 of Inl ht2 \<Rightarrow> Some (Inl (ht1, ht2))
         | Inr ht2 \<Rightarrow> do {
             let diff = int_of_uint (nNumOfElements ht1 - nNumOfElements ht2);
             result \<leftarrow> (if diff \<noteq> 0 then Some diff
                        else compare_loop compar ordered ht1 ht2 (pListHead ht1)
                               (if ordered then pListHead ht2 else None));
             Some (Inr (result, HASH_UNPROTECT_RECURSION ht1, HASH_UNPROTECT_RECURSION ht2)) }))"

partial_function (option) minmax_loop ::
    "'v Bucket compare_func \<Rightarrow> bool \<Rightarrow> 'v Bucket heap \<Rightarrow> 'v Bucket \<Rightarrow> ptr \<Rightarrow> 'v Bucket option" where
  "minmax_loop compar flag m res p =
     (case p of None \<Rightarrow> Some res
      | Some a \<Rightarrow> do {
          b \<leftarrow> m a;
          let res = (if flag then (if compar res b < 0 then b else res)
                     else (if compar res b > 0 then b else res));
          minmax_loop compar flag m res (pListNext b) })"

declare minmax_loop.simps [code]

definition zend_hash_minmax ::
    "'v Bucket compare_func \<Rightarrow> bool \<Rightarrow> 'v HashTable \<Rightarrow> (zresult \<times> 'v option) option" where
  "zend_hash_minmax compar flag ht =
     (if nNumOfElements ht = 0 then Some (FAILURE, None)
      else (case pListHead ht of None \<Rightarrow> None
            | Some a \<Rightarrow> do {
                b \<leftarrow> bheap ht a;
                res \<leftarrow> minmax_loop compar flag (bheap ht) b (pListNext b);
                Some (SUCCESS, Some (stored (pData res))) }))"

subsection \<open>Renumbering: the effect on the keys\<close>

definition renumbers :: "bool \<Rightarrow> 'v binfo \<Rightarrow> bool" where
  "renumbers oi x \<longleftrightarrow> (case x of (hv, kl, key, d) \<Rightarrow> \<not> oi \<or> kl = 0)"

fun renum_info :: "ulong \<Rightarrow> 'v binfo \<Rightarrow> 'v binfo" where
  "renum_info off (hv, kl, key, d) = (off, 0, key, d)"

fun renum :: "bool \<Rightarrow> ulong \<Rightarrow> nat list \<Rightarrow> (nat \<Rightarrow> 'v binfo option) \<Rightarrow> (nat \<Rightarrow> 'v binfo option) \<times> ulong" where
  "renum oi off [] I = (I, off)"
| "renum oi off (a # as) I =
     (if renumbers oi (the (I a)) then renum oi (off + 1) as (I(a \<mapsto> renum_info off (the (I a))))
      else renum oi off as I)"

lemma renum_other: "a \<notin> set ps \<Longrightarrow> fst (renum oi off ps I) a = I a"
  by (induction ps arbitrary: off I) auto

lemma bheap_upd_of: "ht\<lparr>bheap := m, arBuckets := B\<rparr>\<lparr>bheap := m', arBuckets := B'\<rparr> = ht\<lparr>bheap := m', arBuckets := B'\<rparr>"
  by simp

lemma reindex_loop_chains:
  assumes "dseg (lview (bheap ht)) q todo None" "distinct todo" "set todo \<subseteq> dom (bheap ht)"
    and "chain_inv (cview (bheap ht)) (arBuckets ht) (slot_of (nTableMask ht) (iview (bheap ht))) S"
    and "S \<subseteq> dom (bheap ht)" "S \<inter> set todo = {}" "table_ok ht" "nTableMask ht \<noteq> 0"
  shows "\<exists>m' B'. reindex_loop oi (hd_or None todo) off ht =
             Some (ht\<lparr>bheap := m', arBuckets := B'\<rparr>, snd (renum oi off todo (iview (bheap ht)))) \<and>
           lview m' = lview (bheap ht) \<and> iview m' = fst (renum oi off todo (iview (bheap ht))) \<and>
           length B' = length (arBuckets ht) \<and>
           chain_inv (cview m') B' (slot_of (nTableMask ht) (iview m')) (S \<union> set todo)"
  using assms
proof (induction todo arbitrary: ht q S off)
  case Nil
  then show ?case
    by (intro exI [of _ "bheap ht"] exI [of _ "arBuckets ht"])
       (simp add: reindex_loop.simps [of _ None])
next
  case (Cons a todo)
  let ?B = "arBuckets ht"
  from Cons.prems(3) obtain b0 where b0: "bheap ht a = Some b0" by auto
  have bi: "iview (bheap ht) a = Some (binfo_of b0)" using b0 by (simp add: heap_simps)
  let ?hit = "\<not> oi \<or> nKeyLength b0 = 0"
  define b where "b = (if ?hit then b0\<lparr>bkt_h := off, nKeyLength := 0\<rparr> else b0)"
  define off' where "off' = (if ?hit then off + 1 else off)"
  let ?ht0 = "ht\<lparr>bheap := (bheap ht)(a \<mapsto> b)\<rparr>"
  have w: "(if ?hit then wr a (\<lambda>b. b\<lparr>bkt_h := off, nKeyLength := 0\<rparr>) ht else Some ht) = Some ?ht0"
    using b0 by (simp add: wr_def b_def fun_upd_same)
  have links: "pListNext b = pListNext b0" "pListLast b = pListLast b0" "pNext b = pNext b0" "pLast b = pLast b0"
    by (simp_all add: b_def)
  have v0: "lview (bheap ?ht0) = lview (bheap ht)" "cview (bheap ?ht0) = cview (bheap ht)"
    "iview (bheap ?ht0) = (iview (bheap ht))(a \<mapsto> binfo_of b)"
    using b0 by (auto simp: heap_simps links fun_upd_same)
  have ren: "renum oi off (a # todo) (iview (bheap ht)) = renum oi off' todo (iview (bheap ?ht0))"
    using bi by (auto simp: renumbers_def binfo_of_def b_def off'_def view_upd(3) fun_upd_same)
  let ?ix = "slot_of (nTableMask ht) (iview (bheap ?ht0))"
  have aS: "a \<notin> S" using Cons.prems(6) by auto
  have ch0: "chain_inv (cview (bheap ?ht0)) ?B ?ix S"
    using Cons.prems(4) unfolding v0(2) by (rule iffD1 [OF chain_inv_cong, rotated 2]) (use aS in \<open>auto simp: view_upd(3) slot_of_def\<close>)
  have ok0: "table_ok ?ht0" using Cons.prems(7) by (simp add: table_ok_def)
  have next_b: "pListNext b = hd_or None todo"
    using Cons.prems(1) b0 by (simp add: heap_simps links)
  have ba: "bheap ?ht0 a = Some b" by simp
  have ixa: "?ix a = nIndex (bkt_h b) ?ht0" using slot_of_nIndex [of "bheap ?ht0" a b ?ht0, OF ba] by simp
  have i: "nIndex (bkt_h b) ?ht0 < length ?B" using nIndex_bound [OF ok0] by simp
  have head: "?B ! nIndex (bkt_h b) ?ht0 = Some n \<Longrightarrow> n \<noteq> a \<and> n \<in> dom (bheap ?ht0)" for n
    using chain_inv_head [OF ch0 i] Cons.prems(5) aS by auto
  let ?h = "?B ! nIndex (bkt_h b) ?ht0"
  obtain m1 where m1: "CONNECT_TO_BUCKET_DLLIST a ?h ?ht0 = Some (?ht0\<lparr>bheap := m1\<rparr>)"
    "same_list (bheap ?ht0) m1"
    "cview m1 = set_prev_at ((cview (bheap ?ht0))(a \<mapsto> (?h, None))) ?h (Some a)"
    by (rule connect_bucket [OF ba head])
  let ?ht1 = "ht\<lparr>bheap := m1, arBuckets := ?B[nIndex (bkt_h b) ?ht0 := Some a]\<rparr>"
  have v1: "iview m1 = iview (bheap ?ht0)" "lview m1 = lview (bheap ht)"
    using m1(2) v0(1) by (simp_all add: same_list_def)
  obtain b1 where b1: "m1 a = Some b1" by (rule iview_transfer [OF v1(1) ba])
  have n1: "pListNext b1 = hd_or None todo"
    using b1 view_at(1) [of m1 a b1] v1(2) Cons.prems(1) by simp
  have step: "reindex_loop oi (Some a) off ht = reindex_loop oi (hd_or None todo) off' ?ht1"
    using b0 w m1(1) i b1 n1
    by (subst reindex_loop.simps) (simp add: rd_slot_def wr_slot_def nIndex_def off'_def)
  have "chain_inv (cview m1) (?B[nIndex (bkt_h b) ?ht0 := Some a]) ?ix (insert a S)"
    using chain_inv_insert [OF ch0 aS, unfolded ixa, OF i] by (simp only: m1(3))
  then have "\<exists>m' B'. reindex_loop oi (hd_or None todo) off' ?ht1 =
             Some (?ht1\<lparr>bheap := m', arBuckets := B'\<rparr>, snd (renum oi off' todo (iview (bheap ?ht1)))) \<and>
           lview m' = lview (bheap ?ht1) \<and> iview m' = fst (renum oi off' todo (iview (bheap ?ht1))) \<and>
           length B' = length (arBuckets ?ht1) \<and>
           chain_inv (cview m') B' (slot_of (nTableMask ?ht1) (iview m')) (insert a S \<union> set todo)"
    using Cons.prems v1 iview_same_dom [OF v1(1)]
    by (intro Cons.IH [of _ "Some a"]) (auto simp: table_ok_def)
  then show ?case
    unfolding hd_or_simps step ren by (fastforce simp: v1)
qed

lemma dom_renum: "set ps \<subseteq> dom I \<Longrightarrow> dom (fst (renum oi off ps I)) = dom I"
  by (induction ps arbitrary: off I) (auto simp: insert_absorb)

lemma reindex_struct:
  assumes hs: "heap_struct ht ps" and ok: "table_ok ht" and init: "nTableMask ht \<noteq> 0"
    and n: "unat (nNumOfElements ht) = length ps" and ne: "ps \<noteq> []"
  obtains ht' where "zend_hash_reindex oi ht = Some ht'" "hash_struct ht' ps"
    "iview (bheap ht') = fst (renum oi 0 ps (iview (bheap ht)))"
    "nNextFreeElement ht' = snd (renum oi 0 ps (iview (bheap ht)))"
    "dtor_log ht' = dtor_log ht" "pDestructor ht' = pDestructor ht"
    "pInternalPointer ht' = pInternalPointer ht" "nTableMask ht' = nTableMask ht"
proof -
  let ?ht0 = "ht\<lparr>arBuckets := replicate (unat (nTableSize ht)) None\<rparr>"
  have "\<exists>m' B'. reindex_loop oi (hd_or None ps) 0 ?ht0 =
             Some (?ht0\<lparr>bheap := m', arBuckets := B'\<rparr>, snd (renum oi 0 ps (iview (bheap ?ht0)))) \<and>
           lview m' = lview (bheap ?ht0) \<and> iview m' = fst (renum oi 0 ps (iview (bheap ?ht0))) \<and>
           length B' = length (arBuckets ?ht0) \<and>
           chain_inv (cview m') B' (slot_of (nTableMask ?ht0) (iview m')) ({} \<union> set ps)"
    using hs ok init
    by (intro reindex_loop_chains [of _ None])
       (auto simp: heap_struct_def list_inv_def table_ok_def chain_inv_empty)
  then obtain m' B' where R: "reindex_loop oi (hd_or None ps) 0 ?ht0 =
             Some (ht\<lparr>bheap := m', arBuckets := B'\<rparr>, snd (renum oi 0 ps (iview (bheap ht))))"
     "lview m' = lview (bheap ht)" "iview m' = fst (renum oi 0 ps (iview (bheap ht)))"
     "length B' = unat (nTableSize ht)" "chain_inv (cview m') B' (slot_of (nTableMask ht) (iview m')) (set ps)"
    by auto
  let ?ht' = "ht\<lparr>bheap := m', arBuckets := B', nNextFreeElement := snd (renum oi 0 ps (iview (bheap ht)))\<rparr>"
  have "nNumOfElements ht \<noteq> 0" using n ne by auto
  moreover have "pListHead ht = hd_or None ps" using hs by (simp add: heap_struct_def list_inv_def)
  ultimately have run: "zend_hash_reindex oi ht = Some ?ht'"
    using R(1) by (simp add: zend_hash_reindex_def)
  have dom: "dom m' = dom (bheap ht)"
    using R(3) dom_iview [of m'] dom_renum [of ps "iview (bheap ht)"] dom_iview [of "bheap ht"] hs
    by (simp add: heap_struct_def)
  have "hash_struct ?ht' ps"
    using hs ok init n R(2,4,5) dom heap_bounded_dom [of "bheap ht" "blimit ht" m']
    by (auto simp: hash_struct_def heap_struct_def table_ok_def)
  with run show thesis by (rule that) (simp_all add: R)
qed


text \<open>The elements after renumbering.\<close>

fun renum_items :: "bool \<Rightarrow> ulong \<Rightarrow> (hkey \<times> 'v) list \<Rightarrow> (hkey \<times> 'v) list" where
  "renum_items oi off [] = []"
| "renum_items oi off ((StrKey s, v) # xs) =
     (if oi then (StrKey s, v) # renum_items oi off xs else (IntKey off, v) # renum_items oi (off + 1) xs)"
| "renum_items oi off ((IntKey i, v) # xs) = (IntKey off, v) # renum_items oi (off + 1) xs"

fun renum_count :: "bool \<Rightarrow> (hkey \<times> 'v) list \<Rightarrow> nat" where
  "renum_count oi [] = 0"
| "renum_count oi ((StrKey s, v) # xs) = (if oi then 0 else 1) + renum_count oi xs"
| "renum_count oi ((IntKey i, v) # xs) = Suc (renum_count oi xs)"

lemma renum_items_eq:
  "distinct ps \<Longrightarrow> set ps \<subseteq> dom I \<Longrightarrow>
   items (fst (renum oi off ps I)) ps = renum_items oi off (items I ps) \<and>
   snd (renum oi off ps I) = off + word_of_nat (renum_count oi (items I ps))"
proof (induction ps arbitrary: off I)
  case (Cons a ps)
  then obtain hv kl key d where I: "I a = Some (hv, kl, key, d)" by (auto simp: dom_def)
  have a: "a \<notin> set ps" using Cons.prems by simp
  show ?case
  proof (cases "\<not> oi \<or> kl = 0")
    case True
    let ?I = "I(a \<mapsto> (off, 0, key, d))"
    have "items ?I ps = items I ps" using a by (simp add: items_upd_notin)
    moreover have "items (fst (renum oi (off + 1) ps ?I)) ps = renum_items oi (off + 1) (items ?I ps) \<and>
        snd (renum oi (off + 1) ps ?I) = off + 1 + word_of_nat (renum_count oi (items ?I ps))"
      by (rule Cons.IH) (use Cons.prems in auto)
    ultimately show ?thesis
      using True I a by (cases "kl = 0") (simp_all add: items_Cons renumbers_def renum_other)
  next
    case False
    moreover have "items (fst (renum oi off ps I)) ps = renum_items oi off (items I ps) \<and>
        snd (renum oi off ps I) = off + word_of_nat (renum_count oi (items I ps))"
      by (rule Cons.IH) (use Cons.prems in auto)
    ultimately show ?thesis using I a by (simp add: items_Cons renumbers_def renum_other)
  qed
qed (simp add: items_Nil)

lemma renum_info_ok:
  "distinct ps \<Longrightarrow> (\<And>c. c \<in> set ps \<Longrightarrow> info_ok (the (I c)) \<and> (oi \<or> (\<exists>i. bkey (the (I c)) = IntKey i))) \<Longrightarrow>
   c \<in> set ps \<Longrightarrow> info_ok (the (fst (renum oi off ps I) c))"
proof (induction ps arbitrary: off I)
  case (Cons a ps)
  obtain hv kl key d where I: "the (I a) = (hv, kl, key, d)" by (metis prod_cases4)
  have ok: "info_ok (hv, kl, key, d)" "oi \<or> kl = 0"
    using Cons.prems(2) [of a] I by (auto split: if_splits)
  let ?I = "if renumbers oi (the (I a)) then I(a \<mapsto> renum_info off (the (I a))) else I"
  let ?off = "if renumbers oi (the (I a)) then off + 1 else off"
  have ren: "renum oi off (a # ps) I = renum oi ?off ps ?I" by simp
  have Ia: "info_ok (the (?I a))" using ok I by (auto simp: renumbers_def)
  have "\<And>c. c \<in> set ps \<Longrightarrow> info_ok (the (?I c)) \<and> (oi \<or> (\<exists>i. bkey (the (?I c)) = IntKey i))"
    using Cons.prems by auto
  with Cons.IH [of ?I ?off] Cons.prems have "c \<in> set ps \<Longrightarrow> info_ok (the (fst (renum oi ?off ps ?I) c))"
    by simp
  moreover have "c \<notin> set ps \<Longrightarrow> c = a" using Cons.prems(3) by simp
  ultimately show ?case using Ia Cons.prems(1) unfolding ren by (cases "c \<in> set ps") (auto simp: renum_other)
qed simp

text \<open>The new integer keys are \<open>0, 1, \<dots>\<close> in order, so they are distinct and below the next free index.\<close>

lemma renum_count_le: "renum_count oi xs \<le> length xs"
  by (induction oi xs rule: renum_count.induct) auto

lemma unat_Suc_ulong: "unat (x :: ulong) < 2 ^ 64 - 1 \<Longrightarrow> unat (x + 1) = Suc (unat x)"
  by (simp add: unat_word_ariths)

lemma renum_items_keys:
  "unat off + length xs < 2 ^ 63 \<Longrightarrow> k \<in> fst ` set (renum_items oi off xs) \<Longrightarrow>
   (\<exists>i. k = IntKey i \<and> unat off \<le> unat i \<and> unat i < unat off + renum_count oi xs) \<or>
   (oi \<and> k \<in> fst ` set xs \<and> (\<exists>s. k = StrKey s))"
proof (induction oi off xs rule: renum_items.induct)
  case (2 oi off s v xs)
  show ?case
  proof (cases oi)
    case True
    with 2(4) have "k = StrKey s \<or> k \<in> fst ` set (renum_items oi off xs)" by auto
    moreover have "k \<in> fst ` set (renum_items oi off xs) \<Longrightarrow> ?thesis"
      using 2(1) [OF True] 2(3) True by auto
    ultimately show ?thesis using True by auto
  next
    case False
    with 2(4) have "k = IntKey off \<or> k \<in> fst ` set (renum_items oi (off + 1) xs)" by auto
    moreover have "k \<in> fst ` set (renum_items oi (off + 1) xs) \<Longrightarrow> ?thesis"
      using 2(2) [OF False] 2(3) False unat_Suc_ulong [of off] by auto
    ultimately show ?thesis using False by auto
  qed
next
  case (3 oi off i v xs)
  from 3(3) have "k = IntKey off \<or> k \<in> fst ` set (renum_items oi (off + 1) xs)" by auto
  moreover have "k \<in> fst ` set (renum_items oi (off + 1) xs) \<Longrightarrow> ?case"
    using 3(1,2) unat_Suc_ulong [of off] by auto
  ultimately show ?case by auto
qed simp

lemma renum_items_distinct':
  "unat off + length xs < 2 ^ 63 \<Longrightarrow> (oi \<Longrightarrow> distinct (filter (\<lambda>k. \<exists>s. k = StrKey s) (map fst xs))) \<Longrightarrow>
   distinct (map fst (renum_items oi off xs))"
proof (induction oi off xs rule: renum_items.induct)
  case (2 oi off s v xs)
  have "IntKey off \<notin> fst ` set (renum_items oi (off + 1) xs)"
    using renum_items_keys [of "off + 1" xs "IntKey off" oi] unat_Suc_ulong [of off] 2(3) by auto
  moreover have "oi \<Longrightarrow> StrKey s \<notin> fst ` set (renum_items oi off xs)"
    using renum_items_keys [of off xs "StrKey s" oi] 2(3,4) by auto
  ultimately show ?case using 2 unat_Suc_ulong [of off] by (cases oi) auto
next
  case (3 oi off i v xs)
  have "IntKey off \<notin> fst ` set (renum_items oi (off + 1) xs)"
    using renum_items_keys [of "off + 1" xs "IntKey off" oi] unat_Suc_ulong [of off] 3(2) by auto
  then show ?case using 3 unat_Suc_ulong [of off] by auto
qed simp

lemma renum_next_free:
  assumes "length xs < 2 ^ 62"
  shows "next_free_ok (word_of_nat (renum_count oi xs)) (renum_items oi 0 xs)"
proof -
  let ?n = "renum_count oi xs"
  have u: "unat (word_of_nat ?n :: ulong) = ?n"
    using assms renum_count_le [of oi xs] by (simp add: unsigned_of_nat take_bit_nat_eq_self)
  have "IntKey i \<in> fst ` set (renum_items oi 0 xs) \<Longrightarrow> unat i < ?n" for i
    using renum_items_keys [of 0 xs "IntKey i" oi] assms by auto
  moreover have "?n \<le> 2 ^ 63 - 1" using assms renum_count_le [of oi xs] by simp
  ultimately show ?thesis by (auto simp: next_free_ok_def word_le_nat_alt word_less_nat_alt unat_LONG_MAX u)
qed

text \<open>
  Renumbering a well-formed table. With \<open>only_integer_keys\<close>, or when every key is an
  integer already, the result is well-formed.
\<close>

definition all_int_keys :: "(hkey \<times> 'v) list \<Rightarrow> bool" where
  "all_int_keys xs \<longleftrightarrow> (\<forall>x\<in>set xs. case fst x of IntKey _ \<Rightarrow> True | StrKey _ \<Rightarrow> False)"

lemma all_int_keysD: "all_int_keys (items I ps) \<Longrightarrow> c \<in> set ps \<Longrightarrow> \<exists>i. bkey (the (I c)) = IntKey i"
  by (cases "bkey (the (I c))") (auto simp: all_int_keys_def items_def)

lemma reindex_heap_inv:
  assumes hs: "heap_struct ht ps" and ok: "table_ok ht" and init: "nTableMask ht \<noteq> 0"
    and n: "unat (nNumOfElements ht) = length ps" and ne: "ps \<noteq> []"
    and info: "\<And>c. c \<in> set ps \<Longrightarrow> info_ok (the (iview (bheap ht) c))"
    and dist: "oi \<Longrightarrow> distinct (filter (\<lambda>k. \<exists>s. k = StrKey s) (map fst (items (iview (bheap ht)) ps)))"
    and ints: "oi \<or> all_int_keys (items (iview (bheap ht)) ps)"
  obtains ht' where "zend_hash_reindex oi ht = Some ht'" "hash_inv_at ht' ps"
    "ht_items ht' = renum_items oi 0 (items (iview (bheap ht)) ps)"
    "dtor_log ht' = dtor_log ht" "pDestructor ht' = pDestructor ht"
    "pInternalPointer ht' = pInternalPointer ht"
proof -
  let ?I = "iview (bheap ht)"
  obtain ht' where R: "zend_hash_reindex oi ht = Some ht'" "hash_struct ht' ps"
    "iview (bheap ht') = fst (renum oi 0 ps ?I)" "nNextFreeElement ht' = snd (renum oi 0 ps ?I)"
    "dtor_log ht' = dtor_log ht" "pDestructor ht' = pDestructor ht"
    "pInternalPointer ht' = pInternalPointer ht"
    by (rule reindex_struct [OF hs ok init n ne])
  have d: "distinct ps" "set ps \<subseteq> dom ?I" using hs dom_iview [of "bheap ht"] by (simp_all add: heap_struct_def list_inv_def)
  note E = renum_items_eq [OF d, of oi 0]
  have len: "length (items ?I ps) < 2 ^ 62"
    using n unat_uint_less [of "nNumOfElements ht"] by (simp add: items_def)
  have "hash_inv_at ht' ps"
  proof (rule hash_inv_atI [OF R(2)])
    fix c assume "c \<in> set ps"
    then show "info_ok (the (iview (bheap ht') c))"
      unfolding R(3) by (rule renum_info_ok [OF d(1), rotated]) (use info ints all_int_keysD in blast)
  next
    show "distinct (map fst (items (iview (bheap ht')) ps))"
      using E renum_items_distinct' [of 0 "items ?I ps" oi] len dist by (simp add: R(3))
    show "next_free_ok (nNextFreeElement ht') (items (iview (bheap ht')) ps)"
      using E renum_next_free [OF len, of oi] by (simp add: R(3,4))
  qed
  with R E show thesis using ht_items_eq [OF R(2)] by (intro that [of ht']) simp_all
qed

lemma reindex_inv:
  assumes "hash_inv ht" "oi \<or> all_int_keys (ht_items ht)"
  shows "\<exists>ht'. zend_hash_reindex oi ht = Some ht' \<and> hash_inv ht' \<and> ht_items ht' = renum_items oi 0 (ht_items ht)"
proof -
  obtain ps where inv: "hash_inv_at ht ps" using assms(1) by (auto simp: hash_inv_def)
  note D = hash_inv_atD [OF inv] and S = hash_structD [OF hash_inv_atD(1) [OF inv]]
  show ?thesis
  proof (cases "ps = []")
    case True
    then have "nNumOfElements ht = 0" using S(5) by (simp add: unat_eq_0)
    moreover have "hash_inv_at (ht\<lparr>nNextFreeElement := 0\<rparr>) []"
      using inv True by (simp add: hash_inv_at_def next_free_ok_def items_Nil)
    moreover have "ht_items (ht\<lparr>nNextFreeElement := 0\<rparr>) = []" "ht_items ht = []"
      using D(2) True by (simp_all add: ht_items_def items_Nil \<open>nNumOfElements ht = 0\<close>)
    ultimately show ?thesis by (auto simp: zend_hash_reindex_def hash_inv_def)
  next
    case False
    have init: "nTableMask ht \<noteq> 0" using struct_uninit [OF D(1)] False by blast
    have hs: "heap_struct ht ps" using D(1) by (simp add: hash_struct_def)
    obtain ht' where "zend_hash_reindex oi ht = Some ht'" "hash_inv_at ht' ps"
      "ht_items ht' = renum_items oi 0 (items (iview (bheap ht)) ps)"
    proof (rule reindex_heap_inv [OF hs S(4) init S(5) False])
      show "info_ok (the (iview (bheap ht) c))" if "c \<in> set ps" for c using inv that by (simp add: hash_inv_at_def)
      show "distinct (filter (\<lambda>k. \<exists>s. k = StrKey s) (map fst (items (iview (bheap ht)) ps)))"
        using D(2,5) by simp
      show "oi \<or> all_int_keys (items (iview (bheap ht)) ps)" using assms(2) D(2) by simp
    qed
    with D(2) show ?thesis by (auto simp: hash_inv_def)
  qed
qed

subsection \<open>Sorting\<close>

lemma collect_seg: "dseg (lview m) q ps None \<Longrightarrow> collect m (hd_or None ps) = Some ps"
proof (induction ps arbitrary: q)
  case Nil
  then show ?case by (simp add: collect.simps)
next
  case (Cons a ps)
  then obtain b where "m a = Some b" "pListNext b = hd_or None ps" by (auto simp: lview_def)
  with Cons show ?case by (subst collect.simps) auto
qed

lemma relink_seg:
  "distinct as \<Longrightarrow> set as \<subseteq> dom (bheap ht) \<Longrightarrow>
   \<exists>m'. relink q as ht = Some (ht\<lparr>bheap := m'\<rparr>) \<and> same_chains (bheap ht) m' \<and> dseg (lview m') q as None \<and>
        (\<forall>a. a \<notin> set as \<longrightarrow> lview m' a = lview (bheap ht) a)"
proof (induction as arbitrary: q ht)
  case Nil
  then show ?case by (intro exI [of _ "bheap ht"]) (simp add: same_chains_def)
next
  case (Cons a as)
  then obtain b where b: "bheap ht a = Some b" by auto
  let ?nx = "case as of [] \<Rightarrow> None | c # _ \<Rightarrow> Some c"
  have nx: "?nx = hd_or None as" by (cases as) simp_all
  define m1 where "m1 = (bheap ht)(a \<mapsto> b\<lparr>pListLast := q, pListNext := ?nx\<rparr>)"
  have sc: "same_chains (bheap ht) m1" unfolding m1_def by (rule same_chains_upd(3)) (rule b)
  have lv: "lview m1 = (lview (bheap ht))(a \<mapsto> (hd_or None as, q))" by (simp add: m1_def heap_simps nx)
  have "set as \<subseteq> dom m1" using Cons.prems by (auto simp: m1_def)
  with Cons.IH [of "ht\<lparr>bheap := m1\<rparr>" "Some a"] Cons.prems obtain m' where
    R: "relink (Some a) as (ht\<lparr>bheap := m1\<rparr>) = Some (ht\<lparr>bheap := m'\<rparr>)" "same_chains m1 m'"
      "dseg (lview m') (Some a) as None" "\<forall>c. c \<notin> set as \<longrightarrow> lview m' c = lview m1 c"
    by auto
  have la: "lview m' a = Some (hd_or None as, q)" using R(4) Cons.prems(1) by (simp add: lv)
  have "relink q (a # as) ht = Some (ht\<lparr>bheap := m'\<rparr>)" using R(1) b by (simp add: wr_def m1_def)
  moreover have "\<forall>c. c \<notin> set (a # as) \<longrightarrow> lview m' c = lview (bheap ht) c" using R(4) by (simp add: lv)
  ultimately show ?case using same_chains_trans [OF sc R(2)] R(3) la by auto
qed

lemma same_chains_dom: "same_chains m m' \<Longrightarrow> dom m' = dom m"
  using iview_same_dom [of m' m] by (simp add: same_chains_def)

text \<open>Reordering the element list keeps the structure.\<close>

lemma relink_struct:
  assumes hs: "hash_struct ht ps" and perm: "mset ys = mset ps" and ne: "ys \<noteq> []"
  obtains ht' where
    "relink None ys (ht\<lparr>pListHead := Some (hd ys), pListTail := None, pInternalPointer := Some (hd ys)\<rparr>) = Some ht'"
    "hash_struct (ht'\<lparr>pListTail := Some (last ys)\<rparr>) ys"
    "iview (bheap ht') = iview (bheap ht)" "same_meta ht ht'" "nTableMask ht' = nTableMask ht"
    "nNumOfElements ht' = nNumOfElements ht" "pInternalPointer ht' = Some (hd ys)"
proof -
  note D = hash_structD [OF hs]
  have d: "distinct ys" "set ys = set ps" "length ys = length ps"
    using perm D(7) by (auto dest: mset_eq_imp_distinct_iff mset_eq_setD mset_eq_length)
  let ?ht0 = "ht\<lparr>pListHead := Some (hd ys), pListTail := None, pInternalPointer := Some (hd ys)\<rparr>"
  from relink_seg [of ys ?ht0 None] d D(2) obtain m' where
    R: "relink None ys ?ht0 = Some (?ht0\<lparr>bheap := m'\<rparr>)" "same_chains (bheap ht) m'" "dseg (lview m') None ys None"
    by auto
  have v: "cview m' = cview (bheap ht)" "iview m' = iview (bheap ht)"
    using R(2) by (simp_all add: same_chains_def)
  have hl: "Some (hd ys) = hd_or None ys" "Some (last ys) = last_or None ys"
    using ne by (cases ys, simp_all add: last_or_def)
  have "hd ys \<in> dom (bheap ht)" using ne d(2) D(2) hd_in_set [of ys] by simp
  then have "hash_struct (?ht0\<lparr>bheap := m', pListTail := Some (last ys)\<rparr>) ys"
    using hs R(3) d v same_chains_dom [OF R(2)] heap_bounded_dom [of "bheap ht" "blimit ht" m'] hl ne
    by (auto simp: hash_struct_def heap_struct_def list_inv_def table_ok_def)
  then have "hash_struct ((?ht0\<lparr>bheap := m'\<rparr>)\<lparr>pListTail := Some (last ys)\<rparr>) ys"
    by (subst hash_struct_fields [where ht = "?ht0\<lparr>bheap := m', pListTail := Some (last ys)\<rparr>"]) simp_all
  with R(1) show thesis by (rule that) (simp_all add: v same_meta_def)
qed

lemma items_mset: "mset ys = mset ps \<Longrightarrow> mset (items I ys) = mset (items I ps)"
  by (simp add: items_def)

lemma next_free_ok_set: "next_free_ok nf xs \<Longrightarrow> set ys = set xs \<Longrightarrow> next_free_ok nf ys"
  by (simp add: next_free_ok_def)

text \<open>The bucket of each element, in list order, and the order a comparison puts on them.\<close>

definition ht_buckets :: "'v HashTable \<Rightarrow> 'v Bucket list" where
  "ht_buckets ht = (case collect (bheap ht) (pListHead ht) of None \<Rightarrow> [] | Some ps \<Rightarrow> map (the \<circ> bheap ht) ps)"

text \<open>A comparison looks at keys and elements only, not at the links.\<close>

definition link_free :: "'v Bucket compare_func \<Rightarrow> bool" where
  "link_free compar \<longleftrightarrow> (\<forall>b b' c c'. binfo_of b = binfo_of b' \<longrightarrow> binfo_of c = binfo_of c' \<longrightarrow> compar b c = compar b' c')"

locale hash_sorter = sorter sort capacity
  for sort :: "nat sort_func" and capacity :: nat +
  assumes enough: "2 ^ 32 \<le> capacity"
begin

lemma collected_sort:
  assumes hs: "hash_struct ht ps"
  obtains ys where "sort (\<lambda>a c. compar (the (bheap ht a)) (the (bheap ht c))) ps = Some ys" "mset ys = mset ps"
    "consistent compar (set (map (the \<circ> bheap ht) ps)) \<longrightarrow>
       sorted_wrt (\<lambda>b c. compar b c \<le> 0) (map (the \<circ> bheap ht) ys)"
proof -
  let ?c = "\<lambda>a c. compar (the (bheap ht a)) (the (bheap ht c))"
  have len: "length ps < capacity"
    using hash_structD(5) [OF hs] unat_uint_less [of "nNumOfElements ht"] enough by linarith
  obtain ys where ys: "sort ?c ps = Some ys" "mset ys = mset ps" using sort_perm [OF len] by blast
  have "consistent ?c (set ps)" if "consistent compar (set (map (the \<circ> bheap ht) ps))"
    using consistent_image [of compar "the \<circ> bheap ht" "set ps"] that by simp
  with sort_sorted [OF len _ ys(1)] ys show thesis
    by (intro that [of ys]) (simp_all add: sorted_wrt_map)
qed

lemma sort_keeps_elements:
  assumes inv: "hash_inv ht" and lf: "link_free compar"
  shows "\<exists>ht'. zend_hash_sort sort compar False ht = Some ht' \<and> hash_inv ht' \<and>
     mset (ht_items ht') = mset (ht_items ht) \<and> dtor_log ht' = dtor_log ht \<and>
     (consistent compar (set (ht_buckets ht)) \<longrightarrow> sorted_wrt (\<lambda>b c. compar b c \<le> 0) (ht_buckets ht')) \<and>
     (1 < length (ht_items ht) \<longrightarrow> ht_cursor ht' = first_key (ht_items ht'))"
proof -
  obtain ps where inv: "hash_inv_at ht ps" using inv by (auto simp: hash_inv_def)
  note D = hash_inv_atD [OF inv] and G = hash_inv_seg [OF inv]
  have n: "unat (nNumOfElements ht) = length ps" by (rule hash_structD(5) [OF D(1)])
  have col: "collect (bheap ht) (pListHead ht) = Some ps" using collect_seg [OF G(1)] G(2) by simp
  show ?thesis
  proof (cases "nNumOfElements ht > 1")
    case False
    then have "length ps \<le> 1" using n by (simp add: word_less_nat_alt)
    then have "sorted_wrt (\<lambda>b c. compar b c \<le> 0) (ht_buckets ht)"
      by (cases ps) (auto simp: ht_buckets_def col)
    with False inv \<open>length ps \<le> 1\<close> G(4) show ?thesis
      by (auto simp: zend_hash_sort_def hash_inv_def)
  next
    case True
    then have ne: "ps \<noteq> []" "1 < length ps" using n by (auto simp: word_less_nat_alt)
    obtain ys where S: "sort (\<lambda>a c. compar (the (bheap ht a)) (the (bheap ht c))) ps = Some ys" "mset ys = mset ps"
      "consistent compar (set (map (the \<circ> bheap ht) ps)) \<longrightarrow>
         sorted_wrt (\<lambda>b c. compar b c \<le> 0) (map (the \<circ> bheap ht) ys)"
      by (rule collected_sort [OF D(1), where compar = compar])
    have ys: "ys \<noteq> []" "distinct ys" "set ys = set ps"
      using S(2) ne(1) D(3) by (auto dest: mset_eq_imp_distinct_iff mset_eq_setD)
    obtain ht1 where R:
      "relink None ys (ht\<lparr>pListHead := Some (hd ys), pListTail := None, pInternalPointer := Some (hd ys)\<rparr>) = Some ht1"
      "hash_struct (ht1\<lparr>pListTail := Some (last ys)\<rparr>) ys" "iview (bheap ht1) = iview (bheap ht)" "same_meta ht ht1"
      "pInternalPointer ht1 = Some (hd ys)"
      by (rule relink_struct [OF D(1) S(2) ys(1)])
    let ?ht' = "ht1\<lparr>pListTail := Some (last ys)\<rparr>"
    have run: "zend_hash_sort sort compar False ht = Some ?ht'"
      using True col S(1) R(1) ys(1) by (cases ys) (simp_all add: zend_hash_sort_def)
    have ms: "mset (items (iview (bheap ht)) ys) = mset (items (iview (bheap ht)) ps)"
      by (rule items_mset [OF S(2)])
    have it: "ht_items ?ht' = items (iview (bheap ht)) ys" using ht_items_eq [OF R(2)] R(3) by simp
    have inv': "hash_inv_at ?ht' ys"
    proof (rule hash_inv_atI [OF R(2)])
      show "info_ok (the (iview (bheap ?ht') a))" if "a \<in> set ys" for a
        using inv that ys(3) R(3) by (simp add: hash_inv_at_def)
      have "mset (map fst (items (iview (bheap ht)) ys)) = mset (map fst (items (iview (bheap ht)) ps))"
        using ms by (metis mset_map)
      from mset_eq_imp_distinct_iff [OF this]
      show "distinct (map fst (items (iview (bheap ?ht')) ys))" using D(2,5) R(3) by simp
      show "next_free_ok (nNextFreeElement ?ht') (items (iview (bheap ?ht')) ys)"
        using next_free_ok_set [OF D(6), of "items (iview (bheap ht)) ys"] mset_eq_setD [OF ms] D(2) R(3,4)
        by (simp add: same_meta_def)
    qed
    have "sorted_wrt (\<lambda>b c. compar b c \<le> 0) (ht_buckets ?ht')" if "consistent compar (set (ht_buckets ht))"
    proof -
      have "collect (bheap ?ht') (pListHead ?ht') = Some ys"
        using collect_seg hash_inv_seg(1,2) [OF inv'] by metis
      moreover have bi: "binfo_of (the (bheap ht1 a)) = binfo_of (the (bheap ht a))" if a: "a \<in> set ys" for a
      proof -
        obtain b where "bheap ht a = Some b" using a ys(3) hash_structD(2) [OF D(1)] by auto
        moreover have "iview (bheap ht1) a = iview (bheap ht) a" by (simp add: R(3))
        ultimately show ?thesis by (auto simp: iview_def)
      qed
      moreover have "sorted_wrt (\<lambda>a c. compar (the (bheap ht a)) (the (bheap ht c)) \<le> 0) ys"
        using S(3) that by (simp add: ht_buckets_def col sorted_wrt_map)
      then have "sorted_wrt (\<lambda>a c. compar (the (bheap ht1 a)) (the (bheap ht1 c)) \<le> 0) ys"
      proof (rule sorted_wrt_mono_rel [rotated])
        fix a c assume ac: "a \<in> set ys" "c \<in> set ys" "compar (the (bheap ht a)) (the (bheap ht c)) \<le> 0"
        have "compar (the (bheap ht1 a)) (the (bheap ht1 c)) = compar (the (bheap ht a)) (the (bheap ht c))"
          using lf bi [OF ac(1)] bi [OF ac(2)] unfolding link_free_def by blast
        with ac(3) show "compar (the (bheap ht1 a)) (the (bheap ht1 c)) \<le> 0" by simp
      qed
      ultimately show ?thesis by (simp add: ht_buckets_def sorted_wrt_map)
    qed
    moreover have "ht_cursor ?ht' = first_key (ht_items ?ht')"
      using head_internal_inv(3) [of ?ht'] inv' head_tail(1) [OF inv'] R(5) ys(1)
      by (cases ys) (auto simp: hash_inv_def ht_cursor_def first_key_def it items_Cons R(3) ht_items_def)
    ultimately show ?thesis
      using run inv' ms it D(2) R(4) by (auto simp: hash_inv_def same_meta_def)
  qed
qed

end

interpretation hzq: hash_sorter "zend_qsort (Suc k)" "2 ^ 64"
  by unfold_locales simp

end
