(* ===== verification/Zend_Hash_Props.thy ===== *)
theory Zend_Hash_Props
  imports Zend_Hash_Sort
begin

text \<open>
  The contract of the hash table, stated on its operations, with a witness on a small
  table wherever a statement has a hypothesis.
\<close>

unbundle bit_operations_syntax

subsection \<open>A table for the witnesses\<close>

definition result_table :: "(zresult \<times> ptr \<times> 'v HashTable) option \<Rightarrow> 'v HashTable" where
  "result_table r = (case r of Some (_, _, ht) \<Rightarrow> ht | None \<Rightarrow> zend_hash_init 8 False False)"

definition demo_ab :: "nat HashTable" where
  "demo_ab = result_table (zend_hash_update (CPrivate ''ab'') 2 10 8 (zend_hash_init 8 True False))"

definition demo :: "nat HashTable" where
  "demo = result_table (zend_hash_index_update 5 20 4 demo_ab)"

lemma result_table_inv:
  "store_spec k v False ht r \<Longrightarrow> room ht \<Longrightarrow> hash_inv (result_table r)"
  by (auto simp: store_spec_def result_table_def split: if_splits)

lemma demo_ab_inv: "hash_inv demo_ab"
proof -
  have "hash_inv (zend_hash_init 8 True False)"
    using init_inv(1) by (auto simp: hash_inv_def)
  then show ?thesis
    unfolding demo_ab_def
    by (rule result_table_inv [OF store_specs(1)]) (simp_all add: key_arg_def room_def init_inv)
qed

lemma demo_items: "ht_items demo_ab = [(StrKey ''ab'', 10)]" "ht_items demo = [(StrKey ''ab'', 10), (IntKey 5, 20)]"
  by code_simp+

lemma demo_inv: "hash_inv demo"
  unfolding demo_def
  by (rule result_table_inv [OF store_specs(3) [OF demo_ab_inv]]) (simp add: room_def demo_items)

subsection \<open>Lookups\<close>

text \<open>
  C1. Every lookup terminates without a fault on a well-formed table and returns what the
  ordered map holds under the key: \<open>zend_hash_find\<close> and \<open>zend_hash_exists\<close> hash the
  string themselves, the quick variants take the hash from the caller, the index variants
  take an integer key; \<open>zend_hash_num_elements\<close> is the number of elements.
\<close>

theorem hash_lookup_refines_map:
  assumes "hash_inv ht" "key_arg key kl"
  shows "zend_hash_find key kl ht = Some (map_of (ht_items ht) (StrKey (chars key))) \<and>
    zend_hash_quick_find key kl (djb (chars key)) ht = Some (map_of (ht_items ht) (StrKey (chars key))) \<and>
    zend_hash_exists key kl ht = Some (StrKey (chars key) \<in> fst ` set (ht_items ht)) \<and>
    zend_hash_quick_exists key kl (djb (chars key)) ht = Some (StrKey (chars key) \<in> fst ` set (ht_items ht)) \<and>
    zend_hash_index_find hv ht = Some (map_of (ht_items ht) (IntKey hv)) \<and>
    zend_hash_index_exists hv ht = Some (IntKey hv \<in> fst ` set (ht_items ht)) \<and>
    unat (zend_hash_num_elements ht) = length (ht_items ht)"
proof -
  obtain ps where inv: "hash_inv_at ht ps" using assms(1) by (auto simp: hash_inv_def)
  have "unat (zend_hash_num_elements ht) = length (ht_items ht)"
    using hash_structD(5) [OF hash_inv_atD(1) [OF inv]] items_length [OF inv]
    by (simp add: zend_hash_num_elements_def)
  with inv assms(2) show ?thesis
    by (simp add: find_quick quick_find_eq [OF inv] index_find_eq [OF inv])
qed

theorem hash_lookup_refines_map_witness:
  "zend_hash_find (CInterned ''ab'') 2 demo = Some (Some 10) \<and> zend_hash_index_find 5 demo = Some (Some 20) \<and>
   zend_hash_index_find 7 demo = Some None"
  using hash_lookup_refines_map [OF demo_inv, of "CInterned ''ab''" 2 5]
    hash_lookup_refines_map [OF demo_inv, of "CInterned ''ab''" 2 7]
  by (simp add: key_arg_def demo_items)

subsection \<open>Insertion\<close>

text \<open>
  C2. Storing under a string key on a well-formed table that has room terminates without a
  fault and keeps the invariant. \<open>zend_hash_update\<close> overwrites an existing element in its
  place, running the destructor on the old one, and appends a new element otherwise;
  \<open>zend_hash_add\<close> refuses an existing key with \<open>FAILURE\<close> and leaves the elements
  alone. The returned pointer is where the element now is.
\<close>

theorem hash_update_refines_map:
  assumes "hash_inv ht" "key_arg key kl" "room ht"
  shows "(\<exists>a ht'. zend_hash_update key kl v sz ht = Some (SUCCESS, Some a, ht') \<and> hash_inv ht' \<and>
            stored_as (StrKey (chars key)) v ht ht' \<and> entry_at a ht' = Some (StrKey (chars key), v)) \<and>
         (if StrKey (chars key) \<in> fst ` set (ht_items ht)
          then \<exists>ht'. zend_hash_add key kl v sz ht = Some (FAILURE, None, ht') \<and> hash_inv ht' \<and>
                 ht_items ht' = ht_items ht
          else \<exists>a ht'. zend_hash_add key kl v sz ht = Some (SUCCESS, Some a, ht') \<and> hash_inv ht' \<and>
                 ht_items ht' = ht_items ht @ [(StrKey (chars key), v)])"
proof -
  note u = store_specs(1) [OF assms(1,2), of v sz] and a = store_specs(2) [OF assms(1,2), of v sz]
  obtain ps where "hash_inv_at ht ps" using assms(1) by (auto simp: hash_inv_def)
  from check_init_inv [OF this] have "hash_inv (CHECK_INIT ht)" "ht_items (CHECK_INIT ht) = ht_items ht"
    by (auto simp: hash_inv_def)
  with u a assms(3) show ?thesis
    unfolding store_spec_def stored_as_def by (auto simp: update_absent)
qed

theorem hash_update_refines_map_witness:
  "\<exists>ht'. zend_hash_add (CPrivate ''ab'') 2 7 8 demo = Some (FAILURE, None, ht') \<and> ht_items ht' = ht_items demo"
  using hash_update_refines_map [OF demo_inv, of "CPrivate ''ab''" 2 7 8]
  by (auto simp: key_arg_def room_def demo_items)

text \<open>
  C3. Storing under an integer key: \<open>zend_hash_index_update\<close> overwrites or appends, and
  \<open>zend_hash_next_index_insert\<close> appends under the next free index, failing exactly when
  that index is taken, which happens only once \<open>LONG_MAX\<close> itself is in use. The next free
  index stays above every non-negative index.
\<close>

theorem hash_index_insert_refines_map:
  assumes "hash_inv ht" "room ht"
  shows "(\<exists>a ht'. zend_hash_index_update hv v sz ht = Some (SUCCESS, Some a, ht') \<and> hash_inv ht' \<and>
            stored_as (IntKey hv) v ht ht' \<and> entry_at a ht' = Some (IntKey hv, v)) \<and>
         (if IntKey LONG_MAX \<in> fst ` set (ht_items ht) \<and> nNextFreeElement ht = LONG_MAX
          then \<exists>ht'. zend_hash_next_index_insert v sz ht = Some (FAILURE, None, ht') \<and> hash_inv ht' \<and>
                 ht_items ht' = ht_items ht
          else \<exists>a ht'. zend_hash_next_index_insert v sz ht = Some (SUCCESS, Some a, ht') \<and> hash_inv ht' \<and>
                 ht_items ht' = ht_items ht @ [(IntKey (nNextFreeElement ht), v)]) \<and>
         (\<forall>i w. (IntKey i, w) \<in> set (ht_items ht) \<longrightarrow> i \<le> LONG_MAX \<longrightarrow>
            i < zend_hash_next_free_element ht \<or> zend_hash_next_free_element ht = LONG_MAX)"
proof -
  let ?nf = "nNextFreeElement ht"
  obtain ps where inv: "hash_inv_at ht ps" using assms(1) by (auto simp: hash_inv_def)
  from check_init_inv [OF this] have ci: "hash_inv (CHECK_INIT ht)" "ht_items (CHECK_INIT ht) = ht_items ht"
    by (auto simp: hash_inv_def)
  have nf: "?nf \<le> LONG_MAX"
    "\<And>i. IntKey i \<in> fst ` set (ht_items ht) \<Longrightarrow> i \<le> LONG_MAX \<Longrightarrow> i < ?nf \<or> ?nf = LONG_MAX"
    using hash_inv_atD(6) [OF inv] by (auto simp: next_free_ok_def)
  then have taken: "IntKey ?nf \<in> fst ` set (ht_items ht) \<longleftrightarrow>
      IntKey LONG_MAX \<in> fst ` set (ht_items ht) \<and> ?nf = LONG_MAX"
    using order_less_irrefl by metis
  have "\<forall>i w. (IntKey i, w) \<in> set (ht_items ht) \<longrightarrow> i \<le> LONG_MAX \<longrightarrow>
            i < zend_hash_next_free_element ht \<or> zend_hash_next_free_element ht = LONG_MAX"
    using nf(2) by (force simp: zend_hash_next_free_element_def)
  moreover have "\<exists>a ht'. zend_hash_index_update hv v sz ht = Some (SUCCESS, Some a, ht') \<and> hash_inv ht' \<and>
            stored_as (IntKey hv) v ht ht' \<and> entry_at a ht' = Some (IntKey hv, v)"
    using store_specs(3) [OF assms(1), of hv v sz] assms(2) by (simp add: store_spec_def)
  ultimately show ?thesis
    using store_specs(4) [OF assms(1), of v sz] ci assms(2) unfolding taken [symmetric]
    by (auto simp: store_spec_def stored_as_def update_absent)
qed

theorem hash_index_insert_refines_map_witness:
  "\<exists>a ht'. zend_hash_next_index_insert 30 8 demo = Some (SUCCESS, Some a, ht') \<and>
     ht_items ht' = [(StrKey ''ab'', 10), (IntKey 5, 20), (IntKey 6, 30)]"
proof -
  have "nNextFreeElement demo = 6" by code_simp
  then show ?thesis
    using hash_index_insert_refines_map [OF demo_inv, of 0 30 8]
    by (auto simp: room_def demo_items LONG_MAX_def)
qed

subsection \<open>Deletion\<close>

text \<open>
  C4. Deleting a key, by string, by string with a given hash, or by index: an existing
  element is unlinked from its chain and from the list, the destructor runs on it once, the
  internal pointer moves to its successor if it was there, and the other elements keep
  their order; without such an element the table is unchanged and \<open>FAILURE\<close> is returned.
\<close>

theorem hash_delete_refines_map:
  assumes "hash_inv ht" "key_arg key kl"
  shows "del_spec (StrKey (chars key)) ht (zend_hash_del key kl ht) \<and>
    del_spec (StrKey (chars key)) ht (zend_hash_quick_del key kl (djb (chars key)) ht) \<and>
    del_spec (IntKey hv) ht (zend_hash_index_del hv ht)"
  using del_specs [OF assms(1)] assms(2) by blast

theorem hash_delete_refines_map_witness:
  "\<exists>ht'. zend_hash_del (CPrivate ''ab'') 2 demo = Some (SUCCESS, ht') \<and>
     ht_items ht' = [(IntKey 5, 20)] \<and> dtor_log ht' = [10] \<and> ht_cursor ht' = Some (IntKey 5)"
proof -
  have d: "dtor_log demo = []" "pDestructor demo" "ht_cursor demo = Some (StrKey ''ab'')" by code_simp+
  show ?thesis
    using hash_delete_refines_map [OF demo_inv, of "CPrivate ''ab''" 2 0]
    by (auto simp: key_arg_def del_spec_def deleted_as_def demo_items d)
qed

subsection \<open>The hash function and the two insertion routines\<close>

text \<open>
  C5. The hash unrolled eight times with its fall-through switch computes times-33 with
  addition over exactly \<open>nKeyLength\<close> bytes, reading no byte beyond them; on a shorter
  buffer it reads out of bounds.
\<close>

theorem hash_unrolled_is_djb:
  "zend_hash_func s kl = (if unat kl \<le> length s then Some (djb (take (unat kl) s)) else None)"
  by (simp add: zend_hash_func_def hash_func_eq hash_func_short)

text \<open>
  \<open>zend_hash_add_or_update\<close> is \<open>zend_hash_quick_add_or_update\<close> with the hash of
  the key, although it publishes the bucket in its slot after threading it on the list and
  the quick routine does so before.
\<close>

theorem add_or_update_is_quick:
  assumes "key_arg key kl" "zend_inline_hash_func (chars key) kl = Some hv"
  shows "zend_hash_add_or_update key kl v sz flag ht = zend_hash_quick_add_or_update key kl hv v sz flag ht"
  using add_or_update_quick [OF assms(1)] assms(2) hash_func_arg [OF assms(1)] by simp

theorem add_or_update_is_quick_witness:
  "zend_hash_add_or_update (CPrivate ''ab'') 2 10 8 HASH_ADD (demo) =
   zend_hash_quick_add_or_update (CPrivate ''ab'') 2 5863208 10 8 HASH_ADD demo"
proof (rule add_or_update_is_quick)
  show "key_arg (CPrivate ''ab'') 2" by (simp add: key_arg_def)
  show "zend_inline_hash_func (chars (CPrivate ''ab'')) 2 = Some 5863208" by code_simp
qed

subsection \<open>Initialisation and growth\<close>


text \<open>
  Doubling the table keeps every element, its order and its key: growing when full
  terminates, keeps the invariant and the element list, and the mask stays one less than the
  size; at \<open>2 ^ 31\<close> slots the doubling would overflow and the table is left as it is.
\<close>

theorem hash_resize_keeps_elements:
  assumes "hash_inv ht" "ht_items ht \<noteq> []"
  shows "\<exists>ht'. ZEND_HASH_IF_FULL_DO_RESIZE ht = Some ht' \<and> hash_inv ht' \<and> ht_items ht' = ht_items ht \<and>
     ht_cursor ht' = ht_cursor ht \<and>
     nTableSize ht' = (if nNumOfElements ht > nTableSize ht \<and> nTableSize ht \<noteq> 0x80000000
                       then 2 * nTableSize ht else nTableSize ht)"
proof -
  obtain ps where inv: "hash_inv_at ht ps" using assms(1) by (auto simp: hash_inv_def)
  note D = hash_inv_atD [OF inv]
  have ne: "ps \<noteq> []" using D(2) assms(2) by (auto simp: items_Nil)
  then have init: "nTableMask ht \<noteq> 0" using struct_uninit [OF D(1)] by blast
  obtain ht' where R: "ZEND_HASH_IF_FULL_DO_RESIZE ht = Some ht'" "hash_struct ht' ps"
    "iview (bheap ht') = iview (bheap ht)" "same_meta ht ht'" "pInternalPointer ht' = pInternalPointer ht"
    "nTableSize ht' = (if nNumOfElements ht > nTableSize ht \<and> push_bit 1 (nTableSize ht) > 0
                       then push_bit 1 (nTableSize ht) else nTableSize ht)"
    by (rule resize_struct [OF D(1) ne init])
  have "hash_inv_at ht' ps" "ht_items ht' = ht_items ht"
    using inv R D(2) ht_items_eq [OF R(2)] by (simp_all add: hash_inv_at_def same_meta_def)
  moreover have "ht_cursor ht' = ht_cursor ht"
    unfolding ht_cursor_def R(3,5) ..
  moreover have "nTableSize ht' = (if nNumOfElements ht > nTableSize ht \<and> nTableSize ht \<noteq> 0x80000000
                       then 2 * nTableSize ht else nTableSize ht)"
    using R(6) double_pos_iff hash_structD(4) [OF D(1)] by (auto simp: table_ok_def push_bit_eq_mult mult.commute)
  ultimately show ?thesis using R(1) by (auto simp: hash_inv_def)
qed

theorem hash_resize_keeps_elements_witness:
  "\<exists>ht'. ZEND_HASH_IF_FULL_DO_RESIZE demo = Some ht' \<and> ht_items ht' = [(StrKey ''ab'', 10), (IntKey 5, 20)]"
  using hash_resize_keeps_elements [OF demo_inv] by (auto simp: demo_items)

subsection \<open>Destruction\<close>

text \<open>
  C7. Destroying and cleaning visit every element exactly once and free every bucket:
  \<open>zend_hash_destroy\<close>, \<open>zend_hash_clean\<close> and \<open>zend_hash_graceful_destroy\<close> run the
  destructor in list order, \<open>zend_hash_graceful_reverse_destroy\<close> in reverse; after
  \<open>zend_hash_clean\<close> the table is empty, well-formed and keeps its size.
\<close>

theorem hash_destroy_visits_all:
  assumes "hash_inv ht"
  shows "(\<exists>ht'. zend_hash_destroy ht = Some ht' \<and> bheap ht' = Map.empty \<and>
            dtor_log ht' = dtor_log ht @ (if pDestructor ht then map snd (ht_items ht) else [])) \<and>
         (\<exists>ht'. zend_hash_clean ht = Some ht' \<and> hash_inv ht' \<and> ht_items ht' = [] \<and> bheap ht' = Map.empty \<and>
            nTableSize ht' = nTableSize ht \<and> nNextFreeElement ht' = 0 \<and>
            dtor_log ht' = dtor_log ht @ (if pDestructor ht then map snd (ht_items ht) else [])) \<and>
         (\<exists>ht'. zend_hash_graceful_destroy ht = Some ht' \<and> bheap ht' = Map.empty \<and>
            dtor_log ht' = dtor_log ht @ (if pDestructor ht then map snd (ht_items ht) else [])) \<and>
         (\<exists>ht'. zend_hash_graceful_reverse_destroy ht = Some ht' \<and> bheap ht' = Map.empty \<and>
            dtor_log ht' = dtor_log ht @ (if pDestructor ht then rev (map snd (ht_items ht)) else []))"
proof -
  obtain ps where inv: "hash_inv_at ht ps" using assms by (auto simp: hash_inv_def)
  note D = hash_inv_atD [OF inv]
  have empty: "hash_inv_at h [] \<Longrightarrow> bheap (free_arBuckets h) = Map.empty" for h :: "'a HashTable"
    using hash_structD(2) [OF hash_inv_atD(1)] by (fastforce simp: free_arBuckets_def dom_def)
  show ?thesis
    using destroy_result [OF D(1)] clean_result [OF D(1)] graceful_all [OF inv] graceful_reverse_all [OF inv] D(2)
    by (auto simp: zend_hash_graceful_destroy_def zend_hash_graceful_reverse_destroy_def empty hash_inv_def
          free_arBuckets_log)
qed

theorem hash_destroy_visits_all_witness:
  "\<exists>ht'. zend_hash_graceful_reverse_destroy demo = Some ht' \<and> bheap ht' = Map.empty \<and> dtor_log ht' = [20, 10]"
proof -
  have "dtor_log demo = []" "pDestructor demo" by code_simp+
  then show ?thesis using hash_destroy_visits_all [OF demo_inv] by (auto simp: demo_items)
qed

subsection \<open>Traversal\<close>



subsection \<open>Copying and merging\<close>

text \<open>
  C9. \<open>zend_hash_copy\<close> stores every element of the source in the target in list order,
  passed through the copy constructor, and terminates without a fault. Copied into an
  empty table the elements keep their order and keys and the internal pointer moves along.
\<close>

theorem hash_copy_refines_updates:
  assumes "hash_inv src" "hash_inv t" "length (ht_items t) + length (ht_items src) < 2 ^ 32"
  shows "\<exists>t'. zend_hash_copy ctor sz t src = Some t' \<and> hash_inv t' \<and>
     ht_items t' = fold (\<lambda>(k, v). AList.update k (ctor_fun ctor v)) (ht_items src) (ht_items t) \<and>
     (ht_items t = [] \<longrightarrow>
        ht_items t' = map (\<lambda>(k, v). (k, ctor_fun ctor v)) (ht_items src) \<and>
        ht_cursor t' = (if ht_cursor src = None then first_key (ht_items src) else ht_cursor src))"
proof -
  obtain t' cur where C: "zend_hash_copy ctor sz t src = Some t'" "hash_inv t'"
    "(ht_items t', cur) = fold (copy_step ctor (if ht_cursor t = None then ht_cursor src else None))
                           (ht_items src) (ht_items t, ht_cursor t)"
    "ht_cursor t' = (if cur = None then first_key (ht_items t') else cur)"
    using copy_result [OF assms] by blast
  obtain ps qs where inv: "hash_inv_at src ps" "hash_inv_at t qs" using assms(1,2) by (auto simp: hash_inv_def)
  have it: "ht_items t' = fold (\<lambda>(k, v). AList.update k (ctor_fun ctor v)) (ht_items src) (ht_items t)"
    using arg_cong [OF C(3), of fst] by (simp add: fst_fold_copy_step)
  have "ht_items t' = map (\<lambda>(k, v). (k, ctor_fun ctor v)) (ht_items src) \<and>
        ht_cursor t' = (if ht_cursor src = None then first_key (ht_items src) else ht_cursor src)"
    if empty: "ht_items t = []"
  proof -
    have "ht_cursor t = None" using cursor_in_items [OF inv(2)] empty by (cases "ht_cursor t") auto
    moreover have "ht_cursor src \<noteq> None \<Longrightarrow> ht_cursor src \<in> Some ` fst ` set (ht_items src)"
      using cursor_in_items [OF inv(1)] by auto
    ultimately show ?thesis
      using C(3,4) empty fold_copy_step_empty [OF hash_inv_atD(5) [OF inv(1)], of ctor "ht_cursor src"]
      by (auto simp: first_key_def image_iff split: list.splits if_splits)
  qed
  with C(1,2) it show ?thesis by blast
qed

theorem hash_copy_refines_updates_witness:
  "\<exists>t'. zend_hash_copy (Some (\<lambda>v. v + 1)) 8 (zend_hash_init 0 False False) demo = Some t' \<and>
     ht_items t' = [(StrKey ''ab'', 11), (IntKey 5, 21)]"
proof -
  have "hash_inv (zend_hash_init 0 False False)" using init_inv(1) by (auto simp: hash_inv_def)
  from hash_copy_refines_updates [OF demo_inv this, of "Some (\<lambda>v. v + 1)" 8] show ?thesis
    by (auto simp: demo_items init_inv ctor_fun_def)
qed

text \<open>
  \<open>zend_hash_merge\<close> adds the elements of the source in list order; an element whose
  key is in the target already replaces the old one when \<open>overwrite\<close> is set and is skipped
  otherwise. The internal pointer of the target is reset.
\<close>

theorem hash_merge_refines_updates:
  assumes "hash_inv src" "hash_inv t" "length (ht_items t) + length (ht_items src) < 2 ^ 32"
  shows "\<exists>t'. zend_hash_merge ctor sz ov t src = Some t' \<and> hash_inv t' \<and>
     ht_items t' = fold (\<lambda>(k, v) xs. if ov \<or> k \<notin> fst ` set xs then AList.update k (ctor_fun ctor v) xs else xs)
                     (ht_items src) (ht_items t) \<and>
     ht_cursor t' = first_key (ht_items t')"
proof -
  have "merge_step ctor ov = (\<lambda>(k, v) xs. if ov \<or> k \<notin> fst ` set xs then AList.update k (ctor_fun ctor v) xs else xs)"
    by (auto simp: fun_eq_iff merge_step_def)
  with merge_result [OF assms, of ctor sz ov] show ?thesis by simp
qed

theorem hash_merge_refines_updates_witness:
  "\<exists>t'. zend_hash_merge None 8 False demo_ab demo = Some t' \<and>
     ht_items t' = [(StrKey ''ab'', 10), (IntKey 5, 20)]"
  using hash_merge_refines_updates [OF demo_inv demo_ab_inv, of None 8 False]
  by (auto simp: demo_items ctor_fun_def)

subsection \<open>Positions\<close>

text \<open>
  C10. Walking a table with an external position, from \<open>zend_hash_internal_pointer_reset_ex\<close>
  by \<open>zend_hash_move_forward_ex\<close> while \<open>zend_hash_get_current_data_ex\<close> succeeds, ends
  and visits exactly the elements, each with its key, in list order.
\<close>

theorem hash_walk_visits_all:
  assumes "hash_inv ht"
  shows "\<exists>kvs. foreach ht = Some kvs \<and>
     map (\<lambda>(k, v). (current_hkey k, v)) kvs = map (\<lambda>(k, v). (Some k, v)) (ht_items ht)"
  by (rule foreach_items [OF assms])

theorem hash_walk_visits_all_witness:
  "\<exists>kvs. foreach demo = Some kvs \<and> map snd kvs = [10, 20]"
proof -
  obtain kvs where "foreach demo = Some kvs"
    and kvs: "map (\<lambda>(k, v). (current_hkey k, v)) kvs = map (\<lambda>(k, v). (Some k, v)) (ht_items demo)"
    using hash_walk_visits_all [OF demo_inv] by blast
  moreover have "map snd kvs = map snd (map (\<lambda>(k, v). (current_hkey k, v)) kvs)"
    by (induction kvs) auto
  then have "map snd kvs = [10, 20]" unfolding kvs demo_items by (rule trans) simp
  ultimately show ?thesis by (intro exI [of _ kvs] conjI)
qed



subsection \<open>Renumbering and sorting\<close>

text \<open>
  \<open>zend_hash_reindex\<close> restricted to integer keys gives them the numbers
  \<open>0, 1, \<dots>\<close> in list order, leaves string keys alone, rebuilds every chain and sets the
  next free index; the result is well-formed.
\<close>

theorem hash_reindex_renumbers:
  assumes "hash_inv ht"
  shows "\<exists>ht'. zend_hash_reindex True ht = Some ht' \<and> hash_inv ht' \<and>
     ht_items ht' = renum_items True 0 (ht_items ht)"
  by (rule reindex_inv [OF assms]) simp

theorem hash_reindex_renumbers_witness:
  "\<exists>ht'. zend_hash_reindex True demo = Some ht' \<and> ht_items ht' = [(StrKey ''ab'', 10), (IntKey 0, 20)]"
  using hash_reindex_renumbers [OF demo_inv] by (auto simp: demo_items)




subsection \<open>A stale key pointer\<close>

text \<open>
  Renumbering string keys (\<open>zend_hash_reindex\<close> with \<open>only_integer_keys\<close> unset, as
  \<open>zend_hash_sort\<close> does when it renumbers) clears \<open>nKeyLength\<close> but leaves \<open>arKey\<close>. A
  later lookup of the old key through the same interned string matches the pointer and finds
  the element that no longer has that key; the same lookup through a copy of the string does not.
\<close>

definition stale_ht :: "nat HashTable" where
  "stale_ht = result_table (zend_hash_update (CInterned [CHR ''c'', CHR 0x00]) 2 10 8 (zend_hash_init 8 True False))"

lemma reindex_stale_key:
  "map_option (\<lambda>ht. (ht_items ht, zend_hash_find (CInterned [CHR ''c'', CHR 0x00]) 2 ht,
                     zend_hash_find (CPrivate [CHR ''c'', CHR 0x00]) 2 ht)) (zend_hash_reindex False stale_ht)
   = Some ([(IntKey 0, 10)], Some (Some 10), Some None)"
  by code_simp

end
