(* ===== verification/Zend_Decimal.thy ===== *)
theory Zend_Decimal
  imports Zend_Prelude
begin

text \<open>
  Decimal notation, shared by the symbol table and the numeric-string operations: digits as
  C characters, the value of a digit string, and the canonical decimal of a number.
\<close>

definition is_digit :: "char \<Rightarrow> bool" where
  "is_digit c \<longleftrightarrow> (48::nat) \<le> of_char c \<and> of_char c \<le> (57::nat)"

definition digit_val :: "char \<Rightarrow> nat" where
  "digit_val c = of_char c - 48"

definition digit_char :: "nat \<Rightarrow> char" where
  "digit_char d = char_of (48 + d)"

text \<open>The value of a digit string that continues the value \<open>a\<close>.\<close>

definition dec_value :: "nat \<Rightarrow> string \<Rightarrow> nat" where
  "dec_value a ds = foldl (\<lambda>a c. a * 10 + digit_val c) a ds"

definition MAX_LENGTH_OF_LONG :: int where "MAX_LENGTH_OF_LONG = 20"

function decimal :: "nat \<Rightarrow> string" where
  "decimal n = (if n < 10 then [digit_char n] else decimal (n div 10) @ [digit_char (n mod 10)])"
  by auto
termination by (relation "measure id") auto

declare decimal.simps [simp del]

definition decimal_of_int :: "int \<Rightarrow> string" where
  "decimal_of_int i = (if i < 0 then CHR ''-'' # decimal (nat (- i)) else decimal (nat i))"

lemma digit_char_props [simp]:
  assumes "d < 10"
  shows "is_digit (digit_char d)" "digit_val (digit_char d) = d"
  using assms by (simp_all add: is_digit_def digit_val_def digit_char_def of_char_of)

lemma digit_val_less: "is_digit c \<Longrightarrow> digit_val c < 10"
  unfolding is_digit_def digit_val_def by linarith

lemma digit_char_val: "is_digit c \<Longrightarrow> digit_char (digit_val c) = c"
  by (simp add: is_digit_def digit_val_def digit_char_def)

lemma digit_not_sign: "is_digit c \<Longrightarrow> c \<noteq> CHR ''-''" "is_digit c \<Longrightarrow> c \<noteq> CHR 0x00"
  by (auto simp: is_digit_def)

lemma dec_value_simps [simp]:
  "dec_value a [] = a" "dec_value a (c # cs) = dec_value (a * 10 + digit_val c) cs"
  "dec_value a (cs @ [c]) = dec_value a cs * 10 + digit_val c"
  by (simp_all add: dec_value_def)

lemma dec_value_append: "dec_value a (xs @ ys) = dec_value (dec_value a xs) ys"
  by (simp add: dec_value_def)

lemma decimal_nonempty [simp]: "decimal n \<noteq> []"
  by (subst decimal.simps) simp

lemma decimal_digits: "\<forall>c \<in> set (decimal n). is_digit c"
proof (induction n rule: decimal.induct)
  case (1 n)
  then show ?case by (subst decimal.simps) auto
qed

lemma dec_value_decimal: "dec_value 0 (decimal n) = n"
proof (induction n rule: decimal.induct)
  case (1 n)
  then show ?case by (subst decimal.simps) auto
qed

lemma decimal_head: "0 < n \<Longrightarrow> hd (decimal n) \<noteq> CHR ''0''"
proof (induction n rule: decimal.induct)
  case (1 n)
  show ?case
  proof (cases "n < 10")
    case True
    then have "digit_val (digit_char n) = n" by simp
    then have "digit_char n \<noteq> CHR ''0''" using 1(2) by (auto simp: digit_val_def)
    with True show ?thesis by (subst decimal.simps) simp
  next
    case False
    with 1 show ?thesis by (subst decimal.simps) simp
  qed
qed

lemma digit_chars:
  "digit_char 0 = CHR ''0''" "digit_char (Suc 0) = CHR ''1''" "digit_char 2 = CHR ''2''" "digit_char 3 = CHR ''3''"
  "digit_char 4 = CHR ''4''" "digit_char 5 = CHR ''5''" "digit_char 6 = CHR ''6''" "digit_char 7 = CHR ''7''"
  "digit_char 8 = CHR ''8''" "digit_char 9 = CHR ''9''"
  by code_simp+

lemma decimal_0: "decimal 0 = ''0''"
  by (subst decimal.simps) (simp, code_simp)

text \<open>A digit string without a superfluous leading zero is the canonical one of its value.\<close>

lemma dec_value_pos: "cs \<noteq> [] \<Longrightarrow> \<forall>c \<in> set cs. is_digit c \<Longrightarrow> hd cs \<noteq> CHR ''0'' \<Longrightarrow> 0 < dec_value 0 cs"
proof (induction cs rule: rev_induct)
  case (snoc c cs)
  show ?case
  proof (cases "cs = []")
    case True
    with snoc have "is_digit c" "c \<noteq> CHR ''0''" by simp_all
    with digit_char_val [of c] have "digit_val c \<noteq> 0" by (metis decimal_0 decimal.simps list.inject zero_less_numeral)
    with True show ?thesis by simp
  qed (use snoc in simp)
qed simp

lemma decimal_dec_value:
  "cs \<noteq> [] \<Longrightarrow> \<forall>c \<in> set cs. is_digit c \<Longrightarrow> hd cs \<noteq> CHR ''0'' \<or> length cs = 1 \<Longrightarrow> decimal (dec_value 0 cs) = cs"
proof (induction cs rule: rev_induct)
  case (snoc c cs)
  have c: "is_digit c" "digit_val c < 10" using snoc.prems(2) digit_val_less by auto
  show ?case
  proof (cases "cs = []")
    case True
    with c show ?thesis by (subst decimal.simps) (simp add: digit_char_val)
  next
    case False
    then have h: "hd cs \<noteq> CHR ''0''" using snoc.prems(3) by auto
    have "0 < dec_value 0 cs" using dec_value_pos False snoc.prems(2) h by auto
    then have "decimal (dec_value 0 cs * 10 + digit_val c) = decimal (dec_value 0 cs) @ [c]"
      using c by (subst decimal.simps) (simp add: digit_char_val)
    with snoc False h show ?thesis by simp
  qed
qed simp

lemma dec_value_bound: "\<forall>c \<in> set cs. is_digit c \<Longrightarrow> dec_value a cs < (a + 1) * 10 ^ length cs"
proof (induction cs arbitrary: a)
  case (Cons c cs)
  then have "dec_value (a * 10 + digit_val c) cs < (a * 10 + digit_val c + 1) * 10 ^ length cs" by simp
  also have "\<dots> \<le> ((a + 1) * 10) * 10 ^ length cs" using digit_val_less [of c] Cons.prems by (intro mult_right_mono) auto
  finally show ?case by (simp add: algebra_simps)
qed simp

lemma decimal_length: "n < 10 ^ k \<Longrightarrow> 0 < k \<Longrightarrow> length (decimal n) \<le> k"
proof (induction n arbitrary: k rule: decimal.induct)
  case (1 n)
  show ?case
  proof (cases "n < 10")
    case True
    with 1 show ?thesis by (subst decimal.simps) simp
  next
    case False
    then obtain k' where k: "k = Suc k'" "0 < k'" using 1(2) by (cases k; cases "k - 1") auto
    then have "n div 10 < 10 ^ k'" using 1(2) by (simp add: less_mult_imp_div_less mult.commute)
    from 1(1) [OF False this k(2)] False k show ?thesis by (subst decimal.simps) simp
  qed
qed

lemma decimal_inject: "decimal m = decimal n \<longleftrightarrow> m = n"
  using dec_value_decimal by metis

end
