(* ===== verification/Zend_Symtable.thy ===== *)
theory Zend_Symtable
  imports Zend_Hash_Props Zend_Decimal
begin

text \<open>
  Symbol tables of \<^verbatim>\<open>Zend/zend_hash.h\<close>: \<open>ZEND_HANDLE_NUMERIC_EX\<close> turns a string key that
  is the decimal notation of a C \<open>long\<close> into an integer key, and the \<open>zend_symtable\<close>
  operations dispatch on it to the hash table. A read outside the key buffer is a fault
  (\<open>None\<close>). This is the rule by which \<^verbatim>\<open>$a["12"]\<close> and \<^verbatim>\<open>$a[12]\<close> are one element.
\<close>

subsection \<open>Numeric keys\<close>

definition rd_char :: "string \<Rightarrow> int \<Rightarrow> char option" where
  "rd_char key i = (if 0 \<le> i \<and> i < int (length key) then Some (key ! nat i) else None)"

text \<open>\<^verbatim>\<open>while (++tmp != end && *tmp >= '0' && *tmp <= '9')\<close>\<close>

function numeric_loop :: "string \<Rightarrow> int \<Rightarrow> int \<Rightarrow> ulong \<Rightarrow> (int \<times> ulong) option" where
  "numeric_loop key fin tmp idx =
     (if tmp + 1 = fin then Some (tmp + 1, idx)
      else (case rd_char key (tmp + 1) of None \<Rightarrow> None
            | Some c \<Rightarrow> if is_digit c then numeric_loop key fin (tmp + 1) (idx * 10 + of_nat (digit_val c))
                       else Some (tmp + 1, idx)))"
  by auto
termination
  by (relation "measure (\<lambda>(key, fin, tmp, idx). nat (int (length key) - tmp))") (auto simp: rd_char_def split: if_splits)

declare numeric_loop.simps [simp del]

text \<open>\<open>Some (Some idx)\<close>: the macro runs its action with \<open>idx\<close>; \<open>Some None\<close>: it falls through.\<close>

definition ZEND_HANDLE_NUMERIC_EX :: "string \<Rightarrow> uint \<Rightarrow> ulong option option" where
  "ZEND_HANDLE_NUMERIC_EX key klen = do {
     c0 \<leftarrow> rd_char key 0;
     let tmp = (if c0 = CHR ''-'' then 1 else 0);
     c \<leftarrow> rd_char key tmp;
     if \<not> is_digit c then Some None
     else do {
       let fin = uint klen - 1;
       ce \<leftarrow> rd_char key fin;
       if ce \<noteq> CHR 0x00 \<or> (c = CHR ''0'' \<and> klen > 2) \<or> fin - tmp > MAX_LENGTH_OF_LONG - 1 then Some None
       else do {
         (t, idx) \<leftarrow> numeric_loop key fin tmp (of_nat (digit_val c));
         Some (if t \<noteq> fin then None
               else if c0 = CHR ''-'' then (if idx - 1 > LONG_MAX then None else Some (0 - idx))
               else if idx > LONG_MAX then None else Some idx) } } }"





subsection \<open>The loop\<close>

lemma rd_char_append: "rd_char (us @ c # vs) (int (length us)) = Some c"
  by (simp add: rd_char_def)

lemma numeric_loop_digits:
  "\<forall>c \<in> set ds. is_digit c \<Longrightarrow>
   numeric_loop (us @ c0 # ds @ CHR 0x00 # vs) (int (length us + length ds) + 1) (int (length us)) idx =
     Some (int (length us + length ds) + 1, foldl (\<lambda>a c. a * 10 + of_nat (digit_val c)) idx ds)"
proof (induction ds arbitrary: us c0 idx)
  case Nil
  then show ?case by (subst numeric_loop.simps) simp
next
  case (Cons d ds)
  have "rd_char (us @ c0 # (d # ds) @ CHR 0x00 # vs) (int (length us) + 1) = Some d"
    using rd_char_append [of "us @ [c0]" d] by (simp add: add.commute)
  moreover have "int (length (us @ [c0])) = int (length us) + 1" by simp
  ultimately show ?case
    using Cons.IH [of "us @ [c0]" d "idx * 10 + of_nat (digit_val d)"] Cons.prems
    by (subst numeric_loop.simps) (simp add: add.commute add.left_commute)
qed

text \<open>Conversely, a loop that reaches the end has read digits only.\<close>

lemma numeric_loop_end:
  "numeric_loop key fin (int t) idx = Some (fin, idx') \<Longrightarrow> int t < fin \<Longrightarrow> fin < int (length key) \<Longrightarrow>
   \<exists>ds. drop (Suc t) (take (nat fin) key) = ds \<and> (\<forall>c \<in> set ds. is_digit c) \<and>
     idx' = foldl (\<lambda>a c. a * 10 + of_nat (digit_val c)) idx ds"
proof (induction key fin "int t" idx arbitrary: t rule: numeric_loop.induct)
  case (1 key fin idx)
  show ?case
  proof (cases "int t + 1 = fin")
    case True
    with 1(2) have "idx' = idx" by (subst (asm) numeric_loop.simps) auto
    moreover have "nat fin = Suc t" using True by linarith
    ultimately show ?thesis by simp
  next
    case False
    with 1(3,4) have b: "Suc t < nat fin" "Suc t < length key" "nat fin < length key" by auto
    then have rd: "rd_char key (int t + 1) = Some (key ! Suc t)" by (simp add: rd_char_def nat_add_distrib)
    have dig: "is_digit (key ! Suc t)"
      using 1(2) rd False by (subst (asm) numeric_loop.simps) (auto split: if_splits)
    have rec: "numeric_loop key fin (int (Suc t)) (idx * 10 + of_nat (digit_val (key ! Suc t))) = Some (fin, idx')"
      using 1(2) rd False dig by (subst (asm) numeric_loop.simps) (simp add: add.commute)
    have "drop (Suc t) (take (nat fin) key) = key ! Suc t # drop (Suc (Suc t)) (take (nat fin) key)"
      using b by (simp add: Cons_nth_drop_Suc [symmetric])
    with 1(1) [OF False rd dig _ rec] b dig show ?thesis by (simp add: add.commute)
  qed
qed

lemma foldl_of_nat:
  "foldl (\<lambda>a c. a * 10 + of_nat (digit_val c)) (of_nat n :: ulong) ds = of_nat (dec_value n ds)"
proof (induction ds arbitrary: n)
  case (Cons c ds)
  have "(of_nat n :: ulong) * 10 + of_nat (digit_val c) = of_nat (n * 10 + digit_val c)" by simp
  then show ?case using Cons.IH [of "n * 10 + digit_val c"] by simp
qed simp

subsection \<open>What is recognised\<close>

lemma handle_digits:
  assumes dig: "\<forall>c \<in> set (d # ds). is_digit c" and sg: "sg = [] \<or> sg = [CHR ''-'']"
    and key: "key = sg @ d # ds @ [CHR 0x00]" and len: "length key = unat klen" and n: "n = dec_value 0 (d # ds)"
  shows "ZEND_HANDLE_NUMERIC_EX key klen = Some (
    if (d = CHR ''0'' \<and> klen > 2) \<or> length ds > 18 then None
    else if sg \<noteq> [] then (if of_nat n - 1 > LONG_MAX then None else Some (0 - of_nat n))
    else if of_nat n > LONG_MAX then None else Some (of_nat n))"
proof -
  have d: "is_digit d" "d \<noteq> CHR ''-''" using dig digit_not_sign(1) [of d] by auto
  let ?t = "int (length sg)"
  have c0: "rd_char key 0 = Some (if sg = [] then d else CHR ''-'')" using sg key by (auto simp: rd_char_def)
  have t: "(if (if sg = [] then d else CHR ''-'') = CHR ''-'' then 1 else 0) = ?t" using sg d by auto
  have c: "rd_char key ?t = Some d" unfolding key by (rule rd_char_append)
  have "uint klen = int (length key)" using len by simp
  then have fin: "uint klen - 1 = int (length sg + length ds) + 1" by (simp add: key)
  have ce: "rd_char key (uint klen - 1) = Some (CHR 0x00)"
    using rd_char_append [of "sg @ d # ds" "CHR 0x00" "[]"] by (simp add: fin key add.commute add.left_commute)
  have loop: "numeric_loop key (uint klen - 1) ?t (of_nat (digit_val d)) = Some (uint klen - 1, of_nat n)"
    unfolding fin key using numeric_loop_digits [of ds sg d "[]" "of_nat (digit_val d)"] dig
    by (simp add: foldl_of_nat n)
  have "uint klen - 1 - ?t > MAX_LENGTH_OF_LONG - 1 \<longleftrightarrow> length ds > 18"
    unfolding fin by (auto simp: MAX_LENGTH_OF_LONG_def)
  moreover have "((if sg = [] then d else CHR ''-'') = CHR ''-'') = (sg \<noteq> [])" using d by simp
  ultimately show ?thesis
    unfolding ZEND_HANDLE_NUMERIC_EX_def c0 Let_def bind.simps t c ce loop using d(1) by simp
qed

lemma of_nat_le_LONG_MAX: "n < 2 ^ 64 \<Longrightarrow> (of_nat n > LONG_MAX) = (n \<ge> 2 ^ 63)"
  by (auto simp: word_less_nat_alt LONG_MAX_def unat_of_nat take_bit_nat_eq_self)

lemma digits_bound:
  assumes "\<forall>c \<in> set ds. is_digit c" "length ds \<le> 19"
  shows "dec_value 0 ds < 2 ^ 64"
proof -
  have "dec_value 0 ds < 1 * 10 ^ length ds" using dec_value_bound [OF assms(1), of 0] by simp
  also have "\<dots> \<le> 1 * 10 ^ 19" using assms(2) by (intro mult_left_mono power_increasing) auto
  also have "\<dots> < (2::nat) ^ 64" by simp
  finally show ?thesis .
qed

lemma sint_long: "- (2 ^ 63) \<le> i \<Longrightarrow> i < 2 ^ 63 \<Longrightarrow> sint (word_of_int i :: ulong) = i"
  by (subst signed_of_int) (simp add: signed_take_bit_int_eq_self)

lemma handle_numeric_sound:
  assumes len: "length key = unat klen" and H: "ZEND_HANDLE_NUMERIC_EX key klen = Some (Some idx)"
  shows "key = decimal_of_int (sint idx) @ [CHR 0x00]"
proof -
  let ?e = "uint klen - 1"
  have L: "uint klen = int (length key)" using len by simp
  obtain c0 where c0: "rd_char key 0 = Some c0" using H by (auto simp: ZEND_HANDLE_NUMERIC_EX_def bind_eq_Some_conv)
  define t where "t = (if c0 = CHR ''-'' then 1 else 0 :: nat)"
  have t: "(if c0 = CHR ''-'' then 1 else 0) = int t" by (simp add: t_def)
  obtain d t' ix where st: "rd_char key (int t) = Some d" "is_digit d" "rd_char key ?e = Some (CHR 0x00)"
    "numeric_loop key ?e (int t) (of_nat (digit_val d)) = Some (?e, ix)"
    using H c0 by (cases "c0 = CHR ''-''") (auto simp: ZEND_HANDLE_NUMERIC_EX_def Let_def t_def bind_eq_Some_conv split: if_splits)
  have e: "?e < int (length key)" "0 \<le> ?e" using st(3) by (auto simp: rd_char_def split: if_splits)
  have tl: "t < length key" "key ! t = d" using st(1) by (auto simp: rd_char_def split: if_splits)
  have ke: "key ! nat ?e = CHR 0x00" using st(3) e by (simp add: rd_char_def)
  have "t \<noteq> nat ?e" using st(2) tl ke digit_not_sign(2) by metis
  then have te: "int t < ?e" using tl L by linarith
  obtain ds where ds: "drop (Suc t) (take (nat ?e) key) = ds" "\<forall>c \<in> set ds. is_digit c"
    using numeric_loop_end [OF st(4) te e(1)] by auto
  have ne: "nat ?e = length key - 1" using L e by linarith
  have "key = take t key @ d # drop (Suc t) key" using tl id_take_nth_drop by metis
  moreover have "drop (Suc t) key = ds @ [CHR 0x00]"
  proof -
    have "key = take (nat ?e) key @ [CHR 0x00]"
      using id_take_nth_drop [of "nat ?e" key] ke ne tl by simp
    then have "drop (Suc t) key = drop (Suc t) (take (nat ?e) key) @ drop (Suc t - length (take (nat ?e) key)) [CHR 0x00]"
      by (metis drop_append)
    with te ds(1) e show ?thesis by simp
  qed
  moreover define sg where "sg = take t key"
  moreover have sg: "sg = (if c0 = CHR ''-'' then [CHR ''-''] else [])"
    using c0 tl by (cases key) (auto simp: sg_def t_def rd_char_def)
  ultimately have key: "key = sg @ d # ds @ [CHR 0x00]" by simp
  define n where "n = dec_value 0 (d # ds)"
  have dig: "\<forall>c \<in> set (d # ds). is_digit c" using st(2) ds(2) by simp
  have sg': "sg = [] \<or> sg = [CHR ''-'']" using sg by simp
  note E = handle_digits [OF dig sg' key len n_def]
  have l: "length ds \<le> 18" and z: "\<not> (d = CHR ''0'' \<and> klen > 2)" using E H by (auto split: if_splits)
  have nb: "n < 2 ^ 64" using digits_bound [OF dig] l by (simp add: n_def)
  have canon: "decimal n = d # ds"
  proof -
    have "d \<noteq> CHR ''0'' \<or> ds = []"
      using z len key by (cases ds) (auto simp: word_less_nat_alt)
    then show ?thesis unfolding n_def by (intro decimal_dec_value) (use dig in auto)
  qed
  show ?thesis
  proof (cases "sg = []")
    case True
    with E H l z have "of_nat n \<le> LONG_MAX" "idx = of_nat n" by (auto split: if_splits)
    then have "n < 2 ^ 63" using of_nat_le_LONG_MAX [OF nb] by (simp add: not_less [symmetric])
    then have "sint idx = int n"
      using sint_long [of "int n"] by (simp add: \<open>idx = of_nat n\<close>)
    with True canon key show ?thesis by (simp add: decimal_of_int_def)
  next
    case False
    with E H l z have 1: "of_nat n - 1 \<le> LONG_MAX" "idx = 0 - of_nat n" by (auto split: if_splits)
    have "n \<noteq> 0"
    proof
      assume "n = 0"
      with 1(1) have "(- 1 :: ulong) \<le> LONG_MAX" by simp
      then show False unfolding LONG_MAX_def by code_simp
    qed
    then have "of_nat n - 1 = (of_nat (n - 1) :: ulong)" by (simp add: of_nat_diff)
    with 1(1) of_nat_le_LONG_MAX [of "n - 1"] nb have nn: "n - 1 < 2 ^ 63" by (simp add: not_less [symmetric])
    have "idx = word_of_int (- int n)" by (simp add: 1(2))
    then have "sint idx = - int n" using nn \<open>n \<noteq> 0\<close> sint_long [of "- int n"] by simp
    with False sg' canon key \<open>n \<noteq> 0\<close> show ?thesis by (auto simp: decimal_of_int_def)
  qed
qed

lemma handle_numeric_complete:
  assumes i: "- (2 ^ 63) \<le> i" "i < 2 ^ 63" and key: "key = decimal_of_int i @ [CHR 0x00]"
    and len: "length key = unat klen"
  shows "ZEND_HANDLE_NUMERIC_EX key klen = Some (Some (word_of_int i))"
proof -
  define n where "n = nat (abs i)"
  define sg where "sg = (if i < 0 then [CHR ''-''] else [])"
  obtain d ds where dd: "decimal n = d # ds" by (cases "decimal n") auto
  have key': "key = sg @ d # ds @ [CHR 0x00]" using key dd by (auto simp: decimal_of_int_def sg_def n_def)
  have dig: "\<forall>c \<in> set (d # ds). is_digit c" using decimal_digits [of n] dd by simp
  have val: "n = dec_value 0 (d # ds)" using dec_value_decimal [of n] dd by simp
  have nb: "n \<le> 2 ^ 63" using i by (auto simp: n_def)
  then have "n < 10 ^ 19" by simp
  from decimal_length [OF this] have l: "length ds \<le> 18" using dd by simp
  have z: "\<not> (d = CHR ''0'' \<and> klen > 2)"
  proof
    assume a: "d = CHR ''0'' \<and> klen > 2"
    then have "n = 0" using decimal_head [of n] dd by auto
    then have "ds = []" "i = 0" using dd decimal_0 by (auto simp: n_def)
    with a len key' show False by (simp add: word_less_nat_alt sg_def)
  qed
  have E: "ZEND_HANDLE_NUMERIC_EX key klen = Some (
    if sg \<noteq> [] then (if of_nat n - 1 > LONG_MAX then None else Some (0 - of_nat n))
    else if of_nat n > LONG_MAX then None else Some (of_nat n))"
    using handle_digits [OF dig _ key' len val] z l by (auto simp: sg_def)
  show ?thesis
  proof (cases "i < 0")
    case True
    then have n: "int n = - i" "n \<noteq> 0" by (auto simp: n_def)
    then have "of_nat n - 1 = (of_nat (n - 1) :: ulong)" by (simp add: of_nat_diff)
    moreover have "\<not> of_nat (n - 1) > LONG_MAX" using of_nat_le_LONG_MAX [of "n - 1"] nb n(2) by auto
    moreover have "0 - of_nat n = (word_of_int i :: ulong)"
      using n(1) by (metis diff_0 minus_minus of_int_minus of_int_of_nat_eq)
    ultimately show ?thesis using E True by (simp add: sg_def)
  next
    case False
    then have n: "int n = i" by (auto simp: n_def)
    then have "n < 2 ^ 63" using i by simp
    then have "\<not> of_nat n > LONG_MAX" using of_nat_le_LONG_MAX [of n] by auto
    moreover have "of_nat n = (word_of_int i :: ulong)" using n by (metis of_int_of_nat_eq)
    ultimately show ?thesis using E False by (simp add: sg_def)
  qed
qed

lemma numeric_loop_total:
  "int t < fin \<Longrightarrow> fin < int (length key) \<Longrightarrow> \<exists>r. numeric_loop key fin (int t) idx = Some r"
proof (induction key fin "int t" idx arbitrary: t rule: numeric_loop.induct)
  case (1 key fin idx)
  show ?case
  proof (cases "int t + 1 = fin")
    case True
    then show ?thesis by (subst numeric_loop.simps) simp
  next
    case False
    with 1(2,3) have b: "int (Suc t) < fin" "Suc t < length key" by auto
    then have rd: "rd_char key (int t + 1) = Some (key ! Suc t)" by (simp add: rd_char_def nat_add_distrib)
    then show ?thesis
      using 1(1) [OF False rd, of "Suc t"] False b(1) 1(3) by (subst numeric_loop.simps) (auto simp: add.commute)
  qed
qed

lemma handle_numeric_total:
  assumes len: "length key = unat klen" and ne: "key \<noteq> []" and nul: "last key = CHR 0x00"
  shows "\<exists>r. ZEND_HANDLE_NUMERIC_EX key klen = Some r"
proof -
  obtain c0 cs where key: "key = c0 # cs" using ne by (cases key) auto
  have c0: "rd_char key 0 = Some c0" by (simp add: rd_char_def key)
  define t where "t = (if c0 = CHR ''-'' then 1 else 0 :: nat)"
  have t: "(if c0 = CHR ''-'' then 1 else 0) = int t" by (simp add: t_def)
  have tl: "t < length key" using key nul by (cases cs) (auto simp: t_def split: if_splits)
  have L: "uint klen = int (length key)" using len by simp
  have ce: "rd_char key (uint klen - 1) = Some (CHR 0x00)"
  proof -
    have "nat (uint klen - 1) = length key - 1" "0 \<le> uint klen - 1 \<and> uint klen - 1 < int (length key)"
      using L ne by (simp_all add: nat_diff_distrib Suc_le_eq)
    then show ?thesis using nul ne by (simp add: rd_char_def last_conv_nth)
  qed
  have c: "rd_char key (int t) = Some (key ! t)" using tl by (simp add: rd_char_def)
  show ?thesis
  proof (cases "is_digit (key ! t)")
    case False
    then show ?thesis unfolding ZEND_HANDLE_NUMERIC_EX_def c0 bind.simps Let_def t c by simp
  next
    case True
    then have "t \<noteq> length key - 1" using nul ne digit_not_sign(2) by (metis last_conv_nth)
    then have "int t < uint klen - 1" "uint klen - 1 < int (length key)" using tl L by auto
    then obtain a b where "numeric_loop key (uint klen - 1) (int t) (of_nat (digit_val (key ! t))) = Some (a, b)"
      using numeric_loop_total by fastforce
    with True show ?thesis unfolding ZEND_HANDLE_NUMERIC_EX_def c0 bind.simps Let_def t c ce by simp
  qed
qed

subsection \<open>Properties\<close>

text \<open>
  C14. \<open>ZEND_HANDLE_NUMERIC_EX\<close> recognises exactly the canonical decimal notations of C
  \<open>long\<close>s: on a NUL-terminated key of the stated length it never reads outside the key;
  the notation of every \<open>long\<close>, both bounds included, is turned into that number; and
  whatever it turns into a number is that number's notation, so leading zeros, \<^verbatim>\<open>-0\<close>,
  embedded NULs and out-of-range numbers stay strings.
\<close>

theorem handle_numeric_exact:
  assumes "length key = unat klen" "key \<noteq> []" "last key = CHR 0x00"
  shows "(\<exists>r. ZEND_HANDLE_NUMERIC_EX key klen = Some r) \<and>
     (- (2 ^ 63) \<le> i \<and> i < 2 ^ 63 \<and> key = decimal_of_int i @ [CHR 0x00] \<longrightarrow>
        ZEND_HANDLE_NUMERIC_EX key klen = Some (Some (word_of_int i))) \<and>
     (ZEND_HANDLE_NUMERIC_EX key klen = Some (Some idx) \<longrightarrow> key = decimal_of_int (sint idx) @ [CHR 0x00])"
  apply (intro conjI)
  subgoal by (rule handle_numeric_total [OF assms])
  subgoal using handle_numeric_complete [OF _ _ _ assms(1)] by simp
  subgoal using handle_numeric_sound [OF assms(1)] by simp
  done

theorem handle_numeric_exact_witness:
  "ZEND_HANDLE_NUMERIC_EX (''-9223372036854775808'' @ [CHR 0x00]) 21 = Some (Some (word_of_int (- 9223372036854775808))) \<and>
   (\<exists>r. ZEND_HANDLE_NUMERIC_EX (''-0'' @ [CHR 0x00]) 3 = Some r)"
proof -
  have "decimal_of_int (- 9223372036854775808) = ''-9223372036854775808''"
    by (simp add: decimal_of_int_def decimal.simps digit_chars)
  then show ?thesis
    using handle_numeric_exact [where key = "''-9223372036854775808'' @ [CHR 0x00]" and klen = 21 and i = "- 9223372036854775808" and idx = 0]
      handle_numeric_exact [where key = "''-0'' @ [CHR 0x00]" and klen = 3 and i = 0 and idx = 0] by simp
qed





end
