(* ===== verification/Zend_Hash_Key.thy ===== *)
theory Zend_Hash_Key
  imports Zend_Symtable
begin

text \<open>
  \<open>zend_hash_update_current_key_ex\<close> of \<^verbatim>\<open>Zend/zend_hash.c\<close>, which gives the current element
  another key in its place of the list, and the symbol-table form of it.
\<close>

unbundle bit_operations_syntax

subsection \<open>Changing the key of the current element\<close>

definition HASH_UPDATE_KEY_IF_NONE :: uint where "HASH_UPDATE_KEY_IF_NONE = 0"
definition HASH_UPDATE_KEY_IF_BEFORE :: uint where "HASH_UPDATE_KEY_IF_BEFORE = 1"
definition HASH_UPDATE_KEY_IF_AFTER :: uint where "HASH_UPDATE_KEY_IF_AFTER = 2"
definition HASH_UPDATE_KEY_ANYWAY :: uint where "HASH_UPDATE_KEY_ANYWAY = 3"

text \<open>Whether \<open>q\<close> is met on the way back from \<open>r\<close>.\<close>

partial_function (option) met_before :: "'v Bucket heap \<Rightarrow> nat \<Rightarrow> ptr \<Rightarrow> bool option" where
  "met_before m q r =
     (case r of None \<Rightarrow> Some False
      | Some a \<Rightarrow> if a = q then Some True else do { b \<leftarrow> m a; met_before m q (pListLast b) })"

declare met_before.simps [code]

text \<open>The bucket that already has the target key; \<open>None\<close> when the element has it itself.\<close>

definition key_target ::
    "key_type \<Rightarrow> charptr \<Rightarrow> uint \<Rightarrow> ulong \<Rightarrow> 'v Bucket \<Rightarrow> 'v HashTable \<Rightarrow> (zresult + ulong \<times> ptr) option" where
  "key_target kt str klen num b ht =
     (case kt of
        KEY_LONG \<Rightarrow>
          if nKeyLength b = 0 \<and> bkt_h b = num then Some (Inl SUCCESS)
          else do { q \<leftarrow> find_bucket (int_match num) num ht; Some (Inr (num, q)) }
      | KEY_STRING \<Rightarrow> do {
          hv \<leftarrow> (if IS_INTERNED str then zend_inline_hash_func (chars str) (of_nat (length (chars str)))
                 else zend_inline_hash_func (chars str) klen);
          same \<leftarrow> str_match str klen hv b;
          if same then Some (Inl SUCCESS)
          else do { q \<leftarrow> find_bucket (str_match str klen hv) hv ht; Some (Inr (hv, q)) } }
      | KEY_NON_EXISTENT \<Rightarrow> Some (Inl FAILURE))"

text \<open>Unlinking from the collision chain, in the order of this function.\<close>

definition unchain_current :: "nat \<Rightarrow> 'v HashTable \<Rightarrow> 'v HashTable option" where
  "unchain_current p ht = do {
     b \<leftarrow> bheap ht p;
     ht \<leftarrow> (case pNext b of Some n \<Rightarrow> wr n (\<lambda>c. c\<lparr>pLast := pLast b\<rparr>) ht | None \<Rightarrow> Some ht);
     (case pLast b of Some l \<Rightarrow> wr l (\<lambda>c. c\<lparr>pNext := pNext b\<rparr>) ht
                    | None \<Rightarrow> wr_slot (nIndex (bkt_h b) ht) (pNext b) ht) }"

text \<open>
  A bucket with room for the new key takes the place of \<open>p\<close>. Its \<open>h\<close> and chain links are
  written below; its \<open>arKey\<close> has not been assigned.
\<close>

definition replace_bucket :: "nat \<Rightarrow> uint \<Rightarrow> hpos \<Rightarrow> 'v HashTable \<Rightarrow> (nat \<times> hpos \<times> 'v HashTable) option" where
  "replace_bucket p klen pos ht = do {
     b \<leftarrow> bheap ht p;
     let (q, ht) = pemalloc_bucket (b\<lparr>nKeyLength := klen, arKey := CUninit\<rparr>) ht;
     ht \<leftarrow> CONNECT_TO_GLOBAL_DLLIST_EX q (pListLast b) (pListNext b) ht;
     let ht = (if pInternalPointer ht = Some p then ht\<lparr>pInternalPointer := Some q\<rparr> else ht);
     ht \<leftarrow> pefree_bucket p ht;
     Some (q, (case pos of None \<Rightarrow> None | Some _ \<Rightarrow> Some (Some q)), ht) }"

definition assign_key ::
    "key_type \<Rightarrow> charptr \<Rightarrow> uint \<Rightarrow> ulong \<Rightarrow> nat \<Rightarrow> 'v HashTable \<Rightarrow> 'v HashTable option" where
  "assign_key kt str klen hv p ht = do {
     ht \<leftarrow> (if kt = KEY_LONG
            then do { ht \<leftarrow> wr p (\<lambda>b. b\<lparr>bkt_h := hv\<rparr>) ht; Some (bump_next_free hv ht) }
            else wr p (\<lambda>b. b\<lparr>bkt_h := hv, nKeyLength := klen,
                     arKey := (if IS_INTERNED str then str else CPrivate (take (unat klen) (chars str)))\<rparr>) ht);
     hd \<leftarrow> rd_slot (nIndex hv ht) ht;
     ht \<leftarrow> CONNECT_TO_BUCKET_DLLIST p hd ht;
     wr_slot (nIndex hv ht) (Some p) ht }"

definition needs_new_bucket :: "charptr \<Rightarrow> uint \<Rightarrow> 'v Bucket \<Rightarrow> bool" where
  "needs_new_bucket str klen b \<longleftrightarrow>
     IS_INTERNED (arKey b) \<noteq> IS_INTERNED str \<or> (\<not> IS_INTERNED (arKey b) \<and> nKeyLength b \<noteq> klen)"

definition change_key ::
    "key_type \<Rightarrow> charptr \<Rightarrow> uint \<Rightarrow> ulong \<Rightarrow> nat \<Rightarrow> hpos \<Rightarrow> 'v HashTable \<Rightarrow> (zresult \<times> hpos \<times> 'v HashTable) option" where
  "change_key kt str klen hv p pos ht = do {
     ht \<leftarrow> unchain_current p ht;
     b \<leftarrow> bheap ht p;
     (p, pos, ht) \<leftarrow> (if needs_new_bucket str klen b then replace_bucket p klen pos ht else Some (p, pos, ht));
     ht \<leftarrow> assign_key kt str klen hv p ht;
     Some (SUCCESS, pos, ht) }"

definition zend_hash_update_current_key_ex ::
    "key_type \<Rightarrow> charptr \<Rightarrow> uint \<Rightarrow> ulong \<Rightarrow> uint \<Rightarrow> hpos \<Rightarrow> 'v HashTable \<Rightarrow> (zresult \<times> hpos \<times> 'v HashTable) option" where
  "zend_hash_update_current_key_ex kt str klen0 num mode pos ht =
     (case cur_pos pos ht of None \<Rightarrow> Some (FAILURE, pos, ht)
      | Some p \<Rightarrow> do {
          b \<leftarrow> bheap ht p;
          let klen = (if kt = KEY_LONG then 0 else klen0);
          t \<leftarrow> key_target kt str klen num b ht;
          (case t of Inl r \<Rightarrow> Some (r, pos, ht)
           | Inr (hv, None) \<Rightarrow> change_key kt str klen hv p pos ht
           | Inr (hv, Some q) \<Rightarrow> do {
               refuse \<leftarrow> (if mode = HASH_UPDATE_KEY_ANYWAY then Some False
                          else do {
                            before \<leftarrow> met_before (bheap ht) q (pListLast b);
                            Some (mode AND (if before then HASH_UPDATE_KEY_IF_AFTER else HASH_UPDATE_KEY_IF_BEFORE) \<noteq> 0) });
               if refuse then do { ht \<leftarrow> zend_hash_bucket_delete p ht; Some (FAILURE, pos, ht) }
               else do { ht \<leftarrow> zend_hash_bucket_delete q ht; change_key kt str klen hv p pos ht } }) })"

definition zend_symtable_update_current_key_ex ::
    "charptr \<Rightarrow> uint \<Rightarrow> uint \<Rightarrow> hpos \<Rightarrow> 'v HashTable \<Rightarrow> (zresult \<times> hpos \<times> 'v HashTable) option" where
  "zend_symtable_update_current_key_ex key klen mode pos ht = do {
     num \<leftarrow> ZEND_HANDLE_NUMERIC_EX (chars key) klen;
     (case num of Some idx \<Rightarrow> zend_hash_update_current_key_ex KEY_LONG CNull 0 idx mode pos ht
      | None \<Rightarrow> zend_hash_update_current_key_ex KEY_STRING key klen 0 mode pos ht) }"

subsection \<open>An uninitialised key\<close>

text \<open>
  Giving a string-keyed element an integer key allocates a bucket whose \<open>arKey\<close> is never
  assigned: a later string lookup that reaches this chain reads the uninitialised pointer.
\<close>

definition rekeyed :: "nat HashTable" where
  "rekeyed = (case zend_hash_update_current_key_ex KEY_LONG CNull 0 6 HASH_UPDATE_KEY_ANYWAY None demo of
                Some (_, _, ht) \<Rightarrow> ht | None \<Rightarrow> demo)"

lemma update_key_uninitialised:
  "ht_items rekeyed = [(IntKey 6, 10), (IntKey 5, 20)]" "zend_hash_find (CPrivate ''q'') 1 rekeyed = None"
  by code_simp+

end
