(* ===== verification/Zend_Stack.thy ===== *)
theory Zend_Stack
  imports Zend_Prelude
begin

text \<open>
  The element stack of \<^verbatim>\<open>Zend/zend_stack.c\<close>: an array of pointers to copies of the
  pushed elements that grows by \<open>STACK_BLOCK_SIZE\<close> and never shrinks. \<open>lifo\<close> is the
  contract a stack promises its clients; both this stack and the pointer stack meet it.

  \<open>top\<close> and \<open>max\<close> are C \<open>int\<close>s: an addition that leaves the 32-bit range is undefined
  and gives \<open>None\<close>, as does an access outside the array. \<open>erealloc\<close> does not return on
  failure, so the branch that tests its result is not reached.
\<close>

subsection \<open>C integers and arrays\<close>

definition int_add :: "int \<Rightarrow> int \<Rightarrow> int option" where
  "int_add a b = (if - (2 ^ 31) \<le> a + b \<and> a + b < 2 ^ 31 then Some (a + b) else None)"

text \<open>A slot of a pointer array: \<open>None\<close> is uninitialised or freed.\<close>

definition slot_get :: "'e option list \<Rightarrow> int \<Rightarrow> 'e option" where
  "slot_get xs i = (if 0 \<le> i \<and> i < int (length xs) then xs ! nat i else None)"

definition slot_put :: "'e option list \<Rightarrow> int \<Rightarrow> 'e option \<Rightarrow> 'e option list option" where
  "slot_put xs i e = (if 0 \<le> i \<and> i < int (length xs) then Some (xs[nat i := e]) else None)"

text \<open>\<open>erealloc\<close> of the array to \<open>n\<close> slots; the old slots keep their contents.\<close>

definition realloc_slots :: "'e option list option \<Rightarrow> int \<Rightarrow> 'e option list" where
  "realloc_slots a n = (let xs = (case a of None \<Rightarrow> [] | Some xs \<Rightarrow> xs)
                        in take (nat n) xs @ replicate (nat n - length xs) None)"

subsection \<open>The stack\<close>

record 'e zend_stack =
  stk_top :: int
  stk_max :: int
  elements :: "'e option list option"

definition STACK_BLOCK_SIZE :: int where "STACK_BLOCK_SIZE = 64"

definition zend_stack_init :: "'e zend_stack" where
  "zend_stack_init = \<lparr>stk_top = 0, stk_max = 0, elements = None\<rparr>"

definition zend_stack_push :: "'e \<Rightarrow> 'e zend_stack \<Rightarrow> (int \<times> 'e zend_stack) option" where
  "zend_stack_push element s = do {
     s \<leftarrow> (if stk_top s \<ge> stk_max s then do {
             mx \<leftarrow> int_add (stk_max s) STACK_BLOCK_SIZE;
             Some (s\<lparr>stk_max := mx, elements := Some (realloc_slots (elements s) mx)\<rparr>) }
           else Some s);
     xs \<leftarrow> elements s;
     xs \<leftarrow> slot_put xs (stk_top s) (Some element);
     t \<leftarrow> int_add (stk_top s) 1;
     Some (stk_top s, s\<lparr>elements := Some xs, stk_top := t\<rparr>) }"

text \<open>\<open>Some (Some e)\<close>: \<open>SUCCESS\<close> with the element; \<open>Some None\<close>: \<open>FAILURE\<close>.\<close>

definition zend_stack_top :: "'e zend_stack \<Rightarrow> 'e option option" where
  "zend_stack_top s =
     (if stk_top s > 0 then do { xs \<leftarrow> elements s; e \<leftarrow> slot_get xs (stk_top s - 1); Some (Some e) }
      else Some None)"

definition zend_stack_del_top :: "'e zend_stack \<Rightarrow> 'e zend_stack option" where
  "zend_stack_del_top s =
     (if stk_top s > 0 then do {
        xs \<leftarrow> elements s;
        _ \<leftarrow> slot_get xs (stk_top s - 1);
        xs \<leftarrow> slot_put xs (stk_top s - 1) None;
        Some (s\<lparr>stk_top := stk_top s - 1, elements := Some xs\<rparr>) }
      else Some s)"

text \<open>A stack of \<open>int\<close>s; the error value is \<open>FAILURE\<close>, that is -1.\<close>

definition zend_stack_int_top :: "int zend_stack \<Rightarrow> int option" where
  "zend_stack_int_top s = do { e \<leftarrow> zend_stack_top s; Some (case e of None \<Rightarrow> - 1 | Some i \<Rightarrow> i) }"

definition zend_stack_is_empty :: "'e zend_stack \<Rightarrow> bool" where
  "zend_stack_is_empty s = (stk_top s = 0)"

text \<open>The loop that frees the elements; each must be allocated.\<close>

fun free_slots :: "nat \<Rightarrow> nat \<Rightarrow> 'e option list \<Rightarrow> 'e option list option" where
  "free_slots i 0 xs = Some xs"
| "free_slots i (Suc n) xs = do { _ \<leftarrow> slot_get xs (int i); free_slots (Suc i) n (xs[i := None]) }"

definition zend_stack_destroy :: "'e zend_stack \<Rightarrow> 'e zend_stack option" where
  "zend_stack_destroy s =
     (case elements s of None \<Rightarrow> Some s
      | Some xs \<Rightarrow> do { _ \<leftarrow> free_slots 0 (nat (stk_top s)) xs; Some (s\<lparr>elements := None\<rparr>) })"

definition zend_stack_base :: "'e zend_stack \<Rightarrow> 'e option list option" where
  "zend_stack_base s = elements s"

definition zend_stack_count :: "'e zend_stack \<Rightarrow> int" where
  "zend_stack_count s = stk_top s"

datatype stack_apply_type = ZEND_STACK_APPLY_TOPDOWN | ZEND_STACK_APPLY_BOTTOMUP

text \<open>The calls over the given indices, until the callback answers true.\<close>

fun apply_slots ::
    "('e \<Rightarrow> 's \<Rightarrow> bool \<times> 's) \<Rightarrow> 'e option list \<Rightarrow> nat list \<Rightarrow> 's \<Rightarrow> 's option" where
  "apply_slots f xs [] s = Some s"
| "apply_slots f xs (i # is) s = do {
     e \<leftarrow> slot_get xs (int i);
     (case f e s of (stop, s) \<Rightarrow> if stop then Some s else apply_slots f xs is s) }"

definition zend_stack_apply ::
    "stack_apply_type \<Rightarrow> ('e \<Rightarrow> 's \<Rightarrow> bool \<times> 's) \<Rightarrow> 'e zend_stack \<Rightarrow> 's \<Rightarrow> 's option" where
  "zend_stack_apply ty f s st =
     (let idx = (case ty of ZEND_STACK_APPLY_TOPDOWN \<Rightarrow> rev [0..<nat (stk_top s)]
                 | ZEND_STACK_APPLY_BOTTOMUP \<Rightarrow> [0..<nat (stk_top s)])
      in if idx = [] then Some st else do { xs \<leftarrow> elements s; apply_slots f xs idx st })"

definition zend_stack_apply_with_argument ::
    "stack_apply_type \<Rightarrow> ('e \<Rightarrow> 'a \<Rightarrow> 's \<Rightarrow> bool \<times> 's) \<Rightarrow> 'a \<Rightarrow> 'e zend_stack \<Rightarrow> 's \<Rightarrow> 's option" where
  "zend_stack_apply_with_argument ty f arg s st = zend_stack_apply ty (\<lambda>e. f e arg) s st"

subsection \<open>Slots\<close>

lemma slot_put_get:
  "slot_put xs i e = Some ys \<Longrightarrow> slot_get ys j = (if j = i then e else slot_get xs j) \<and> length ys = length xs"
  by (auto simp: slot_put_def slot_get_def nat_eq_iff split: if_splits)

lemma realloc_prefix:
  assumes "length xs \<le> nat n" "i < length xs"
  shows "realloc_slots (Some xs) n ! i = xs ! i" "length (realloc_slots (Some xs) n) = nat n"
  using assms by (auto simp: realloc_slots_def nth_append)

subsection \<open>The contract of a stack\<close>

locale lifo =
  fixes invar :: "'s \<Rightarrow> bool" and contents :: "'s \<Rightarrow> 'e list" and empty :: 's
    and push :: "'e \<Rightarrow> 's \<Rightarrow> 's option" and pop :: "'s \<Rightarrow> 's option" and peek :: "'s \<Rightarrow> 'e option"
    and cap :: nat
  assumes empty_ok: "invar empty" "contents empty = []"
    and push_ok: "invar s \<Longrightarrow> length (contents s) < cap \<Longrightarrow>
           \<exists>s'. push e s = Some s' \<and> invar s' \<and> contents s' = e # contents s"
    and pop_ok: "invar s \<Longrightarrow> contents s = e # es \<Longrightarrow> \<exists>s'. pop s = Some s' \<and> invar s' \<and> contents s' = es"
    and peek_ok: "invar s \<Longrightarrow> contents s = e # es \<Longrightarrow> peek s = Some e"
begin

lemma pop_push:
  assumes "invar s" "length (contents s) < cap" "push e s = Some s'"
  shows "peek s' = Some e" "\<exists>s''. pop s' = Some s'' \<and> invar s'' \<and> contents s'' = contents s"
  using push_ok [OF assms(1,2), of e] assms(3) peek_ok pop_ok by fastforce+

text \<open>Pushing a list and popping as many times.\<close>

fun push_all :: "'e list \<Rightarrow> 's \<Rightarrow> 's option" where
  "push_all [] s = Some s"
| "push_all (e # es) s = do { s \<leftarrow> push e s; push_all es s }"

fun pop_many :: "nat \<Rightarrow> 's \<Rightarrow> ('e list \<times> 's) option" where
  "pop_many 0 s = Some ([], s)"
| "pop_many (Suc n) s = do { e \<leftarrow> peek s; s \<leftarrow> pop s; (es, s) \<leftarrow> pop_many n s; Some (e # es, s) }"

lemma push_all_contents:
  "invar s \<Longrightarrow> length (contents s) + length es \<le> cap \<Longrightarrow>
   \<exists>s'. push_all es s = Some s' \<and> invar s' \<and> contents s' = rev es @ contents s"
proof (induction es arbitrary: s)
  case (Cons e es)
  then obtain s1 where "push e s = Some s1" "invar s1" "contents s1 = e # contents s"
    using push_ok [of s e] by auto
  with Cons.IH [of s1] Cons.prems show ?case by auto
qed simp

lemma pop_many_contents:
  "invar s \<Longrightarrow> contents s = es @ fs \<Longrightarrow>
   \<exists>s'. pop_many (length es) s = Some (es, s') \<and> invar s' \<and> contents s' = fs"
proof (induction es arbitrary: s)
  case (Cons e es)
  then obtain s1 where "pop s = Some s1" "invar s1" "contents s1 = es @ fs" "peek s = Some e"
    using pop_ok [of s e "es @ fs"] peek_ok [of s e "es @ fs"] by auto
  with Cons.IH [of s1] show ?case by auto
qed simp

lemma last_in_first_out:
  assumes "invar s" "length (contents s) + length es \<le> cap"
  shows "\<exists>s1 s2. push_all es s = Some s1 \<and> pop_many (length es) s1 = Some (rev es, s2) \<and>
           invar s2 \<and> contents s2 = contents s"
  using push_all_contents [OF assms] pop_many_contents [of _ "rev es" "contents s"] by fastforce

end

subsection \<open>The stack meets the contract\<close>

definition stack_inv :: "'e zend_stack \<Rightarrow> bool" where
  "stack_inv s \<longleftrightarrow> 0 \<le> stk_top s \<and> stk_top s \<le> stk_max s \<and> stk_max s < 2 ^ 31 \<and>
     (case elements s of None \<Rightarrow> stk_max s = 0
      | Some xs \<Rightarrow> int (length xs) = stk_max s \<and> (\<forall>i < nat (stk_top s). xs ! i \<noteq> None))"

text \<open>The elements, the top first.\<close>

definition stack_contents :: "'e zend_stack \<Rightarrow> 'e list" where
  "stack_contents s = (case elements s of None \<Rightarrow> [] | Some xs \<Rightarrow> rev (map the (take (nat (stk_top s)) xs)))"

definition stack_cap :: nat where "stack_cap = 2 ^ 31 - 64"

lemma stack_contents_length: "stack_inv s \<Longrightarrow> length (stack_contents s) = nat (stk_top s)"
  by (auto simp: stack_inv_def stack_contents_def split: option.splits)

lemma stack_push_ok:
  assumes inv: "stack_inv s" and cap: "length (stack_contents s) < stack_cap"
  shows "\<exists>s'. zend_stack_push e s = Some (stk_top s, s') \<and> stack_inv s' \<and> stack_contents s' = e # stack_contents s \<and>
     stk_top s' = stk_top s + 1"
proof -
  have top: "0 \<le> stk_top s" "stk_top s < 2 ^ 31 - 64"
    using inv cap stack_contents_length [OF inv] by (auto simp: stack_inv_def stack_cap_def)
  define xs0 where "xs0 = (case elements s of None \<Rightarrow> [] | Some xs \<Rightarrow> xs)"
  have xs0: "int (length xs0) = stk_max s" "\<forall>i < nat (stk_top s). xs0 ! i \<noteq> None"
    "stack_contents s = rev (map the (take (nat (stk_top s)) xs0))"
    using inv by (auto simp: stack_inv_def stack_contents_def xs0_def split: option.splits)
  define mx where "mx = (if stk_top s \<ge> stk_max s then stk_max s + STACK_BLOCK_SIZE else stk_max s)"
  define xs where "xs = (if stk_top s \<ge> stk_max s then realloc_slots (elements s) mx else xs0)"
  have mx: "stk_top s < mx" "mx < 2 ^ 31" "stk_max s \<le> mx"
    using inv top by (auto simp: mx_def stack_inv_def STACK_BLOCK_SIZE_def)
  have xs: "int (length xs) = mx" "take (nat (stk_top s)) xs = take (nat (stk_top s)) xs0"
    using xs0(1) mx(1) inv top(1)
    by (auto simp: xs_def mx_def realloc_slots_def stack_inv_def STACK_BLOCK_SIZE_def xs0_def Let_def split: option.splits)
  define s1 where "s1 = s\<lparr>stk_max := mx, elements := Some xs\<rparr>"
  have grow: "(if stk_top s \<ge> stk_max s then do {
             mx \<leftarrow> int_add (stk_max s) STACK_BLOCK_SIZE;
             Some (s\<lparr>stk_max := mx, elements := Some (realloc_slots (elements s) mx)\<rparr>) }
           else Some s) = Some s1"
    using inv top mx by (auto simp: s1_def mx_def xs_def xs0_def int_add_def stack_inv_def STACK_BLOCK_SIZE_def split: option.splits)
  define s2 where "s2 = s1\<lparr>elements := Some (xs[nat (stk_top s) := Some e]), stk_top := stk_top s + 1\<rparr>"
  have run: "zend_stack_push e s = Some (stk_top s, s2)"
    unfolding zend_stack_push_def grow using top mx xs(1)
    by (simp add: s1_def s2_def slot_put_def int_add_def)
  have nt: "nat (stk_top s + 1) = Suc (nat (stk_top s))" "nat (stk_top s) < length xs" using top(1) mx(1) xs(1) by auto
  have pre: "\<forall>i < nat (stk_top s). xs ! i = xs0 ! i" using xs(2) by (metis nth_take)
  have "stack_inv s2"
    using top mx xs(1) xs0(2) pre nt by (auto simp: stack_inv_def s2_def s1_def nth_list_update less_Suc_eq)
  moreover have "stack_contents s2 = e # stack_contents s"
    using nt xs(2) xs0(3) by (simp add: stack_contents_def s2_def s1_def take_Suc_conv_app_nth)
  ultimately show ?thesis using run by (auto simp: s2_def)
qed

lemma stack_top_ok:
  assumes inv: "stack_inv s"
  shows "zend_stack_top s = Some (case stack_contents s of [] \<Rightarrow> None | e # _ \<Rightarrow> Some e)"
proof (cases "stk_top s > 0")
  case False
  then show ?thesis using stack_contents_length [OF inv] by (cases "stack_contents s") (auto simp: zend_stack_top_def)
next
  case True
  then obtain xs where xs: "elements s = Some xs" using inv by (auto simp: stack_inv_def split: option.splits)
  have n: "nat (stk_top s) = Suc (nat (stk_top s - 1))" using True by simp
  have "nat (stk_top s - 1) < length xs" "xs ! nat (stk_top s - 1) \<noteq> None"
    using inv xs True by (auto simp: stack_inv_def)
  then show ?thesis
    using True xs n by (auto simp: zend_stack_top_def stack_contents_def slot_get_def take_Suc_conv_app_nth)
qed

lemma stack_del_top_ok:
  assumes inv: "stack_inv s"
  shows "\<exists>s'. zend_stack_del_top s = Some s' \<and> stack_inv s' \<and> stack_contents s' = tl (stack_contents s)"
proof (cases "stk_top s > 0")
  case False
  then show ?thesis
    using inv stack_contents_length [OF inv] by (auto simp: zend_stack_del_top_def)
next
  case True
  then obtain xs where xs: "elements s = Some xs" using inv by (auto simp: stack_inv_def split: option.splits)
  have n: "nat (stk_top s) = Suc (nat (stk_top s - 1))" using True by simp
  have i: "nat (stk_top s - 1) < length xs" "xs ! nat (stk_top s - 1) \<noteq> None" "stk_top s - 1 < int (length xs)"
    using inv xs True by (auto simp: stack_inv_def)
  let ?s = "s\<lparr>stk_top := stk_top s - 1, elements := Some (xs[nat (stk_top s - 1) := None])\<rparr>"
  have "zend_stack_del_top s = Some ?s"
    using True xs i by (auto simp: zend_stack_del_top_def slot_get_def slot_put_def)
  moreover have "stack_inv ?s" using inv xs True by (auto simp: stack_inv_def)
  moreover have "stack_contents ?s = tl (stack_contents s)"
    using xs n i(1) by (simp add: stack_contents_def take_Suc_conv_app_nth)
  ultimately show ?thesis by blast
qed

interpretation zs: lifo stack_inv stack_contents zend_stack_init
  "\<lambda>e s. map_option snd (zend_stack_push e s)" zend_stack_del_top "\<lambda>s. Option.bind (zend_stack_top s) id" stack_cap
proof
  show "stack_inv zend_stack_init" "stack_contents zend_stack_init = []"
    by (simp_all add: stack_inv_def stack_contents_def zend_stack_init_def)
next
  fix s :: "'a zend_stack" and e
  assume "stack_inv s" "length (stack_contents s) < stack_cap"
  then show "\<exists>s'. map_option snd (zend_stack_push e s) = Some s' \<and> stack_inv s' \<and> stack_contents s' = e # stack_contents s"
    using stack_push_ok by fastforce
next
  fix s :: "'a zend_stack" and e es
  assume "stack_inv s" "stack_contents s = e # es"
  then show "\<exists>s'. zend_stack_del_top s = Some s' \<and> stack_inv s' \<and> stack_contents s' = es"
    "Option.bind (zend_stack_top s) id = Some e"
    using stack_del_top_ok [of s] by (simp_all add: stack_top_ok)
qed

subsection \<open>Traversal\<close>

fun apply_until :: "('e \<Rightarrow> 's \<Rightarrow> bool \<times> 's) \<Rightarrow> 'e list \<Rightarrow> 's \<Rightarrow> 's" where
  "apply_until f [] s = s"
| "apply_until f (e # es) s = (case f e s of (stop, s) \<Rightarrow> if stop then s else apply_until f es s)"

lemma apply_slots_until:
  "\<forall>i \<in> set is. i < length xs \<and> xs ! i \<noteq> None \<Longrightarrow>
   apply_slots f xs is st = Some (apply_until f (map (\<lambda>i. the (xs ! i)) is) st)"
  by (induction "is" arbitrary: st) (auto simp: slot_get_def split: prod.splits)

lemma map_the_slots: "n \<le> length xs \<Longrightarrow> map (\<lambda>i. the (xs ! i)) [0..<n] = map the (take n xs)"
  by (rule nth_equalityI) auto

lemma free_slots_ok:
  "i + n \<le> length xs \<Longrightarrow> \<forall>j. i \<le> j \<and> j < i + n \<longrightarrow> xs ! j \<noteq> None \<Longrightarrow>
   \<exists>ys. free_slots i n xs = Some ys \<and> length ys = length xs \<and>
     (\<forall>j < length xs. ys ! j = (if i \<le> j \<and> j < i + n then None else xs ! j))"
proof (induction n arbitrary: i xs)
  case (Suc n)
  have i: "i < length xs" "xs ! i \<noteq> None" using Suc.prems(1) Suc.prems(2) [rule_format, of i] by auto
  from Suc.IH [of "Suc i" "xs[i := None]"] Suc.prems obtain ys where
    "free_slots (Suc i) n (xs[i := None]) = Some ys" "length ys = length xs"
    "\<forall>j < length xs. ys ! j = (if Suc i \<le> j \<and> j < Suc i + n then None else xs[i := None] ! j)" by auto
  with i show ?case by (auto simp: slot_get_def nth_list_update)
qed auto

subsection \<open>Properties\<close>

text \<open>
  C18. The element stack is last-in first-out while \<open>top\<close> and \<open>max\<close> stay inside C
  \<open>int\<close>: a push returns the old depth as its index, the pushed element is the top, and
  deleting it restores the former contents; on an empty stack \<open>zend_stack_top\<close> reports
  failure and \<open>zend_stack_del_top\<close> changes nothing.
\<close>

theorem zend_stack_lifo:
  assumes inv: "stack_inv s" and cap: "length (stack_contents s) < stack_cap"
  shows "(\<exists>s1 s2. zend_stack_push e s = Some (zend_stack_count s, s1) \<and> stack_inv s1 \<and>
        stack_contents s1 = e # stack_contents s \<and> zend_stack_count s1 = zend_stack_count s + 1 \<and>
        \<not> zend_stack_is_empty s1 \<and> zend_stack_top s1 = Some (Some e) \<and>
        zend_stack_del_top s1 = Some s2 \<and> stack_inv s2 \<and> stack_contents s2 = stack_contents s) \<and>
     (zend_stack_is_empty s \<longleftrightarrow> stack_contents s = []) \<and>
     (zend_stack_is_empty s \<longrightarrow> zend_stack_top s = Some None \<and> zend_stack_del_top s = Some s)"
proof (intro conjI)
  from stack_push_ok [OF inv cap, of e] obtain s1 where s1: "zend_stack_push e s = Some (stk_top s, s1)"
    "stack_inv s1" "stack_contents s1 = e # stack_contents s" "stk_top s1 = stk_top s + 1" by auto
  with stack_del_top_ok [OF s1(2)] stack_top_ok [OF s1(2)] inv
  show "\<exists>s1 s2. zend_stack_push e s = Some (zend_stack_count s, s1) \<and> stack_inv s1 \<and>
      stack_contents s1 = e # stack_contents s \<and> zend_stack_count s1 = zend_stack_count s + 1 \<and>
      \<not> zend_stack_is_empty s1 \<and> zend_stack_top s1 = Some (Some e) \<and>
      zend_stack_del_top s1 = Some s2 \<and> stack_inv s2 \<and> stack_contents s2 = stack_contents s"
    by (auto simp: zend_stack_count_def zend_stack_is_empty_def stack_inv_def)
  show empty: "zend_stack_is_empty s \<longleftrightarrow> stack_contents s = []"
    using inv stack_contents_length [OF inv] by (auto simp: zend_stack_is_empty_def stack_inv_def)
  show "zend_stack_is_empty s \<longrightarrow> zend_stack_top s = Some None \<and> zend_stack_del_top s = Some s"
    by (simp add: zend_stack_is_empty_def zend_stack_top_def zend_stack_del_top_def)
qed

theorem zend_stack_lifo_witness:
  "\<exists>s1 s2. zend_stack_push (7::nat) zend_stack_init = Some (0, s1) \<and> zend_stack_top s1 = Some (Some 7) \<and>
     zend_stack_del_top s1 = Some s2 \<and> stack_contents s2 = []"
proof -
  have "length (stack_contents (zend_stack_init :: nat zend_stack)) < stack_cap" "zend_stack_count (zend_stack_init :: nat zend_stack) = 0"
    by (simp_all add: stack_contents_def stack_cap_def zend_stack_count_def zend_stack_init_def)
  then show ?thesis using zend_stack_lifo [OF zs.empty_ok(1), where e = "7::nat"] by (auto simp: zs.empty_ok(2))
qed

text \<open>
  Traversing the element stack calls the function on the elements from the top down or
  from the bottom up, as asked, and stops after the first call that answers true; destroying
  the stack frees exactly the live elements and the array.
\<close>

theorem zend_stack_traversals:
  assumes inv: "stack_inv s"
  shows "(zend_stack_apply ZEND_STACK_APPLY_TOPDOWN f s st = Some (apply_until f (stack_contents s) st)) \<and>
     (zend_stack_apply ZEND_STACK_APPLY_BOTTOMUP f s st = Some (apply_until f (rev (stack_contents s)) st)) \<and>
     (zend_stack_apply_with_argument ZEND_STACK_APPLY_TOPDOWN g a s st =
        Some (apply_until (\<lambda>e. g e a) (stack_contents s) st)) \<and>
     (\<exists>s'. zend_stack_destroy s = Some s' \<and> zend_stack_base s' = None) \<and>
     (zend_stack_base s = Some xs \<longrightarrow>
        (\<exists>ys. free_slots 0 (nat (zend_stack_count s)) xs = Some ys \<and> (\<forall>i < nat (zend_stack_count s). ys ! i = None)))"
proof (intro conjI)
  have "zend_stack_apply ty h s st = Some (apply_until h (case ty of ZEND_STACK_APPLY_TOPDOWN \<Rightarrow> stack_contents s
      | ZEND_STACK_APPLY_BOTTOMUP \<Rightarrow> rev (stack_contents s)) st)" for ty h
  proof (cases "elements s")
    case None
    with inv show ?thesis by (cases ty) (auto simp: stack_inv_def zend_stack_apply_def stack_contents_def)
  next
    case (Some xs)
    with inv have "nat (stk_top s) \<le> length xs" "\<forall>i < nat (stk_top s). xs ! i \<noteq> None" by (auto simp: stack_inv_def)
    with Some show ?thesis
      by (cases ty) (auto simp: zend_stack_apply_def stack_contents_def apply_slots_until map_the_slots rev_map [symmetric])
  qed
  from this [of ZEND_STACK_APPLY_TOPDOWN] this [of ZEND_STACK_APPLY_BOTTOMUP]
  show "zend_stack_apply ZEND_STACK_APPLY_TOPDOWN f s st = Some (apply_until f (stack_contents s) st)"
    "zend_stack_apply ZEND_STACK_APPLY_BOTTOMUP f s st = Some (apply_until f (rev (stack_contents s)) st)"
    "zend_stack_apply_with_argument ZEND_STACK_APPLY_TOPDOWN g a s st = Some (apply_until (\<lambda>e. g e a) (stack_contents s) st)"
    by (simp_all add: zend_stack_apply_with_argument_def)
  have free: "elements s = Some xs \<Longrightarrow> \<exists>ys. free_slots 0 (nat (stk_top s)) xs = Some ys \<and> length ys = length xs \<and>
     (\<forall>j < length xs. ys ! j = (if j < nat (stk_top s) then None else xs ! j))" (is "_ \<Longrightarrow> ?free xs") for xs
  proof -
    assume "elements s = Some xs"
    with inv have "nat (stk_top s) \<le> length xs" "\<forall>j < nat (stk_top s). xs ! j \<noteq> None" by (auto simp: stack_inv_def)
    with free_slots_ok [of 0 "nat (stk_top s)" xs] show "?free xs" by simp
  qed
  then show "\<exists>s'. zend_stack_destroy s = Some s' \<and> zend_stack_base s' = None"
    by (cases "elements s") (fastforce simp: zend_stack_destroy_def zend_stack_base_def)+
  show "zend_stack_base s = Some xs \<longrightarrow>
      (\<exists>ys. free_slots 0 (nat (zend_stack_count s)) xs = Some ys \<and> (\<forall>i < nat (zend_stack_count s). ys ! i = None))"
    using free [of xs] inv by (auto simp: zend_stack_base_def zend_stack_count_def stack_inv_def)
qed

definition two_stack :: "nat zend_stack" where
  "two_stack = \<lparr>stk_top = 2, stk_max = 3, elements = Some [Some 1, Some 2, None]\<rparr>"

lemma two_stack_inv: "stack_inv two_stack"
  by (auto simp: stack_inv_def two_stack_def less_2_cases_iff nth_Cons split: nat.split)

lemma two_stack_contents: "stack_contents two_stack = [2, 1]"
  by (simp add: stack_contents_def two_stack_def)

theorem zend_stack_traversals_witness:
  "zend_stack_apply ZEND_STACK_APPLY_TOPDOWN (\<lambda>e l. (e = 2, l @ [e])) two_stack [] = Some [2] \<and>
   zend_stack_apply ZEND_STACK_APPLY_BOTTOMUP (\<lambda>e l. (e = 2, l @ [e])) two_stack [] = Some [1, 2] \<and>
   (\<exists>s'. zend_stack_destroy two_stack = Some s' \<and> zend_stack_base s' = None)"
  using zend_stack_traversals [OF two_stack_inv, where f = "\<lambda>e l. (e = 2, l @ [e])" and st = "[]" and g = "\<lambda>e a l. (False, l)" and a = 0 and xs = "[]"]
  by (auto simp: two_stack_contents)

end
