(* ===== verification/Zend_Ptr_Stack.thy ===== *)
theory Zend_Ptr_Stack
  imports Zend_Stack
begin

text \<open>
  The pointer stack of \<^verbatim>\<open>Zend/zend_ptr_stack.c\<close> and \<^verbatim>\<open>zend_ptr_stack.h\<close>: an array of
  pointers that grows in blocks, with a pointer to the next free slot kept beside the count.
  The slot pointer is the offset from \<open>elements\<close>. Variable arguments are lists. The stack
  meets the \<open>lifo\<close> contract of \<open>Zend_Stack\<close>.
\<close>

subsection \<open>The stack and its operations\<close>

record 'e zend_ptr_stack =
  pstk_top :: int
  pstk_max :: int
  pelements :: "'e option list option"
  top_element :: int
  persistent :: bool

definition PTR_STACK_BLOCK_SIZE :: int where "PTR_STACK_BLOCK_SIZE = 64"

definition zend_ptr_stack_init_ex :: "bool \<Rightarrow> 'e zend_ptr_stack" where
  "zend_ptr_stack_init_ex p =
     \<lparr>pstk_top = 0, pstk_max = 0, pelements = None, top_element = 0, persistent = p\<rparr>"

definition zend_ptr_stack_init :: "'e zend_ptr_stack" where
  "zend_ptr_stack_init = zend_ptr_stack_init_ex False"

text \<open>The do-while loop of the resize: blocks are added until \<open>need\<close> slots fit.\<close>

function grow_max :: "int \<Rightarrow> int \<Rightarrow> int option" where
  "grow_max need m = (case int_add m PTR_STACK_BLOCK_SIZE of None \<Rightarrow> None
     | Some m' \<Rightarrow> if need > m' then grow_max need m' else Some m')"
  by auto
termination
  by (relation "measure (\<lambda>(need, m). nat (need - m))")
    (auto simp: int_add_def PTR_STACK_BLOCK_SIZE_def split: if_splits)

definition ZEND_PTR_STACK_RESIZE_IF_NEEDED :: "int \<Rightarrow> 'e zend_ptr_stack \<Rightarrow> 'e zend_ptr_stack option" where
  "ZEND_PTR_STACK_RESIZE_IF_NEEDED n s = do {
     need \<leftarrow> int_add (pstk_top s) n;
     if need > pstk_max s then do {
       m \<leftarrow> grow_max need (pstk_max s);
       Some (s\<lparr>pstk_max := m, pelements := Some (realloc_slots (pelements s) m), top_element := pstk_top s\<rparr>) }
     else Some s }"

text \<open>\<open>*(stack->top_element++) = e\<close> and \<open>*(--stack->top_element)\<close>.\<close>

definition put_top :: "'e \<Rightarrow> 'e zend_ptr_stack \<Rightarrow> 'e zend_ptr_stack option" where
  "put_top e s = do {
     xs \<leftarrow> pelements s;
     xs \<leftarrow> slot_put xs (top_element s) (Some e);
     Some (s\<lparr>pelements := Some xs, top_element := top_element s + 1\<rparr>) }"

definition take_top :: "'e zend_ptr_stack \<Rightarrow> ('e \<times> 'e zend_ptr_stack) option" where
  "take_top s = do {
     xs \<leftarrow> pelements s;
     e \<leftarrow> slot_get xs (top_element s - 1);
     Some (e, s\<lparr>top_element := top_element s - 1\<rparr>) }"

definition add_top :: "int \<Rightarrow> 'e zend_ptr_stack \<Rightarrow> 'e zend_ptr_stack option" where
  "add_top n s = do { t \<leftarrow> int_add (pstk_top s) n; Some (s\<lparr>pstk_top := t\<rparr>) }"

fun n_push_loop :: "'e list \<Rightarrow> 'e zend_ptr_stack \<Rightarrow> 'e zend_ptr_stack option" where
  "n_push_loop [] s = Some s"
| "n_push_loop (e # es) s = do { s \<leftarrow> add_top 1 s; s \<leftarrow> put_top e s; n_push_loop es s }"

definition zend_ptr_stack_n_push :: "'e list \<Rightarrow> 'e zend_ptr_stack \<Rightarrow> 'e zend_ptr_stack option" where
  "zend_ptr_stack_n_push es s = do {
     s \<leftarrow> ZEND_PTR_STACK_RESIZE_IF_NEEDED (int (length es)) s;
     n_push_loop es s }"

text \<open>The popped pointers in the order of the out-parameters.\<close>

fun zend_ptr_stack_n_pop :: "nat \<Rightarrow> 'e zend_ptr_stack \<Rightarrow> ('e list \<times> 'e zend_ptr_stack) option" where
  "zend_ptr_stack_n_pop 0 s = Some ([], s)"
| "zend_ptr_stack_n_pop (Suc n) s = do {
     (e, s) \<leftarrow> take_top s; s \<leftarrow> add_top (- 1) s;
     (es, s) \<leftarrow> zend_ptr_stack_n_pop n s;
     Some (e # es, s) }"

definition zend_ptr_stack_3_push :: "'e \<Rightarrow> 'e \<Rightarrow> 'e \<Rightarrow> 'e zend_ptr_stack \<Rightarrow> 'e zend_ptr_stack option" where
  "zend_ptr_stack_3_push a b c s = do {
     s \<leftarrow> ZEND_PTR_STACK_RESIZE_IF_NEEDED 3 s;
     s \<leftarrow> add_top 3 s;
     s \<leftarrow> put_top a s; s \<leftarrow> put_top b s; put_top c s }"

definition zend_ptr_stack_2_push :: "'e \<Rightarrow> 'e \<Rightarrow> 'e zend_ptr_stack \<Rightarrow> 'e zend_ptr_stack option" where
  "zend_ptr_stack_2_push a b s = do {
     s \<leftarrow> ZEND_PTR_STACK_RESIZE_IF_NEEDED 2 s;
     s \<leftarrow> add_top 2 s;
     s \<leftarrow> put_top a s; put_top b s }"

definition zend_ptr_stack_3_pop :: "'e zend_ptr_stack \<Rightarrow> (('e \<times> 'e \<times> 'e) \<times> 'e zend_ptr_stack) option" where
  "zend_ptr_stack_3_pop s = do {
     (a, s) \<leftarrow> take_top s; (b, s) \<leftarrow> take_top s; (c, s) \<leftarrow> take_top s;
     s \<leftarrow> add_top (- 3) s;
     Some ((a, b, c), s) }"

definition zend_ptr_stack_2_pop :: "'e zend_ptr_stack \<Rightarrow> (('e \<times> 'e) \<times> 'e zend_ptr_stack) option" where
  "zend_ptr_stack_2_pop s = do {
     (a, s) \<leftarrow> take_top s; (b, s) \<leftarrow> take_top s;
     s \<leftarrow> add_top (- 2) s;
     Some ((a, b), s) }"

definition zend_ptr_stack_push :: "'e \<Rightarrow> 'e zend_ptr_stack \<Rightarrow> 'e zend_ptr_stack option" where
  "zend_ptr_stack_push e s = do {
     s \<leftarrow> ZEND_PTR_STACK_RESIZE_IF_NEEDED 1 s;
     s \<leftarrow> add_top 1 s;
     put_top e s }"

definition zend_ptr_stack_pop :: "'e zend_ptr_stack \<Rightarrow> ('e \<times> 'e zend_ptr_stack) option" where
  "zend_ptr_stack_pop s = do { s \<leftarrow> add_top (- 1) s; take_top s }"

definition zend_ptr_stack_top :: "'e zend_ptr_stack \<Rightarrow> 'e option" where
  "zend_ptr_stack_top s = do { xs \<leftarrow> pelements s; slot_get xs (pstk_top s - 1) }"

definition zend_ptr_stack_destroy :: "'e zend_ptr_stack \<Rightarrow> 'e zend_ptr_stack" where
  "zend_ptr_stack_destroy s = s\<lparr>pelements := None\<rparr>"

text \<open>The loop \<open>while (--i >= 0)\<close> over the slots; \<open>func\<close> acts on the client's state.\<close>

fun slots_down :: "('e \<Rightarrow> 's \<Rightarrow> 's) \<Rightarrow> 'e option list option \<Rightarrow> nat \<Rightarrow> 's \<Rightarrow> 's option" where
  "slots_down func es 0 st = Some st"
| "slots_down func es (Suc i) st = do {
     xs \<leftarrow> es; e \<leftarrow> slot_get xs (int i); slots_down func es i (func e st) }"

definition zend_ptr_stack_apply :: "('e \<Rightarrow> 's \<Rightarrow> 's) \<Rightarrow> 'e zend_ptr_stack \<Rightarrow> 's \<Rightarrow> 's option" where
  "zend_ptr_stack_apply func s st = slots_down func (pelements s) (nat (pstk_top s)) st"

text \<open>\<open>pefree\<close> acts on the client's memory and is an argument.\<close>

definition zend_ptr_stack_clean ::
    "(bool \<Rightarrow> 'e \<Rightarrow> 's \<Rightarrow> 's) \<Rightarrow> ('e \<Rightarrow> 's \<Rightarrow> 's) \<Rightarrow> bool \<Rightarrow> 'e zend_ptr_stack \<Rightarrow> 's \<Rightarrow>
     ('e zend_ptr_stack \<times> 's) option" where
  "zend_ptr_stack_clean pefree func free_elements s st = do {
     st \<leftarrow> zend_ptr_stack_apply func s st;
     st \<leftarrow> (if free_elements then slots_down (pefree (persistent s)) (pelements s) (nat (pstk_top s)) st
           else Some st);
     Some (s\<lparr>pstk_top := 0, top_element := 0\<rparr>, st) }"

definition zend_ptr_stack_num_elements :: "'e zend_ptr_stack \<Rightarrow> int" where
  "zend_ptr_stack_num_elements s = pstk_top s"

subsection \<open>The invariant\<close>

text \<open>\<open>ptr_mem\<close> speaks of the slot pointer alone: it holds between the writes of a push.\<close>

definition ptr_mem :: "'e zend_ptr_stack \<Rightarrow> bool" where
  "ptr_mem s \<longleftrightarrow> 0 \<le> top_element s \<and> top_element s \<le> pstk_max s \<and> pstk_max s < 2 ^ 31 \<and>
     (case pelements s of None \<Rightarrow> pstk_max s = 0
      | Some xs \<Rightarrow> int (length xs) = pstk_max s \<and> (\<forall>i < nat (top_element s). xs ! i \<noteq> None))"

definition ptr_inv :: "'e zend_ptr_stack \<Rightarrow> bool" where
  "ptr_inv s \<longleftrightarrow> ptr_mem s \<and> pstk_top s = top_element s"

text \<open>The pointers, the top first.\<close>

definition ptr_contents :: "'e zend_ptr_stack \<Rightarrow> 'e list" where
  "ptr_contents s = (case pelements s of None \<Rightarrow> []
                     | Some xs \<Rightarrow> rev (map the (take (nat (top_element s)) xs)))"

lemma ptr_contents_length: "ptr_mem s \<Longrightarrow> length (ptr_contents s) = nat (top_element s)"
  by (auto simp: ptr_mem_def ptr_contents_def split: option.splits)

lemma ptr_mem_top [simp]: "ptr_mem (s\<lparr>pstk_top := t\<rparr>) = ptr_mem s"
  "ptr_contents (s\<lparr>pstk_top := t\<rparr>) = ptr_contents s"
  by (cases "pelements s"; simp add: ptr_mem_def ptr_contents_def)+

lemma put_top_ok:
  assumes mem: "ptr_mem s" and free: "top_element s < pstk_max s"
  shows "\<exists>s'. put_top e s = Some s' \<and> ptr_mem s' \<and> ptr_contents s' = e # ptr_contents s \<and>
     pstk_top s' = pstk_top s \<and> top_element s' = top_element s + 1 \<and> pstk_max s' = pstk_max s"
proof -
  obtain xs where xs: "pelements s = Some xs" using mem free by (auto simp: ptr_mem_def split: option.splits)
  have n: "nat (top_element s + 1) = Suc (nat (top_element s))" "nat (top_element s) < length xs"
    using mem free xs by (auto simp: ptr_mem_def)
  let ?s = "s\<lparr>pelements := Some (xs[nat (top_element s) := Some e]), top_element := top_element s + 1\<rparr>"
  have "put_top e s = Some ?s" using mem free xs by (auto simp: put_top_def slot_put_def ptr_mem_def)
  moreover have "ptr_mem ?s"
    using mem free xs n by (auto simp: ptr_mem_def nth_list_update less_Suc_eq)
  moreover have "ptr_contents ?s = e # ptr_contents s"
    using xs n by (simp add: ptr_contents_def take_Suc_conv_app_nth)
  ultimately show ?thesis by (intro exI [of _ ?s]) simp
qed

lemma take_top_ok:
  assumes mem: "ptr_mem s" and c: "ptr_contents s = e # es"
  shows "\<exists>s'. take_top s = Some (e, s') \<and> ptr_mem s' \<and> ptr_contents s' = es \<and>
     pstk_top s' = pstk_top s \<and> top_element s' = top_element s - 1"
proof -
  have pos: "top_element s > 0" using ptr_contents_length [OF mem] c by auto
  obtain xs where xs: "pelements s = Some xs" using c by (auto simp: ptr_contents_def split: option.splits)
  have n: "nat (top_element s) = Suc (nat (top_element s - 1))" using pos by simp
  have i: "nat (top_element s - 1) < length xs" "xs ! nat (top_element s - 1) \<noteq> None"
    using mem xs pos by (auto simp: ptr_mem_def)
  let ?s = "s\<lparr>top_element := top_element s - 1\<rparr>"
  have "e # es = the (xs ! nat (top_element s - 1)) # ptr_contents ?s"
    using c xs n i(1) by (simp add: ptr_contents_def take_Suc_conv_app_nth)
  moreover have "ptr_mem ?s" using mem xs pos by (auto simp: ptr_mem_def)
  moreover have "take_top s = Some (the (xs ! nat (top_element s - 1)), ?s)"
    using xs pos i by (auto simp: take_top_def slot_get_def nat_less_iff)
  ultimately show ?thesis by simp
qed

subsection \<open>Growing\<close>

lemma grow_max_ok:
  assumes "0 \<le> m" "m < need" "need \<le> 2 ^ 31 - 64"
  shows "\<exists>m'. grow_max need m = Some m' \<and> need \<le> m' \<and> m' < need + 64 \<and> m \<le> m'"
  using assms
proof (induction need m rule: grow_max.induct)
  case (1 need m)
  have a: "int_add m PTR_STACK_BLOCK_SIZE = Some (m + 64)"
    using 1(2-4) by (simp add: int_add_def PTR_STACK_BLOCK_SIZE_def)
  show ?case
  proof (cases "need > m + 64")
    case True
    with 1(1) [OF a] 1(2-4) a show ?thesis by fastforce
  next
    case False
    with 1(3) a show ?thesis by simp
  qed
qed

definition ptr_cap :: nat where "ptr_cap = 2 ^ 31 - 64"

lemma resize_ok:
  assumes inv: "ptr_inv s" and cap: "length (ptr_contents s) + n \<le> ptr_cap"
  shows "\<exists>s'. ZEND_PTR_STACK_RESIZE_IF_NEEDED (int n) s = Some s' \<and> ptr_inv s' \<and>
     ptr_contents s' = ptr_contents s \<and> pstk_top s' = pstk_top s \<and> pstk_top s + int n \<le> pstk_max s'"
proof -
  have mem: "ptr_mem s" "pstk_top s = top_element s" using inv by (simp_all add: ptr_inv_def)
  have top: "0 \<le> pstk_top s" "pstk_top s + int n \<le> 2 ^ 31 - 64"
    using mem cap ptr_contents_length [OF mem(1)] by (auto simp: ptr_mem_def ptr_cap_def)
  have add: "int_add (pstk_top s) (int n) = Some (pstk_top s + int n)" using top by (simp add: int_add_def)
  show ?thesis
  proof (cases "pstk_top s + int n > pstk_max s")
    case False
    with add inv show ?thesis by (simp add: ZEND_PTR_STACK_RESIZE_IF_NEEDED_def)
  next
    case True
    have m0: "0 \<le> pstk_max s" using mem by (simp add: ptr_mem_def)
    from grow_max_ok [OF m0 True top(2)] obtain m where m: "grow_max (pstk_top s + int n) (pstk_max s) = Some m"
      "pstk_top s + int n \<le> m" "m < 2 ^ 31" "pstk_max s \<le> m" using top(2) by auto
    define xs where "xs = realloc_slots (pelements s) m"
    let ?s = "s\<lparr>pstk_max := m, pelements := Some xs, top_element := pstk_top s\<rparr>"
    have "ZEND_PTR_STACK_RESIZE_IF_NEEDED (int n) s = Some ?s"
      using add True m(1) by (simp add: ZEND_PTR_STACK_RESIZE_IF_NEEDED_def xs_def del: grow_max.simps)
    moreover have len: "int (length xs) = m"
      using mem m by (auto simp: xs_def realloc_slots_def ptr_mem_def split: option.splits)
    moreover have old: "\<forall>i < nat (top_element s). \<exists>ys. pelements s = Some ys \<and> xs ! i = ys ! i \<and> i < length ys"
      using mem m by (auto simp: xs_def realloc_slots_def ptr_mem_def nth_append split: option.splits)
    moreover have "ptr_inv ?s"
      using mem m len old top by (fastforce simp: ptr_inv_def ptr_mem_def)
    moreover have "take (nat (top_element s)) xs = (case pelements s of None \<Rightarrow> [] | Some ys \<Rightarrow> take (nat (top_element s)) ys)"
      using mem m by (auto simp: xs_def realloc_slots_def ptr_mem_def split: option.splits)
    hence "ptr_contents ?s = ptr_contents s"
      using mem by (auto simp: ptr_contents_def split: option.splits)
    ultimately show ?thesis using m(2) by (intro exI [of _ ?s]) simp
  qed
qed

subsection \<open>Pushing and popping\<close>

text \<open>Writing a list of pointers into reserved slots.\<close>

fun put_all :: "'e list \<Rightarrow> 'e zend_ptr_stack \<Rightarrow> 'e zend_ptr_stack option" where
  "put_all [] s = Some s"
| "put_all (e # es) s = do { s \<leftarrow> put_top e s; put_all es s }"

lemma put_all_eta: "put_all [] = Some" "put_all (e # es) = (\<lambda>s. do { s \<leftarrow> put_top e s; put_all es s })"
  by (rule ext; simp)+

lemma put_all_ok:
  "ptr_mem s \<Longrightarrow> top_element s + int (length es) \<le> pstk_max s \<Longrightarrow>
   \<exists>s'. put_all es s = Some s' \<and> ptr_mem s' \<and> ptr_contents s' = rev es @ ptr_contents s \<and>
     pstk_top s' = pstk_top s \<and> top_element s' = top_element s + int (length es)"
proof (induction es arbitrary: s)
  case (Cons e es)
  then obtain s1 where s1: "put_top e s = Some s1" "ptr_mem s1" "ptr_contents s1 = e # ptr_contents s"
    "pstk_top s1 = pstk_top s" "top_element s1 = top_element s + 1" "pstk_max s1 = pstk_max s"
    using put_top_ok [of s e] by auto
  with Cons.IH [of s1] Cons.prems show ?case by auto
qed simp

lemma push_many_ok:
  assumes inv: "ptr_inv s" and cap: "length (ptr_contents s) + length es \<le> ptr_cap"
  shows "\<exists>s'. do { s \<leftarrow> ZEND_PTR_STACK_RESIZE_IF_NEEDED (int (length es)) s;
                    s \<leftarrow> add_top (int (length es)) s; put_all es s } = Some s' \<and>
     ptr_inv s' \<and> ptr_contents s' = rev es @ ptr_contents s \<and> pstk_top s' = pstk_top s + int (length es)"
proof -
  from resize_ok [OF inv cap] obtain s1 where s1: "ZEND_PTR_STACK_RESIZE_IF_NEEDED (int (length es)) s = Some s1"
    "ptr_inv s1" "ptr_contents s1 = ptr_contents s" "pstk_top s1 = pstk_top s"
    "pstk_top s + int (length es) \<le> pstk_max s1" by auto
  let ?s = "s1\<lparr>pstk_top := pstk_top s + int (length es)\<rparr>"
  have mem: "ptr_mem s1" "top_element s1 = pstk_top s" using s1(2,4) by (simp_all add: ptr_inv_def)
  hence add: "add_top (int (length es)) s1 = Some ?s"
    using s1(4,5) by (auto simp: add_top_def int_add_def ptr_mem_def)
  from put_all_ok [of ?s es] obtain s2 where
    "put_all es ?s = Some s2" "ptr_mem s2" "ptr_contents s2 = rev es @ ptr_contents s"
    "pstk_top s2 = pstk_top ?s" "top_element s2 = top_element s1 + int (length es)"
    using mem s1(3,5) by auto
  with s1(1) add mem(2) show ?thesis by (simp add: ptr_inv_def)
qed

lemma n_push_loop_put_all:
  "pstk_top s + int (length es) < 2 ^ 31 \<Longrightarrow> - (2 ^ 31) \<le> pstk_top s \<Longrightarrow>
   n_push_loop es s = do { s \<leftarrow> add_top (int (length es)) s; put_all es s }"
proof (induction es arbitrary: s)
  case (Cons e es)
  have swap: "put_top e (s\<lparr>pstk_top := t\<rparr>) = map_option (\<lambda>s'. s'\<lparr>pstk_top := t\<rparr>) (put_top e s)" for t
    by (cases "pelements s") (auto simp: put_top_def slot_put_def)
  have add: "add_top 1 s = Some (s\<lparr>pstk_top := pstk_top s + 1\<rparr>)"
    "add_top (int (length (e # es))) s = Some (s\<lparr>pstk_top := pstk_top s + 1 + int (length es)\<rparr>)"
    using Cons.prems by (simp_all add: add_top_def int_add_def add.assoc)
  show ?case
  proof (cases "put_top e s")
    case None
    with add swap show ?thesis by simp
  next
    case (Some s')
    let ?s = "s'\<lparr>pstk_top := pstk_top s + 1\<rparr>"
    have "n_push_loop es ?s = do { s \<leftarrow> add_top (int (length es)) ?s; put_all es s }"
      using Cons.prems by (intro Cons.IH) simp_all
    moreover have "add_top (int (length es)) ?s = Some (s'\<lparr>pstk_top := pstk_top s + 1 + int (length es)\<rparr>)"
      using Cons.prems by (simp add: add_top_def int_add_def)
    ultimately show ?thesis using add swap Some by simp
  qed
qed (simp add: add_top_def int_add_def)

lemma n_push_ok:
  assumes inv: "ptr_inv s" and cap: "length (ptr_contents s) + length es \<le> ptr_cap"
  shows "\<exists>s'. zend_ptr_stack_n_push es s = Some s' \<and> ptr_inv s' \<and>
     ptr_contents s' = rev es @ ptr_contents s \<and> pstk_top s' = pstk_top s + int (length es)"
proof -
  from resize_ok [OF inv cap] obtain s1 where s1: "ZEND_PTR_STACK_RESIZE_IF_NEEDED (int (length es)) s = Some s1"
    "ptr_inv s1" "pstk_top s1 = pstk_top s" "pstk_top s + int (length es) \<le> pstk_max s1" by auto
  have "n_push_loop es s1 = do { s \<leftarrow> add_top (int (length es)) s1; put_all es s }"
    using s1(2-4) by (intro n_push_loop_put_all) (auto simp: ptr_inv_def ptr_mem_def)
  with push_many_ok [OF inv cap] s1(1) show ?thesis by (simp add: zend_ptr_stack_n_push_def)
qed

lemma fixed_push_ok:
  assumes inv: "ptr_inv s"
  shows "length (ptr_contents s) + 1 \<le> ptr_cap \<Longrightarrow>
      \<exists>s'. zend_ptr_stack_push a s = Some s' \<and> ptr_inv s' \<and> ptr_contents s' = a # ptr_contents s"
    and "length (ptr_contents s) + 2 \<le> ptr_cap \<Longrightarrow>
      \<exists>s'. zend_ptr_stack_2_push a b s = Some s' \<and> ptr_inv s' \<and> ptr_contents s' = b # a # ptr_contents s"
    and "length (ptr_contents s) + 3 \<le> ptr_cap \<Longrightarrow>
      \<exists>s'. zend_ptr_stack_3_push a b c s = Some s' \<and> ptr_inv s' \<and> ptr_contents s' = c # b # a # ptr_contents s"
  using push_many_ok [OF inv, of "[a]"] push_many_ok [OF inv, of "[a, b]"] push_many_ok [OF inv, of "[a, b, c]"]
  by (fastforce simp: zend_ptr_stack_push_def zend_ptr_stack_2_push_def zend_ptr_stack_3_push_def put_all_eta
        simp del: put_all.simps)+

lemma ptr_top_bounds: "ptr_inv s \<Longrightarrow> 0 \<le> pstk_top s \<and> pstk_top s < 2 ^ 31 \<and> nat (pstk_top s) = length (ptr_contents s)"
  using ptr_contents_length [of s] by (auto simp: ptr_inv_def ptr_mem_def)

lemma n_pop_ok:
  "ptr_inv s \<Longrightarrow> ptr_contents s = es @ fs \<Longrightarrow>
   \<exists>s'. zend_ptr_stack_n_pop (length es) s = Some (es, s') \<and> ptr_inv s' \<and> ptr_contents s' = fs"
proof (induction es arbitrary: s)
  case (Cons e es)
  then obtain s1 where s1: "take_top s = Some (e, s1)" "ptr_mem s1" "ptr_contents s1 = es @ fs"
    "pstk_top s1 = pstk_top s" "top_element s1 = top_element s - 1"
    using take_top_ok [of s e "es @ fs"] by (auto simp: ptr_inv_def)
  have "add_top (- 1) s1 = Some (s1\<lparr>pstk_top := pstk_top s - 1\<rparr>)"
    using ptr_top_bounds [OF Cons.prems(1)] s1(4) by (simp add: add_top_def int_add_def)
  moreover have "ptr_inv (s1\<lparr>pstk_top := pstk_top s - 1\<rparr>)"
    using s1 Cons.prems(1) by (simp add: ptr_inv_def)
  ultimately show ?case using Cons.IH [of "s1\<lparr>pstk_top := pstk_top s - 1\<rparr>"] s1 by auto
qed simp

lemma pop_ok:
  assumes "ptr_inv s" "ptr_contents s = e # es"
  shows "\<exists>s'. zend_ptr_stack_pop s = Some (e, s') \<and> ptr_inv s' \<and> ptr_contents s' = es"
    and "zend_ptr_stack_top s = Some e"
proof -
  have b: "0 < pstk_top s" "pstk_top s < 2 ^ 31" using ptr_top_bounds [OF assms(1)] assms(2) by auto
  let ?s = "s\<lparr>pstk_top := pstk_top s - 1\<rparr>"
  have "add_top (- 1) s = Some ?s" using b by (simp add: add_top_def int_add_def)
  moreover obtain s1 where "take_top ?s = Some (e, s1)" "ptr_mem s1" "ptr_contents s1 = es"
    "pstk_top s1 = pstk_top s - 1" "top_element s1 = top_element s - 1"
    using take_top_ok [of ?s e es] assms by (auto simp: ptr_inv_def)
  ultimately show "\<exists>s'. zend_ptr_stack_pop s = Some (e, s') \<and> ptr_inv s' \<and> ptr_contents s' = es"
    using assms(1) by (auto simp: zend_ptr_stack_pop_def ptr_inv_def)
  obtain s2 where "take_top s = Some (e, s2)" using take_top_ok [of s e es] assms by (auto simp: ptr_inv_def)
  then show "zend_ptr_stack_top s = Some e"
    using assms(1) by (cases "pelements s") (auto simp: zend_ptr_stack_top_def take_top_def ptr_inv_def bind_eq_Some_conv)
qed

lemma fixed_pop_ok:
  assumes inv: "ptr_inv s"
  shows "ptr_contents s = a # b # es \<Longrightarrow>
      \<exists>s'. zend_ptr_stack_2_pop s = Some ((a, b), s') \<and> ptr_inv s' \<and> ptr_contents s' = es"
    and "ptr_contents s = a # b # c # es \<Longrightarrow>
      \<exists>s'. zend_ptr_stack_3_pop s = Some ((a, b, c), s') \<and> ptr_inv s' \<and> ptr_contents s' = es"
proof -
  have mem: "ptr_mem s" "pstk_top s = top_element s" using inv by (simp_all add: ptr_inv_def)
  have top: "0 \<le> pstk_top s" "pstk_top s < 2 ^ 31" "nat (pstk_top s) = length (ptr_contents s)"
    using ptr_top_bounds [OF inv] by auto
  have fin: "\<exists>s''. add_top (- n) s' = Some s'' \<and> ptr_inv s'' \<and> ptr_contents s'' = ptr_contents s'"
    if "ptr_mem s'" "pstk_top s' = pstk_top s" "top_element s' = top_element s - n" "0 \<le> n" "n \<le> pstk_top s" for s' n
    using that mem(2) top by (simp add: add_top_def int_add_def ptr_inv_def)
  show "\<exists>s'. zend_ptr_stack_2_pop s = Some ((a, b), s') \<and> ptr_inv s' \<and> ptr_contents s' = es"
    if c: "ptr_contents s = a # b # es"
  proof -
    obtain s1 where s1: "take_top s = Some (a, s1)" "ptr_mem s1" "ptr_contents s1 = b # es"
      "pstk_top s1 = pstk_top s" "top_element s1 = top_element s - 1" using take_top_ok [OF mem(1) c] by auto
    obtain s2 where s2: "take_top s1 = Some (b, s2)" "ptr_mem s2" "ptr_contents s2 = es"
      "pstk_top s2 = pstk_top s" "top_element s2 = top_element s - 2" using take_top_ok [OF s1(2,3)] s1(4,5) by auto
    have "2 \<le> pstk_top s" using top(3) c by simp
    with fin [OF s2(2,4,5)] s1(1) s2(1,3) show ?thesis by (auto simp: zend_ptr_stack_2_pop_def)
  qed
  show "\<exists>s'. zend_ptr_stack_3_pop s = Some ((a, b, c), s') \<and> ptr_inv s' \<and> ptr_contents s' = es"
    if c: "ptr_contents s = a # b # c # es"
  proof -
    obtain s1 where s1: "take_top s = Some (a, s1)" "ptr_mem s1" "ptr_contents s1 = b # c # es"
      "pstk_top s1 = pstk_top s" "top_element s1 = top_element s - 1" using take_top_ok [OF mem(1) c] by auto
    obtain s2 where s2: "take_top s1 = Some (b, s2)" "ptr_mem s2" "ptr_contents s2 = c # es"
      "pstk_top s2 = pstk_top s" "top_element s2 = top_element s - 2" using take_top_ok [OF s1(2,3)] s1(4,5) by auto
    obtain s3 where s3: "take_top s2 = Some (c, s3)" "ptr_mem s3" "ptr_contents s3 = es"
      "pstk_top s3 = pstk_top s" "top_element s3 = top_element s - 3" using take_top_ok [OF s2(2,3)] s2(4,5) by auto
    have "3 \<le> pstk_top s" using top(3) c by simp
    with fin [OF s3(2,4,5)] s1(1) s2(1) s3(1,3) show ?thesis by (auto simp: zend_ptr_stack_3_pop_def)
  qed
qed

interpretation ps: lifo ptr_inv ptr_contents "zend_ptr_stack_init_ex p"
  zend_ptr_stack_push "\<lambda>s. map_option snd (zend_ptr_stack_pop s)" zend_ptr_stack_top ptr_cap for p
proof
  show "ptr_inv (zend_ptr_stack_init_ex p)" "ptr_contents (zend_ptr_stack_init_ex p) = []"
    by (simp_all add: ptr_inv_def ptr_mem_def ptr_contents_def zend_ptr_stack_init_ex_def)
next
  fix s :: "'a zend_ptr_stack" and e
  assume "ptr_inv s" "length (ptr_contents s) < ptr_cap"
  then show "\<exists>s'. zend_ptr_stack_push e s = Some s' \<and> ptr_inv s' \<and> ptr_contents s' = e # ptr_contents s"
    using fixed_push_ok(1) by fastforce
next
  fix s :: "'a zend_ptr_stack" and e es
  assume "ptr_inv s" "ptr_contents s = e # es"
  then show "\<exists>s'. map_option snd (zend_ptr_stack_pop s) = Some s' \<and> ptr_inv s' \<and> ptr_contents s' = es"
    "zend_ptr_stack_top s = Some e"
    using pop_ok [of s e es] by auto
qed

subsection \<open>Traversal\<close>

lemma slots_down_fold:
  "n \<le> length xs \<Longrightarrow> \<forall>i < n. xs ! i \<noteq> None \<Longrightarrow>
   slots_down f (Some xs) n st = Some (fold f (rev (map the (take n xs))) st)"
  by (induction n arbitrary: st) (auto simp: slot_get_def take_Suc_conv_app_nth)

lemma ptr_slots_down:
  assumes "ptr_inv s"
  shows "slots_down f (pelements s) (nat (pstk_top s)) st = Some (fold f (ptr_contents s) st)"
  using assms by (auto simp: ptr_inv_def ptr_mem_def ptr_contents_def slots_down_fold split: option.splits)

subsection \<open>Properties\<close>

text \<open>
  C19. The pointer stack is last-in first-out in every form of push and pop: \<open>n_push\<close>
  followed by \<open>n_pop\<close> hands the pointers back in reverse, the unrolled two- and
  three-pointer forms agree with it, the slot pointer always is \<open>elements + top\<close>, and no
  access leaves the array; \<open>zend_ptr_stack_clean\<close> applies the function, then frees, from
  the top down and leaves an empty stack with its capacity.
\<close>

theorem zend_ptr_stack_lifo:
  assumes inv: "ptr_inv s"
  shows "(length (ptr_contents s) + length es \<le> ptr_cap \<longrightarrow>
        (\<exists>s1 s2. zend_ptr_stack_n_push es s = Some s1 \<and> ptr_inv s1 \<and>
        zend_ptr_stack_num_elements s1 = zend_ptr_stack_num_elements s + int (length es) \<and>
        zend_ptr_stack_n_pop (length es) s1 = Some (rev es, s2) \<and> ptr_inv s2 \<and> ptr_contents s2 = ptr_contents s)) \<and>
     (length (ptr_contents s) + 3 \<le> ptr_cap \<longrightarrow>
        (\<exists>s1 s2. zend_ptr_stack_3_push a b c s = Some s1 \<and> ptr_inv s1 \<and> zend_ptr_stack_top s1 = Some c \<and>
        zend_ptr_stack_3_pop s1 = Some ((c, b, a), s2) \<and> ptr_inv s2 \<and> ptr_contents s2 = ptr_contents s)) \<and>
     (length (ptr_contents s) + 2 \<le> ptr_cap \<longrightarrow>
        (\<exists>s1 s2. zend_ptr_stack_2_push a b s = Some s1 \<and> ptr_inv s1 \<and> zend_ptr_stack_top s1 = Some b \<and>
        zend_ptr_stack_2_pop s1 = Some ((b, a), s2) \<and> ptr_inv s2 \<and> ptr_contents s2 = ptr_contents s)) \<and>
     (length (ptr_contents s) + 1 \<le> ptr_cap \<longrightarrow>
        (\<exists>s1 s2. zend_ptr_stack_push a s = Some s1 \<and> ptr_inv s1 \<and> zend_ptr_stack_top s1 = Some a \<and>
        zend_ptr_stack_pop s1 = Some (a, s2) \<and> ptr_inv s2 \<and> ptr_contents s2 = ptr_contents s)) \<and>
     (zend_ptr_stack_apply f s st = Some (fold f (ptr_contents s) st)) \<and>
     (\<exists>s'. zend_ptr_stack_clean fr f free_elements s st =
        Some (s', (if free_elements then fold (fr (persistent s)) (ptr_contents s) else id) (fold f (ptr_contents s) st)) \<and>
        ptr_inv s' \<and> ptr_contents s' = [] \<and> pstk_max s' = pstk_max s)"
proof (intro conjI)
  show "length (ptr_contents s) + length es \<le> ptr_cap \<longrightarrow>
      (\<exists>s1 s2. zend_ptr_stack_n_push es s = Some s1 \<and> ptr_inv s1 \<and>
         zend_ptr_stack_num_elements s1 = zend_ptr_stack_num_elements s + int (length es) \<and>
         zend_ptr_stack_n_pop (length es) s1 = Some (rev es, s2) \<and> ptr_inv s2 \<and> ptr_contents s2 = ptr_contents s)"
    using n_push_ok [OF inv, of es] n_pop_ok [of _ "rev es" "ptr_contents s"]
    by (fastforce simp: zend_ptr_stack_num_elements_def)
  show "length (ptr_contents s) + 3 \<le> ptr_cap \<longrightarrow>
      (\<exists>s1 s2. zend_ptr_stack_3_push a b c s = Some s1 \<and> ptr_inv s1 \<and> zend_ptr_stack_top s1 = Some c \<and>
         zend_ptr_stack_3_pop s1 = Some ((c, b, a), s2) \<and> ptr_inv s2 \<and> ptr_contents s2 = ptr_contents s)"
    using fixed_push_ok(3) [OF inv, of a b c] pop_ok(2) fixed_pop_ok(2) by (metis (no_types))
  show "length (ptr_contents s) + 2 \<le> ptr_cap \<longrightarrow>
      (\<exists>s1 s2. zend_ptr_stack_2_push a b s = Some s1 \<and> ptr_inv s1 \<and> zend_ptr_stack_top s1 = Some b \<and>
         zend_ptr_stack_2_pop s1 = Some ((b, a), s2) \<and> ptr_inv s2 \<and> ptr_contents s2 = ptr_contents s)"
    using fixed_push_ok(2) [OF inv, of a b] pop_ok(2) fixed_pop_ok(1) by (metis (no_types))
  show "length (ptr_contents s) + 1 \<le> ptr_cap \<longrightarrow>
      (\<exists>s1 s2. zend_ptr_stack_push a s = Some s1 \<and> ptr_inv s1 \<and> zend_ptr_stack_top s1 = Some a \<and>
         zend_ptr_stack_pop s1 = Some (a, s2) \<and> ptr_inv s2 \<and> ptr_contents s2 = ptr_contents s)"
    using fixed_push_ok(1) [OF inv, of a] pop_ok by (metis (no_types))
  show "zend_ptr_stack_apply f s st = Some (fold f (ptr_contents s) st)"
    by (simp add: zend_ptr_stack_apply_def ptr_slots_down [OF inv])
  have "ptr_inv (s\<lparr>pstk_top := 0, top_element := 0\<rparr>)" "ptr_contents (s\<lparr>pstk_top := 0, top_element := 0\<rparr>) = []"
    using inv by (auto simp: ptr_inv_def ptr_mem_def ptr_contents_def split: option.splits)
  then show "\<exists>s'. zend_ptr_stack_clean fr f free_elements s st =
       Some (s', (if free_elements then fold (fr (persistent s)) (ptr_contents s) else id) (fold f (ptr_contents s) st)) \<and>
     ptr_inv s' \<and> ptr_contents s' = [] \<and> pstk_max s' = pstk_max s"
    by (simp add: zend_ptr_stack_clean_def zend_ptr_stack_apply_def ptr_slots_down [OF inv])
qed

theorem zend_ptr_stack_lifo_witness:
  "\<exists>s1 s2. zend_ptr_stack_n_push [1, 2, 3::nat] zend_ptr_stack_init = Some s1 \<and>
     zend_ptr_stack_n_pop 3 s1 = Some ([3, 2, 1], s2) \<and> ptr_contents s2 = []"
  using zend_ptr_stack_lifo [OF ps.empty_ok(1), THEN conjunct1, of False "[1, 2, 3::nat]"]
  by (auto simp: zend_ptr_stack_init_def ps.empty_ok(2) ptr_cap_def numeral_3_eq_3)

end
