(* ===== verification/Zend_Llist.thy ===== *)
theory Zend_Llist
  imports Zend_Qsort
begin

text \<open>
  The doubly linked list of \<^verbatim>\<open>Zend/zend_llist.c\<close>. The elements live in a heap of their
  own; \<open>next\<close> and \<open>prev\<close> are pointers into it. A destructor call is recorded in a log, a
  callback acts on the element and on a state of the client, and an access to a freed
  element makes the operation \<open>None\<close>. \<open>size_t\<close> is 64 bits.
\<close>

subsection \<open>The list and its operations\<close>

record 'd zend_llist_element =
  l_next :: ptr
  l_prev :: ptr
  l_data :: 'd

record 'd zend_llist =
  l_head :: ptr
  l_tail :: ptr
  l_count :: ulong
  l_size :: ulong
  l_dtor :: bool
  l_persistent :: bool
  traverse_ptr :: ptr
  l_heap :: "'d zend_llist_element heap"
  l_limit :: nat
  l_dtor_log :: "'d list"

text \<open>\<open>traverse_ptr\<close> is not initialised: it is what the memory held.\<close>

definition zend_llist_init :: "ulong \<Rightarrow> bool \<Rightarrow> bool \<Rightarrow> ptr \<Rightarrow> 'd zend_llist" where
  "zend_llist_init size_arg dtor pers garbage =
     \<lparr>l_head = None, l_tail = None, l_count = 0, l_size = size_arg, l_dtor = dtor, l_persistent = pers,
      traverse_ptr = garbage, l_heap = (\<lambda>_. None), l_limit = 0, l_dtor_log = []\<rparr>"

definition wr_el :: "nat \<Rightarrow> ('d zend_llist_element \<Rightarrow> 'd zend_llist_element) \<Rightarrow> 'd zend_llist \<Rightarrow> 'd zend_llist option" where
  "wr_el a f l = (case l_heap l a of None \<Rightarrow> None | Some b \<Rightarrow> Some (l\<lparr>l_heap := (l_heap l)(a \<mapsto> f b)\<rparr>))"

text \<open>\<open>if (q) q->next = v; else l->head = v\<close> and its mirror image.\<close>

definition link_next :: "ptr \<Rightarrow> ptr \<Rightarrow> 'd zend_llist \<Rightarrow> 'd zend_llist option" where
  "link_next q v l = (case q of Some a \<Rightarrow> wr_el a (\<lambda>b. b\<lparr>l_next := v\<rparr>) l | None \<Rightarrow> Some (l\<lparr>l_head := v\<rparr>))"

definition link_prev :: "ptr \<Rightarrow> ptr \<Rightarrow> 'd zend_llist \<Rightarrow> 'd zend_llist option" where
  "link_prev q v l = (case q of Some a \<Rightarrow> wr_el a (\<lambda>b. b\<lparr>l_prev := v\<rparr>) l | None \<Rightarrow> Some (l\<lparr>l_tail := v\<rparr>))"

definition new_element :: "'d zend_llist_element \<Rightarrow> 'd zend_llist \<Rightarrow> nat \<times> 'd zend_llist" where
  "new_element b l = (let a = fresh_addr (l_heap l) (l_limit l)
     in (a, l\<lparr>l_heap := (l_heap l)(a \<mapsto> b), l_limit := max (l_limit l) (Suc a)\<rparr>))"

definition zend_llist_add_element :: "'d \<Rightarrow> 'd zend_llist \<Rightarrow> 'd zend_llist option" where
  "zend_llist_add_element element l =
     (case new_element \<lparr>l_next = None, l_prev = l_tail l, l_data = element\<rparr> l of (tmp, l) \<Rightarrow> do {
        l \<leftarrow> link_next (l_tail l) (Some tmp) l;
        Some (l\<lparr>l_tail := Some tmp, l_count := l_count l + 1\<rparr>) })"


definition free_element :: "nat \<Rightarrow> 'd zend_llist \<Rightarrow> 'd zend_llist option" where
  "free_element a l = do {
     b \<leftarrow> l_heap l a;
     Some (l\<lparr>l_dtor_log := (if l_dtor l then l_dtor_log l @ [l_data b] else l_dtor_log l),
             l_heap := (l_heap l)(a := None)\<rparr>) }"

definition DEL_LLIST_ELEMENT :: "nat \<Rightarrow> 'd zend_llist \<Rightarrow> 'd zend_llist option" where
  "DEL_LLIST_ELEMENT a l = do {
     b \<leftarrow> l_heap l a;
     l \<leftarrow> link_next (l_prev b) (l_next b) l;
     b \<leftarrow> l_heap l a;
     l \<leftarrow> link_prev (l_next b) (l_prev b) l;
     l \<leftarrow> free_element a l;
     Some (l\<lparr>l_count := l_count l - 1\<rparr>) }"












text \<open>A callback gets the element, may change it, and acts on the client's state.\<close>

partial_function (option) apply_with_del_loop ::
    "('d \<Rightarrow> 's \<Rightarrow> bool \<times> 'd \<times> 's) \<Rightarrow> ptr \<Rightarrow> 'd zend_llist \<Rightarrow> 's \<Rightarrow> ('d zend_llist \<times> 's) option" where
  "apply_with_del_loop func p l s =
     (case p of None \<Rightarrow> Some (l, s)
      | Some a \<Rightarrow> do {
          b \<leftarrow> l_heap l a;
          (case func (l_data b) s of (del, d, s) \<Rightarrow> do {
             l \<leftarrow> wr_el a (\<lambda>b. b\<lparr>l_data := d\<rparr>) l;
             l \<leftarrow> (if del then DEL_LLIST_ELEMENT a l else Some l);
             apply_with_del_loop func (l_next b) l s }) })"

declare apply_with_del_loop.simps [code]

definition zend_llist_apply_with_del ::
    "('d \<Rightarrow> 's \<Rightarrow> bool \<times> 'd \<times> 's) \<Rightarrow> 'd zend_llist \<Rightarrow> 's \<Rightarrow> ('d zend_llist \<times> 's) option" where
  "zend_llist_apply_with_del func l s = apply_with_del_loop func (l_head l) l s"

partial_function (option) llist_apply_loop ::
    "('d \<Rightarrow> 's \<Rightarrow> 'd \<times> 's) \<Rightarrow> ptr \<Rightarrow> 'd zend_llist \<Rightarrow> 's \<Rightarrow> ('d zend_llist \<times> 's) option" where
  "llist_apply_loop func p l s =
     (case p of None \<Rightarrow> Some (l, s)
      | Some a \<Rightarrow> do {
          b \<leftarrow> l_heap l a;
          (case func (l_data b) s of (d, s) \<Rightarrow> do {
             l \<leftarrow> wr_el a (\<lambda>b. b\<lparr>l_data := d\<rparr>) l;
             llist_apply_loop func (l_next b) l s }) })"

declare llist_apply_loop.simps [code]

definition zend_llist_apply :: "('d \<Rightarrow> 's \<Rightarrow> 'd \<times> 's) \<Rightarrow> 'd zend_llist \<Rightarrow> 's \<Rightarrow> ('d zend_llist \<times> 's) option" where
  "zend_llist_apply func l s = llist_apply_loop func (l_head l) l s"

definition zend_llist_apply_with_argument ::
    "('d \<Rightarrow> 'a \<Rightarrow> 's \<Rightarrow> 'd \<times> 's) \<Rightarrow> 'a \<Rightarrow> 'd zend_llist \<Rightarrow> 's \<Rightarrow> ('d zend_llist \<times> 's) option" where
  "zend_llist_apply_with_argument func arg l s = llist_apply_loop (\<lambda>d. func d arg) (l_head l) l s"

text \<open>The variable arguments are one list that every call reads from its start.\<close>

definition zend_llist_apply_with_arguments ::
    "('d \<Rightarrow> 'a list \<Rightarrow> 's \<Rightarrow> 'd \<times> 's) \<Rightarrow> 'a list \<Rightarrow> 'd zend_llist \<Rightarrow> 's \<Rightarrow> ('d zend_llist \<times> 's) option" where
  "zend_llist_apply_with_arguments func args l s = llist_apply_loop (\<lambda>d. func d args) (l_head l) l s"

partial_function (option) gather :: "'d zend_llist_element heap \<Rightarrow> ptr \<Rightarrow> nat list option" where
  "gather m p =
     (case p of None \<Rightarrow> Some []
      | Some a \<Rightarrow> do { b \<leftarrow> m a; as \<leftarrow> gather m (l_next b); Some (a # as) })"

declare gather.simps [code]

text \<open>The loop that links neighbours, from \<open>elements[i-1]\<close> and \<open>elements[i]\<close> on.\<close>

fun link_neighbours :: "nat list \<Rightarrow> 'd zend_llist \<Rightarrow> 'd zend_llist option" where
  "link_neighbours [] l = None"
| "link_neighbours [x] l = do { l \<leftarrow> wr_el x (\<lambda>b. b\<lparr>l_next := None\<rparr>) l; Some (l\<lparr>l_tail := Some x\<rparr>) }"
| "link_neighbours (x # y # zs) l = do {
     l \<leftarrow> wr_el y (\<lambda>b. b\<lparr>l_prev := Some x\<rparr>) l;
     l \<leftarrow> wr_el x (\<lambda>b. b\<lparr>l_next := Some y\<rparr>) l;
     link_neighbours (y # zs) l }"

text \<open>The array has \<open>count\<close> entries, all of which the loop must have filled.\<close>

definition zend_llist_sort ::
    "('d zend_llist_element \<Rightarrow> 'd zend_llist_element \<Rightarrow> int) \<Rightarrow> 'd zend_llist \<Rightarrow> 'd zend_llist option" where
  "zend_llist_sort comp_func l =
     (if l_count l = 0 then Some l
      else do {
        els \<leftarrow> gather (l_heap l) (l_head l);
        els \<leftarrow> (if length els = unat (l_count l)
                then zend_qsort 8 (\<lambda>a b. comp_func (the (l_heap l a)) (the (l_heap l b))) els else None);
        (case els of [] \<Rightarrow> None
         | first # _ \<Rightarrow> do {
             l \<leftarrow> wr_el first (\<lambda>b. b\<lparr>l_prev := None\<rparr>) (l\<lparr>l_head := Some first\<rparr>);
             link_neighbours els l }) })"


text \<open>
  A position argument: \<open>None\<close> is the \<open>NULL\<close> that selects \<open>traverse_ptr\<close>,
  \<open>Some p\<close> a variable of the caller with the value \<open>p\<close>.
\<close>

type_synonym lpos = "ptr option"

definition at_pos :: "ptr \<Rightarrow> lpos \<Rightarrow> 'd zend_llist \<Rightarrow> ('d option \<times> lpos \<times> 'd zend_llist) option" where
  "at_pos p pos l = do {
     d \<leftarrow> (case p of None \<Rightarrow> Some None | Some a \<Rightarrow> do { b \<leftarrow> l_heap l a; Some (Some (l_data b)) });
     Some (d, (case pos of None \<Rightarrow> (None, l\<lparr>traverse_ptr := p\<rparr>) | Some _ \<Rightarrow> (Some p, l))) }"

definition pos_ptr :: "lpos \<Rightarrow> 'd zend_llist \<Rightarrow> ptr" where
  "pos_ptr pos l = (case pos of None \<Rightarrow> traverse_ptr l | Some p \<Rightarrow> p)"

definition zend_llist_get_first_ex :: "lpos \<Rightarrow> 'd zend_llist \<Rightarrow> ('d option \<times> lpos \<times> 'd zend_llist) option" where
  "zend_llist_get_first_ex pos l = at_pos (l_head l) pos l"

definition zend_llist_get_last_ex :: "lpos \<Rightarrow> 'd zend_llist \<Rightarrow> ('d option \<times> lpos \<times> 'd zend_llist) option" where
  "zend_llist_get_last_ex pos l = at_pos (l_tail l) pos l"

definition zend_llist_get_next_ex :: "lpos \<Rightarrow> 'd zend_llist \<Rightarrow> ('d option \<times> lpos \<times> 'd zend_llist) option" where
  "zend_llist_get_next_ex pos l =
     (case pos_ptr pos l of None \<Rightarrow> Some (None, pos, l)
      | Some a \<Rightarrow> do { b \<leftarrow> l_heap l a; at_pos (l_next b) pos l })"

definition zend_llist_get_prev_ex :: "lpos \<Rightarrow> 'd zend_llist \<Rightarrow> ('d option \<times> lpos \<times> 'd zend_llist) option" where
  "zend_llist_get_prev_ex pos l =
     (case pos_ptr pos l of None \<Rightarrow> Some (None, pos, l)
      | Some a \<Rightarrow> do { b \<leftarrow> l_heap l a; at_pos (l_prev b) pos l })"

subsection \<open>The invariant\<close>

definition llinks :: "'d zend_llist_element heap \<Rightarrow> links" where
  "llinks m a = map_option (\<lambda>b. (l_next b, l_prev b)) (m a)"

definition llist_inv_at :: "'d zend_llist \<Rightarrow> nat list \<Rightarrow> bool" where
  "llist_inv_at l ps \<longleftrightarrow> list_inv (llinks (l_heap l)) (l_head l) (l_tail l) ps \<and>
     set ps = dom (l_heap l) \<and> heap_bounded (l_heap l) (l_limit l) \<and> unat (l_count l) = length ps"

definition llist_inv :: "'d zend_llist \<Rightarrow> bool" where
  "llist_inv l \<longleftrightarrow> (\<exists>ps. llist_inv_at l ps)"

definition el_data :: "'d zend_llist_element heap \<Rightarrow> nat \<Rightarrow> 'd" where
  "el_data m a = l_data (the (m a))"

text \<open>The elements, the head first.\<close>

definition llist_items :: "'d zend_llist \<Rightarrow> 'd list" where
  "llist_items l = (case gather (l_heap l) (l_head l) of None \<Rightarrow> [] | Some ps \<Rightarrow> map (el_data (l_heap l)) ps)"

lemma gather_seg: "dseg (llinks m) q ps None \<Longrightarrow> gather m (hd_or None ps) = Some ps"
proof (induction ps arbitrary: q)
  case Nil
  then show ?case by (simp add: gather.simps)
next
  case (Cons a ps)
  then obtain b where "m a = Some b" "l_next b = hd_or None ps" by (auto simp: llinks_def)
  with Cons show ?case by (subst gather.simps) auto
qed

lemma llist_inv_atD:
  assumes "llist_inv_at l ps"
  shows "gather (l_heap l) (l_head l) = Some ps" "llist_items l = map (el_data (l_heap l)) ps"
    "distinct ps" "set ps = dom (l_heap l)" "l_head l = hd_or None ps" "l_tail l = last_or None ps"
    "dseg (llinks (l_heap l)) None ps None"
  using assms gather_seg [of "l_heap l" None ps] by (auto simp: llist_inv_at_def list_inv_def llist_items_def)

lemma llist_at:
  assumes "llist_inv_at l (us @ a # vs)"
  shows "\<exists>b. l_heap l a = Some b \<and> l_next b = hd_or None vs \<and> l_prev b = last_or None us \<and> l_data b = el_data (l_heap l) a"
  using llist_inv_atD(7) [OF assms] by (auto simp: llinks_def el_data_def)

lemma link_next_ok:
  assumes "\<And>a. q = Some a \<Longrightarrow> a \<in> dom (l_heap l)"
  shows "\<exists>m'. link_next q v l = Some (l\<lparr>l_heap := m', l_head := (if q = None then v else l_head l)\<rparr>) \<and>
    llinks m' = set_next_at (llinks (l_heap l)) q v \<and> dom m' = dom (l_heap l) \<and> (\<forall>a. el_data m' a = el_data (l_heap l) a)"
proof (cases q)
  case None
  then show ?thesis by (intro exI [of _ "l_heap l"]) (simp add: link_next_def set_next_at_def)
next
  case (Some a)
  with assms obtain b where b: "l_heap l a = Some b" by auto
  with Some show ?thesis
    by (intro exI [of _ "(l_heap l)(a \<mapsto> b\<lparr>l_next := v\<rparr>)"])
      (auto simp: link_next_def wr_el_def set_next_at_def set_next_def llinks_def el_data_def fun_eq_iff)
qed

lemma link_prev_ok:
  assumes "\<And>a. q = Some a \<Longrightarrow> a \<in> dom (l_heap l)"
  shows "\<exists>m'. link_prev q v l = Some (l\<lparr>l_heap := m', l_tail := (if q = None then v else l_tail l)\<rparr>) \<and>
    llinks m' = set_prev_at (llinks (l_heap l)) q v \<and> dom m' = dom (l_heap l) \<and> (\<forall>a. el_data m' a = el_data (l_heap l) a)"
proof (cases q)
  case None
  then show ?thesis by (intro exI [of _ "l_heap l"]) (simp add: link_prev_def set_prev_at_def)
next
  case (Some a)
  with assms obtain b where b: "l_heap l a = Some b" by auto
  with Some show ?thesis
    by (intro exI [of _ "(l_heap l)(a \<mapsto> b\<lparr>l_prev := v\<rparr>)"])
      (auto simp: link_prev_def wr_el_def set_prev_at_def set_prev_def llinks_def el_data_def fun_eq_iff)
qed

lemma el_data_upd: "el_data (m(a \<mapsto> b)) c = (if c = a then l_data b else el_data m c)"
  by (simp add: el_data_def)

lemma llinks_upd: "llinks (m(a \<mapsto> b)) = (llinks m)(a \<mapsto> (l_next b, l_prev b))" "llinks (m(a := None)) = (llinks m)(a := None)"
  by (auto simp: llinks_def)


subsection \<open>Adding elements\<close>

lemma add_element_ok:
  assumes inv: "llist_inv_at l ps" and room: "length ps < 2 ^ 64 - 1"
  shows "\<exists>a l'. zend_llist_add_element e l = Some l' \<and> llist_inv_at l' (ps @ [a]) \<and>
    llist_items l' = llist_items l @ [e] \<and> l_dtor_log l' = l_dtor_log l \<and> l_dtor l' = l_dtor l \<and> traverse_ptr l' = traverse_ptr l"
proof -
  note D = llist_inv_atD [OF inv]
  define a where "a = fresh_addr (l_heap l) (l_limit l)"
  have bd: "heap_bounded (l_heap l) (l_limit l)" using inv by (simp add: llist_inv_at_def)
  then have free: "l_heap l a = None" by (simp add: a_def fresh_addr_free)
  define l1 where "l1 = l\<lparr>l_heap := (l_heap l)(a \<mapsto> \<lparr>l_next = None, l_prev = l_tail l, l_data = e\<rparr>),
    l_limit := max (l_limit l) (Suc a)\<rparr>"
  have bd1: "heap_bounded (l_heap l1) (l_limit l1)"
    using heap_bounded_alloc [OF bd] by (simp add: l1_def a_def)
  have a: "a \<notin> set ps" using free D(4) by auto
  have "\<And>c. l_tail l = Some c \<Longrightarrow> c \<in> dom (l_heap l1)" using D(4,6) last_or_in [of ps] by (auto simp: l1_def)
  from link_next_ok [of "l_tail l" l1 "Some a", OF this] obtain m where
    m: "link_next (l_tail l) (Some a) l1 = Some (l1\<lparr>l_heap := m, l_head := (if l_tail l = None then Some a else l_head l1)\<rparr>)"
      "llinks m = set_next_at (llinks (l_heap l1)) (l_tail l) (Some a)" "dom m = dom (l_heap l1)"
      "\<forall>c. el_data m c = el_data (l_heap l1) c" by auto
  have sel: "l_head l1 = l_head l" "l_tail l1 = l_tail l" "l_count l1 = l_count l" by (simp_all add: l1_def)
  let ?l = "l1\<lparr>l_heap := m, l_head := (if l_tail l = None then Some a else l_head l), l_tail := Some a, l_count := l_count l + 1\<rparr>"
  have new: "new_element \<lparr>l_next = None, l_prev = l_tail l, l_data = e\<rparr> l = (a, l1)" by (simp add: new_element_def a_def l1_def Let_def)
  have run: "zend_llist_add_element e l = Some ?l"
    using m(1) new sel by (simp add: zend_llist_add_element_def)
  have "list_inv (llinks m) (if l_tail l = None then Some a else l_head l) (Some a) (ps @ [a])"
    using list_inv_insert [of "llinks (l_heap l)" "l_head l" "l_tail l" ps "[]" a] inv a D(6)
    by (simp add: llist_inv_at_def m(2) l1_def llinks_upd set_prev_at_def)
  moreover have "unat (l_count l + 1) = length (ps @ [a])"
    using inv room by (simp add: llist_inv_at_def unat_word_ariths)
  moreover have "set (ps @ [a]) = dom m" using m(3) D(4) by (auto simp: l1_def)
  ultimately have inv': "llist_inv_at ?l (ps @ [a])"
    using heap_bounded_dom [OF bd1 m(3)] by (simp add: llist_inv_at_def l1_def)
  have "llist_items ?l = llist_items l @ [e]"
    using llist_inv_atD(2) [OF inv'] D(2) m(4) a by (simp add: l1_def el_data_upd)
  with run inv' show ?thesis by (intro exI [of _ a] exI [of _ ?l]) (simp add: l1_def)
qed


subsection \<open>Deleting elements\<close>

lemma del_element_at:
  assumes inv: "llist_inv_at l (us @ a # vs)"
  shows "\<exists>l'. DEL_LLIST_ELEMENT a l = Some l' \<and> llist_inv_at l' (us @ vs) \<and>
    (\<forall>c \<in> set (us @ vs). el_data (l_heap l') c = el_data (l_heap l) c) \<and>
    l_dtor_log l' = l_dtor_log l @ (if l_dtor l then [el_data (l_heap l) a] else []) \<and> l_dtor l' = l_dtor l \<and>
    l_heap l' a = None \<and> traverse_ptr l' = traverse_ptr l"
proof -
  note D = llist_inv_atD [OF inv]
  have nin: "a \<notin> set us" "a \<notin> set vs" "set us \<inter> set vs = {}" using D(3) by auto
  obtain b where b: "l_heap l a = Some b" "l_next b = hd_or None vs" "l_prev b = last_or None us" using llist_at [OF inv] by auto
  have "\<And>c. last_or None us = Some c \<Longrightarrow> c \<in> dom (l_heap l)" using D(4) last_or_in [of us] by auto
  from link_next_ok [of "last_or None us" l "hd_or None vs", OF this] obtain m1 where
    m1: "link_next (last_or None us) (hd_or None vs) l =
          Some (l\<lparr>l_heap := m1, l_head := (if last_or None us = None then hd_or None vs else l_head l)\<rparr>)"
      "llinks m1 = set_next_at (llinks (l_heap l)) (last_or None us) (hd_or None vs)" "dom m1 = dom (l_heap l)"
      "\<forall>c. el_data m1 c = el_data (l_heap l) c" by auto
  define l1 where "l1 = l\<lparr>l_heap := m1, l_head := (if last_or None us = None then hd_or None vs else l_head l)\<rparr>"
  have "llinks m1 a = llinks (l_heap l) a" using nin by (simp add: m1(2))
  then obtain b1 where b1: "m1 a = Some b1" "l_next b1 = hd_or None vs" "l_prev b1 = last_or None us"
    using b by (auto simp: llinks_def)
  have "\<And>c. hd_or None vs = Some c \<Longrightarrow> c \<in> dom (l_heap l1)" using D(4) hd_or_in [of vs] m1(3) by (auto simp: l1_def)
  from link_prev_ok [of "hd_or None vs" l1 "last_or None us", OF this] obtain m2 where
    m2: "link_prev (hd_or None vs) (last_or None us) l1 =
          Some (l1\<lparr>l_heap := m2, l_tail := (if hd_or None vs = None then last_or None us else l_tail l1)\<rparr>)"
      "llinks m2 = set_prev_at (llinks m1) (hd_or None vs) (last_or None us)" "dom m2 = dom m1"
      "\<forall>c. el_data m2 c = el_data m1 c" unfolding l1_def by auto
  obtain b2 where b2: "m2 a = Some b2" using b1(1) m2(3) by auto
  let ?l = "l1\<lparr>l_heap := m2(a := None), l_tail := (if hd_or None vs = None then last_or None us else l_tail l),
     l_dtor_log := l_dtor_log l @ (if l_dtor l then [el_data (l_heap l) a] else []), l_count := l_count l - 1\<rparr>"
  have "l_data b2 = el_data (l_heap l) a" using m1(4) m2(4) b2 by (metis el_data_def option.sel)
  then have run: "DEL_LLIST_ELEMENT a l = Some ?l"
    using b b1 b2 m1(1) m2(1) by (simp add: DEL_LLIST_ELEMENT_def free_element_def l1_def)
  have "unat (l_count l) = Suc (length (us @ vs))" using inv by (simp add: llist_inv_at_def)
  then have cnt: "unat (l_count l - 1) = length (us @ vs)"
    using unat_minus_one [of "l_count l"] by (cases "l_count l = 0") simp_all
  have "list_inv (llinks (m2(a := None))) (l_head ?l) (l_tail ?l) (us @ vs)"
    using list_inv_delete [of "llinks (l_heap l)" "l_head l" "l_tail l" us a vs] inv nin
    by (subst list_inv_cong [of _ _ "llinks m2"]) (auto simp: llist_inv_at_def m2(2) m1(2) l1_def llinks_upd)
  moreover have "set (us @ vs) = dom (m2(a := None))" using D(4) nin m1(3) m2(3) by auto
  moreover have "heap_bounded (m2(a := None)) (l_limit l)"
    using inv heap_bounded_dom [of "l_heap l" "l_limit l" m2] m1(3) m2(3) heap_bounded_free by (auto simp: llist_inv_at_def)
  ultimately have "llist_inv_at ?l (us @ vs)" using cnt by (simp add: llist_inv_at_def l1_def)
  moreover have "\<forall>c \<in> set (us @ vs). el_data (m2(a := None)) c = el_data (l_heap l) c"
    using nin m1(4) m2(4) by (auto simp: el_data_def)
  ultimately show ?thesis using run by (intro exI [of _ ?l]) (simp add: l1_def)
qed







subsection \<open>Copying and traversal\<close>


lemma wr_data_ok:
  assumes "llist_inv_at l ps" "a \<in> set ps"
  shows "\<exists>l'. wr_el a (\<lambda>b. b\<lparr>l_data := d\<rparr>) l = Some l' \<and> llist_inv_at l' ps \<and>
     el_data (l_heap l') = (el_data (l_heap l))(a := d) \<and> llinks (l_heap l') = llinks (l_heap l) \<and>
     l_dtor l' = l_dtor l \<and> l_dtor_log l' = l_dtor_log l"
proof -
  obtain b where b: "l_heap l a = Some b" using llist_inv_atD(4) [OF assms(1)] assms(2) by auto
  have "llinks ((l_heap l)(a \<mapsto> b\<lparr>l_data := d\<rparr>)) = llinks (l_heap l)" using b by (auto simp: llinks_def)
  then show ?thesis
    using assms b heap_bounded_upd [of "l_heap l" "l_limit l" a b]
    by (intro exI [of _ "l\<lparr>l_heap := (l_heap l)(a \<mapsto> b\<lparr>l_data := d\<rparr>)\<rparr>"])
      (auto simp: wr_el_def llist_inv_at_def el_data_def)
qed

fun map_state :: "('d \<Rightarrow> 's \<Rightarrow> 'd \<times> 's) \<Rightarrow> 'd list \<Rightarrow> 's \<Rightarrow> 'd list \<times> 's" where
  "map_state f [] s = ([], s)"
| "map_state f (x # xs) s = (case f x s of (y, s) \<Rightarrow> case map_state f xs s of (ys, s) \<Rightarrow> (y # ys, s))"

lemma apply_loop_ok:
  assumes "llist_inv_at l (us @ vs)"
  shows "\<exists>l'. llist_apply_loop f (hd_or None vs) l s = Some (l', snd (map_state f (map (el_data (l_heap l)) vs) s)) \<and>
     llist_inv_at l' (us @ vs) \<and>
     llist_items l' = map (el_data (l_heap l)) us @ fst (map_state f (map (el_data (l_heap l)) vs) s) \<and>
     l_dtor_log l' = l_dtor_log l"
  using assms
proof (induction vs arbitrary: us l s)
  case Nil
  then show ?case using llist_inv_atD(2) [OF Nil] by (auto simp: llist_apply_loop.simps)
next
  case (Cons a vs)
  obtain b where b: "l_heap l a = Some b" "l_next b = hd_or None vs" "l_data b = el_data (l_heap l) a"
    using llist_at [OF Cons.prems] by auto
  obtain d s' where f: "f (l_data b) s = (d, s')" by fastforce
  obtain l1 where l1: "wr_el a (\<lambda>b. b\<lparr>l_data := d\<rparr>) l = Some l1" "llist_inv_at l1 (us @ a # vs)"
     "el_data (l_heap l1) = (el_data (l_heap l))(a := d)" "l_dtor_log l1 = l_dtor_log l"
    using wr_data_ok [OF Cons.prems, of a d] by auto
  have nin: "a \<notin> set us" "a \<notin> set vs" using llist_inv_atD(3) [OF Cons.prems] by auto
  have eq: "map (el_data (l_heap l1)) us = map (el_data (l_heap l)) us" "map (el_data (l_heap l1)) vs = map (el_data (l_heap l)) vs"
    "el_data (l_heap l1) a = d" using l1(3) nin by auto
  from Cons.IH [of l1 "us @ [a]" s'] l1(2) show ?case
    using b f l1(1,4) eq by (subst llist_apply_loop.simps) (auto simp del: map_eq_conv split: prod.splits)
qed

fun filter_state :: "('d \<Rightarrow> 's \<Rightarrow> bool \<times> 'd \<times> 's) \<Rightarrow> 'd list \<Rightarrow> 's \<Rightarrow> ('d list \<times> 'd list) \<times> 's" where
  "filter_state f [] s = (([], []), s)"
| "filter_state f (x # xs) s = (case f x s of (del, y, s) \<Rightarrow>
     case filter_state f xs s of ((ks, ds), s) \<Rightarrow> ((if del then (ks, y # ds) else (y # ks, ds)), s))"

lemma apply_with_del_ok:
  assumes "llist_inv_at l (us @ vs)"
  shows "\<exists>l'. apply_with_del_loop f (hd_or None vs) l s = Some (l', snd (filter_state f (map (el_data (l_heap l)) vs) s)) \<and>
     llist_inv l' \<and>
     llist_items l' = map (el_data (l_heap l)) us @ fst (fst (filter_state f (map (el_data (l_heap l)) vs) s)) \<and>
     l_dtor_log l' = l_dtor_log l @ (if l_dtor l then snd (fst (filter_state f (map (el_data (l_heap l)) vs) s)) else [])"
  using assms
proof (induction vs arbitrary: us l s)
  case Nil
  then show ?case using llist_inv_atD(2) [OF Nil] by (auto simp: apply_with_del_loop.simps llist_inv_def)
next
  case (Cons a vs)
  obtain b where b: "l_heap l a = Some b" "l_next b = hd_or None vs" "l_data b = el_data (l_heap l) a"
    using llist_at [OF Cons.prems] by auto
  obtain del d s' where f: "f (l_data b) s = (del, d, s')" by (metis prod_cases3)
  obtain l1 where l1: "wr_el a (\<lambda>b. b\<lparr>l_data := d\<rparr>) l = Some l1" "llist_inv_at l1 (us @ a # vs)"
     "el_data (l_heap l1) = (el_data (l_heap l))(a := d)" "l_dtor_log l1 = l_dtor_log l" "l_dtor l1 = l_dtor l"
    using wr_data_ok [OF Cons.prems, of a d] by auto
  have nin: "a \<notin> set us" "a \<notin> set vs" using llist_inv_atD(3) [OF Cons.prems] by auto
  have eq: "map (el_data (l_heap l1)) us = map (el_data (l_heap l)) us" "map (el_data (l_heap l1)) vs = map (el_data (l_heap l)) vs"
    "el_data (l_heap l1) a = d" using l1(3) nin by auto
  show ?case
  proof (cases del)
    case False
    from Cons.IH [of l1 "us @ [a]" s'] l1(2) show ?thesis
      using False b f l1(1,4,5) eq by (subst apply_with_del_loop.simps) (auto simp del: map_eq_conv split: prod.splits)
  next
    case True
    obtain l2 where l2: "DEL_LLIST_ELEMENT a l1 = Some l2" "llist_inv_at l2 (us @ vs)"
      "\<forall>c \<in> set (us @ vs). el_data (l_heap l2) c = el_data (l_heap l1) c"
      "l_dtor_log l2 = l_dtor_log l1 @ (if l_dtor l1 then [el_data (l_heap l1) a] else [])" "l_dtor l2 = l_dtor l1"
      using del_element_at [OF l1(2)] by auto
    have "map (el_data (l_heap l2)) us = map (el_data (l_heap l)) us" "map (el_data (l_heap l2)) vs = map (el_data (l_heap l)) vs"
      using l2(3) l1(3) nin by auto
    with Cons.IH [OF l2(2), of s'] show ?thesis
      using True b f l1(1,4,5) l2(1,4,5) eq(3) by (subst apply_with_del_loop.simps) (auto simp del: map_eq_conv split: prod.splits)
  qed
qed

subsection \<open>Sorting\<close>

lemma link_neighbours_ok:
  assumes "distinct (x # xs)" "set (x # xs) \<subseteq> dom (l_heap l)" "map_option snd (llinks (l_heap l) x) = Some q"
  shows "\<exists>m. link_neighbours (x # xs) l = Some (l\<lparr>l_heap := m, l_tail := Some (last (x # xs))\<rparr>) \<and>
     dseg (llinks m) q (x # xs) None \<and> dom m = dom (l_heap l) \<and> el_data m = el_data (l_heap l) \<and>
     (\<forall>c. c \<notin> set (x # xs) \<longrightarrow> llinks m c = llinks (l_heap l) c)"
  using assms
proof (induction xs arbitrary: x q l)
  case Nil
  then obtain b where "l_heap l x = Some b" "l_prev b = q" by (auto simp: llinks_def)
  moreover define m where "m = (l_heap l)(x \<mapsto> b\<lparr>l_next := None\<rparr>)"
  ultimately have "link_neighbours [x] l = Some (l\<lparr>l_heap := m, l_tail := Some x\<rparr>)" "dom m = dom (l_heap l)"
    "el_data m = el_data (l_heap l)" "llinks m x = Some (None, q)" "\<forall>c. c \<noteq> x \<longrightarrow> llinks m c = llinks (l_heap l) c"
    by (auto simp: wr_el_def llinks_def el_data_def fun_eq_iff split: if_splits)
  then show ?case by auto
next
  case (Cons y ys)
  then obtain b c where b: "l_heap l x = Some b" "l_prev b = q" "l_heap l y = Some c" by (auto simp: llinks_def)
  define m1 where "m1 = (l_heap l)(y \<mapsto> c\<lparr>l_prev := Some x\<rparr>, x \<mapsto> b\<lparr>l_next := Some y\<rparr>)"
  have xy: "x \<noteq> y" "x \<notin> set ys" using Cons.prems(1) by auto
  have run: "link_neighbours (x # y # ys) l = link_neighbours (y # ys) (l\<lparr>l_heap := m1\<rparr>)"
    using b xy(1) by (simp add: wr_el_def m1_def)
  have d: "dom m1 = dom (l_heap l)" "el_data m1 = el_data (l_heap l)" "llinks m1 x = Some (Some y, q)"
    "map_option snd (llinks m1 y) = Some (Some x)" "\<forall>a. a \<noteq> x \<and> a \<noteq> y \<longrightarrow> llinks m1 a = llinks (l_heap l) a"
    using b xy by (auto simp: m1_def el_data_def llinks_def fun_eq_iff)
  from Cons.IH [of y "l\<lparr>l_heap := m1\<rparr>" "Some x"] Cons.prems d(1,4) obtain m where
    m: "link_neighbours (y # ys) (l\<lparr>l_heap := m1\<rparr>) = Some (l\<lparr>l_heap := m, l_tail := Some (last (y # ys))\<rparr>)"
     "dseg (llinks m) (Some x) (y # ys) None" "dom m = dom m1" "el_data m = el_data m1"
     "\<forall>a. a \<notin> set (y # ys) \<longrightarrow> llinks m a = llinks m1 a" by auto
  have "llinks m x = Some (Some y, q)" using m(5) d(3) xy by simp
  with run m d show ?case by (intro exI [of _ m]) auto
qed

lemma sort_llist_ok:
  assumes inv: "llist_inv l"
  shows "\<exists>l'. zend_llist_sort (\<lambda>x y. cmp (l_data x) (l_data y)) l = Some l' \<and> llist_inv l' \<and>
     mset (llist_items l') = mset (llist_items l) \<and> l_dtor_log l' = l_dtor_log l \<and>
     (consistent cmp (set (llist_items l)) \<longrightarrow> sorted_wrt (\<lambda>x y. cmp x y \<le> 0) (llist_items l'))"
proof -
  obtain ps where ps: "llist_inv_at l ps" using inv by (auto simp: llist_inv_def)
  note D = llist_inv_atD [OF ps]
  have cnt: "unat (l_count l) = length ps" using ps by (simp add: llist_inv_at_def)
  show ?thesis
  proof (cases "ps = []")
    case True
    with cnt have "l_count l = 0" by (simp add: unat_eq_0)
    with True D(2) inv show ?thesis by (auto simp: zend_llist_sort_def)
  next
    case False
    let ?c = "\<lambda>a b. cmp (l_data (the (l_heap l a))) (l_data (the (l_heap l b)))"
    have len: "length ps < 2 ^ 64" using cnt unat_ulong_less [of "l_count l"] by simp
    obtain ys where ys: "zend_qsort 8 ?c ps = Some ys" "mset ys = mset ps"
      "consistent ?c (set ps) \<longrightarrow> sorted_wrt (\<lambda>a b. ?c a b \<le> 0) ys"
      using zend_qsort_spec [of 8 ps ?c] len by auto
    obtain x xs where x: "ys = x # xs" using ys(2) False by (cases ys) auto
    have st: "distinct ys" "set ys = dom (l_heap l)" "length ys = length ps"
      using ys(2) D(3,4) by (auto dest: mset_eq_imp_distinct_iff mset_eq_setD mset_eq_length)
    obtain b where b: "l_heap l x = Some b" using st(2) x by auto
    define l1 where "l1 = l\<lparr>l_head := Some x, l_heap := (l_heap l)(x \<mapsto> b\<lparr>l_prev := None\<rparr>)\<rparr>"
    have d1: "dom (l_heap l1) = dom (l_heap l)" "el_data (l_heap l1) = el_data (l_heap l)"
      "map_option snd (llinks (l_heap l1) x) = Some None"
      using b by (auto simp: l1_def el_data_def llinks_def fun_eq_iff)
    from link_neighbours_ok [of x xs l1 None] obtain m where
      m: "link_neighbours ys l1 = Some (l1\<lparr>l_heap := m, l_tail := Some (last ys)\<rparr>)"
        "dseg (llinks m) None ys None" "dom m = dom (l_heap l)" "el_data m = el_data (l_heap l)"
      using st(1,2) x d1 by (metis order_refl)
    let ?l = "l1\<lparr>l_heap := m, l_tail := Some (last ys)\<rparr>"
    have "l_count l \<noteq> 0" using cnt False by (auto simp: unat_eq_0 [symmetric] simp del: unat_eq_0)
    then have run: "zend_llist_sort (\<lambda>x y. cmp (l_data x) (l_data y)) l = Some ?l"
      using D(1) cnt ys(1) b m(1) by (simp add: zend_llist_sort_def x wr_el_def l1_def)
    have "heap_bounded m (l_limit l)" using ps heap_bounded_dom [OF _ m(3)] by (simp add: llist_inv_at_def)
    then have inv': "llist_inv_at ?l ys"
      using m(2,3) st cnt x by (simp add: llist_inv_at_def list_inv_def l1_def last_or_def)
    have it: "llist_items ?l = map (el_data (l_heap l)) ys" using llist_inv_atD(2) [OF inv'] m(4) by simp
    have "consistent cmp (set (llist_items l)) \<Longrightarrow> consistent ?c (set ps)"
      using consistent_image [of cmp "el_data (l_heap l)" "set ps"] D(2) by (simp add: el_data_def)
    then have "consistent cmp (set (llist_items l)) \<Longrightarrow> sorted_wrt (\<lambda>x y. cmp x y \<le> 0) (llist_items ?l)"
      using ys(3) by (simp add: it sorted_wrt_map el_data_def)
    moreover have "mset (llist_items ?l) = mset (llist_items l)" using it D(2) ys(2) by simp
    ultimately show ?thesis using run inv' by (auto simp: llist_inv_def l1_def)
  qed
qed

subsection \<open>Walking\<close>

text \<open>A position after \<open>n\<close> of the elements; \<open>NULL\<close> beyond the last.\<close>

definition pos_at :: "'d zend_llist \<Rightarrow> nat \<Rightarrow> ptr" where
  "pos_at l n = (case gather (l_heap l) (l_head l) of None \<Rightarrow> None | Some ps \<Rightarrow> if n < length ps then Some (ps ! n) else None)"

lemma at_pos_ok:
  assumes "llist_inv_at l ps" "p = (if n < length ps then Some (ps ! n) else None)"
  shows "at_pos p pos l = Some (if n < length ps then Some (llist_items l ! n) else None,
     (case pos of None \<Rightarrow> (None, l\<lparr>traverse_ptr := p\<rparr>) | Some _ \<Rightarrow> (Some p, l)))"
proof (cases "n < length ps")
  case True
  note D = llist_inv_atD [OF assms(1)]
  have "ps ! n \<in> dom (l_heap l)" using True D(4) by auto
  with True assms(2) D(2) show ?thesis by (auto simp: at_pos_def el_data_def)
qed (use assms in \<open>simp add: at_pos_def split: option.split\<close>)

lemma walk_ok:
  assumes inv: "llist_inv l"
  shows "zend_llist_get_first_ex (Some p) l =
      Some (case llist_items l of [] \<Rightarrow> None | d # _ \<Rightarrow> Some d, Some (pos_at l 0), l)"
    and "n < length (llist_items l) \<Longrightarrow> zend_llist_get_next_ex (Some (pos_at l n)) l =
      Some (if Suc n < length (llist_items l) then Some (llist_items l ! Suc n) else None, Some (pos_at l (Suc n)), l)"
    and "n < length (llist_items l) \<Longrightarrow> zend_llist_get_prev_ex (Some (pos_at l n)) l =
      Some (if n = 0 then None else Some (llist_items l ! (n - 1)), Some (if n = 0 then None else pos_at l (n - 1)), l)"
    and "zend_llist_get_last_ex (Some p) l =
      Some (if llist_items l = [] then None else Some (last (llist_items l)), Some (pos_at l (length (llist_items l) - 1)), l)"
proof -
  obtain ps where ps: "llist_inv_at l ps" using inv by (auto simp: llist_inv_def)
  note D = llist_inv_atD [OF ps]
  have pos: "pos_at l k = (if k < length ps then Some (ps ! k) else None)" for k by (simp add: pos_at_def D(1))
  have len: "length (llist_items l) = length ps" by (simp add: D(2))
  show "zend_llist_get_first_ex (Some p) l =
      Some (case llist_items l of [] \<Rightarrow> None | d # _ \<Rightarrow> Some d, Some (pos_at l 0), l)"
    using at_pos_ok [OF ps, of "l_head l" 0 "Some p"] D(2,5)
    by (cases ps) (auto simp: zend_llist_get_first_ex_def pos)
  show "zend_llist_get_last_ex (Some p) l =
      Some (if llist_items l = [] then None else Some (last (llist_items l)), Some (pos_at l (length (llist_items l) - 1)), l)"
    using at_pos_ok [OF ps, of "l_tail l" "length ps - 1" "Some p"] D(2,6)
    by (cases ps rule: rev_cases) (auto simp: zend_llist_get_last_ex_def pos nth_append)
  assume n: "n < length (llist_items l)"
  then have n: "n < length ps" using len by simp
  obtain b where b: "l_heap l (ps ! n) = Some b" "l_next b = hd_or None (drop (Suc n) ps)" "l_prev b = last_or None (take n ps)"
    using llist_at [of l "take n ps" "ps ! n" "drop (Suc n) ps"] ps id_take_nth_drop [OF n] by metis
  have nx: "hd_or None (drop (Suc n) ps) = (if Suc n < length ps then Some (ps ! Suc n) else None)"
    by (simp add: Cons_nth_drop_Suc [symmetric])
  have pv: "last_or None (take n ps) = (if n = 0 then None else Some (ps ! (n - 1)))"
    using n by (cases n) (simp_all add: take_Suc_conv_app_nth)
  show "zend_llist_get_next_ex (Some (pos_at l n)) l =
      Some (if Suc n < length (llist_items l) then Some (llist_items l ! Suc n) else None, Some (pos_at l (Suc n)), l)"
    using at_pos_ok [OF ps nx, of "Some (pos_at l n)"] n b by (simp add: zend_llist_get_next_ex_def pos_ptr_def pos len nx)
  show "zend_llist_get_prev_ex (Some (pos_at l n)) l =
      Some (if n = 0 then None else Some (llist_items l ! (n - 1)), Some (if n = 0 then None else pos_at l (n - 1)), l)"
    using at_pos_ok [OF ps, of "last_or None (take n ps)" "if n = 0 then length ps else n - 1" "Some (pos_at l n)"] n b
    by (auto simp: zend_llist_get_prev_ex_def pos_ptr_def pos len pv)
qed

subsection \<open>Properties\<close>

definition three :: "nat zend_llist" where
  "three = the (do { l \<leftarrow> zend_llist_add_element 3 (zend_llist_init 8 True False None);
                     l \<leftarrow> zend_llist_add_element 1 l; zend_llist_add_element 2 l })"

lemma llist_init_inv: "llist_inv_at (zend_llist_init sz d p g) []" "llist_items (zend_llist_init sz d p g) = []"
proof -
  show "llist_inv_at (zend_llist_init sz d p g) []"
    by (simp add: llist_inv_at_def zend_llist_init_def list_inv_empty heap_bounded_def)
  from llist_inv_atD(2) [OF this] show "llist_items (zend_llist_init sz d p g) = []" by simp
qed

lemma three_inv: "llist_inv three" "llist_items three = [3, 1, 2]" "l_dtor three" "l_dtor_log three = []"
proof -
  let ?i = "zend_llist_init 8 True False None :: nat zend_llist"
  have room: "length ([]::nat list) < 2 ^ 64 - 1" "length [a] < 2 ^ 64 - 1" "length [a, b] < 2 ^ 64 - 1" for a b :: nat by simp_all
  from add_element_ok [OF llist_init_inv(1) [of 8 True False None] room(1), of "3::nat"] obtain a l1 where
    1: "zend_llist_add_element 3 ?i = Some l1" "llist_inv_at l1 [a]" "llist_items l1 = llist_items ?i @ [3]"
      "l_dtor_log l1 = l_dtor_log ?i" "l_dtor l1 = l_dtor ?i" unfolding append_Nil by blast
  from add_element_ok [OF 1(2) room(2), of 1] obtain b l2 where
    2: "zend_llist_add_element 1 l1 = Some l2" "llist_inv_at l2 [a, b]" "llist_items l2 = llist_items l1 @ [1]"
      "l_dtor_log l2 = l_dtor_log l1" "l_dtor l2 = l_dtor l1" unfolding append_Cons append_Nil by blast
  from add_element_ok [OF 2(2) room(3), of 2] obtain c l3 where
    3: "zend_llist_add_element 2 l2 = Some l3" "llist_inv_at l3 [a, b, c]" "llist_items l3 = llist_items l2 @ [2]"
      "l_dtor_log l3 = l_dtor_log l2" "l_dtor l3 = l_dtor l2" unfolding append_Cons append_Nil by blast
  have "three = l3" unfolding three_def 1(1) bind.simps 2(1) 3(1) option.sel ..
  with 1 2 3 show "llist_inv three" "llist_items three = [3, 1, 2]" "l_dtor three" "l_dtor_log three = []"
    using llist_init_inv(2) [of 8 True False None] by (auto simp: llist_inv_def zend_llist_init_def)
qed



text \<open>
  Traversals of the linked list: \<open>zend_llist_apply\<close> and its variants call the function on
  each element once, head first; \<open>zend_llist_apply_with_del\<close> also unlinks and destroys
  exactly the elements for which the function answers true; \<open>get_first\<close>, \<open>get_next\<close>,
  \<open>get_prev\<close> and \<open>get_last\<close> with a position of the caller walk the sequence and answer
  \<open>NULL\<close> beyond its ends.
\<close>

theorem zend_llist_traversals:
  assumes inv: "llist_inv l"
  shows "(\<exists>l'. zend_llist_apply f l s = Some (l', snd (map_state f (llist_items l) s)) \<and> llist_inv l' \<and>
        llist_items l' = fst (map_state f (llist_items l) s)) \<and>
     (zend_llist_apply_with_argument h arg l s = zend_llist_apply (\<lambda>d. h d arg) l s) \<and>
     (\<exists>l'. zend_llist_apply_with_del g l s = Some (l', snd (filter_state g (llist_items l) s)) \<and> llist_inv l' \<and>
        llist_items l' = fst (fst (filter_state g (llist_items l) s)) \<and>
        l_dtor_log l' = l_dtor_log l @ (if l_dtor l then snd (fst (filter_state g (llist_items l) s)) else [])) \<and>
     (zend_llist_get_first_ex (Some p) l =
        Some (case llist_items l of [] \<Rightarrow> None | d # _ \<Rightarrow> Some d, Some (pos_at l 0), l)) \<and>
     (n < length (llist_items l) \<longrightarrow> zend_llist_get_next_ex (Some (pos_at l n)) l =
        Some (if Suc n < length (llist_items l) then Some (llist_items l ! Suc n) else None, Some (pos_at l (Suc n)), l)) \<and>
     (n < length (llist_items l) \<longrightarrow> zend_llist_get_prev_ex (Some (pos_at l n)) l =
        Some (if n = 0 then None else Some (llist_items l ! (n - 1)), Some (if n = 0 then None else pos_at l (n - 1)), l)) \<and>
     (zend_llist_get_last_ex (Some p) l =
        Some (if llist_items l = [] then None else Some (last (llist_items l)), Some (pos_at l (length (llist_items l) - 1)), l))"
proof (intro conjI)
  obtain ps where ps: "llist_inv_at l ps" using inv by (auto simp: llist_inv_def)
  note D = llist_inv_atD [OF ps]
  show "\<exists>l'. zend_llist_apply f l s = Some (l', snd (map_state f (llist_items l) s)) \<and> llist_inv l' \<and>
           llist_items l' = fst (map_state f (llist_items l) s)"
    using apply_loop_ok [of l "[]" ps f s] ps D(2,5) by (auto simp: zend_llist_apply_def llist_inv_def)
  show "zend_llist_apply_with_argument h arg l s = zend_llist_apply (\<lambda>d. h d arg) l s"
    by (simp add: zend_llist_apply_with_argument_def zend_llist_apply_def)
  show "\<exists>l'. zend_llist_apply_with_del g l s = Some (l', snd (filter_state g (llist_items l) s)) \<and> llist_inv l' \<and>
           llist_items l' = fst (fst (filter_state g (llist_items l) s)) \<and>
           l_dtor_log l' = l_dtor_log l @ (if l_dtor l then snd (fst (filter_state g (llist_items l) s)) else [])"
    using apply_with_del_ok [of l "[]" ps g s] ps unfolding zend_llist_apply_with_del_def D(2) D(5) by simp
qed (use walk_ok [OF inv] in blast)+

theorem zend_llist_traversals_witness:
  "(\<exists>l'. zend_llist_apply_with_del (\<lambda>d s. (d > 1, d, s + d)) three 0 = Some (l', 6) \<and> llist_items l' = [1] \<and> l_dtor_log l' = [3, 2]) \<and>
   zend_llist_get_next_ex (Some (pos_at three 0)) three = Some (Some 1, Some (pos_at three 1), three)"
  using zend_llist_traversals [OF three_inv(1), THEN conjunct2, THEN conjunct2, THEN conjunct1, of "\<lambda>d s. (d > 1, d, s + d)" 0]
    zend_llist_traversals [OF three_inv(1), THEN conjunct2, THEN conjunct2, THEN conjunct2, THEN conjunct2, THEN conjunct1, of 0] by (auto simp: three_inv(2-4))

text \<open>
  C17. \<open>zend_llist_sort\<close> terminates, keeps the elements and relinks them in an order that is
  sorted for every consistent comparison, with head, tail and both links right.
\<close>

theorem zend_llist_sort_sorts:
  assumes inv: "llist_inv l"
  shows "\<exists>l'. zend_llist_sort (\<lambda>x y. cmp (l_data x) (l_data y)) l = Some l' \<and> llist_inv l' \<and>
     mset (llist_items l') = mset (llist_items l) \<and> l_dtor_log l' = l_dtor_log l \<and>
     (consistent cmp (set (llist_items l)) \<longrightarrow> sorted_wrt (\<lambda>x y. cmp x y \<le> 0) (llist_items l'))"
  by (rule sort_llist_ok [OF inv])

theorem zend_llist_sort_sorts_witness:
  "\<exists>l'. zend_llist_sort (\<lambda>x y. int (l_data x) - int (l_data y)) three = Some l' \<and> llist_inv l' \<and>
     mset (llist_items l') = mset [3, 1, 2] \<and> sorted (llist_items l')"
proof -
  have "consistent (\<lambda>x y. int x - int y) (set (llist_items three))" by (auto simp: consistent_def)
  with zend_llist_sort_sorts [OF three_inv(1), of "\<lambda>x y. int x - int y"] show ?thesis
    by (auto simp: three_inv(2))
qed

end
