(* ===== verification/Zend_Ts_Hash.thy ===== *)
theory Zend_Ts_Hash
  imports Zend_Hash_Props
begin

text \<open>
  The thread-safe hash table of \<^verbatim>\<open>zend_ts_hash.c\<close>: the operations of the hash table behind a
  lock for many readers or one writer, built from two mutexes and a counter. A call is the
  sequence of its accesses to shared memory; threads interleave between them. The body of a
  delegated operation is not atomic: it reads the tables when it starts and writes the
  tables it changes when it returns, so an overlap of two bodies would lose an update.
\<close>

subsection \<open>Tables, mutexes and instructions\<close>

datatype mutex_state = Unlocked | Locked | Freed
datatype mutex = MX_READER | MX_WRITER

record 'v TsHashTable =
  ts_hash :: "'v HashTable"
  reader :: uint
  mx_reader :: mutex_state
  mx_writer :: mutex_state

datatype ('v, 's) ts_val =
    Void
  | Status zresult
  | Stored zresult ptr
  | Found "'v option"
  | Flag bool
  | Hash_value ulong
  | Number uint
  | Extreme "zresult \<times> 'v option"
  | Order int
  | Applied 's

text \<open>A body: the tables it reads, the tables it writes, and what it computes from them.\<close>

datatype ('v, 's) ts_body =
  Body (rd_tables: "nat list") (wr_tables: "nat list")
    (act: "(nat \<Rightarrow> 'v HashTable) \<Rightarrow> (('v, 's) ts_val \<times> (nat \<Rightarrow> 'v HashTable)) option")

datatype ('v, 's) ts_instr =
    Lock nat mutex
  | Unlock nat mutex
  | Free nat
  | Inc_reader nat
  | Dec_reader nat
  | Reset_reader nat
  | Call "('v, 's) ts_body"
  | Return "('v, 's) ts_body" "(('v, 's) ts_val \<times> (nat \<Rightarrow> 'v HashTable)) option"

type_synonym ('v, 's) ts_code = "('v, 's) ts_instr list"

fun mutex_of :: "mutex \<Rightarrow> 'v TsHashTable \<Rightarrow> mutex_state" where
  "mutex_of MX_READER t = mx_reader t"
| "mutex_of MX_WRITER t = mx_writer t"

fun set_mutex :: "mutex \<Rightarrow> mutex_state \<Rightarrow> 'v TsHashTable \<Rightarrow> 'v TsHashTable" where
  "set_mutex MX_READER m t = t\<lparr>mx_reader := m\<rparr>"
| "set_mutex MX_WRITER m t = t\<lparr>mx_writer := m\<rparr>"

definition store_of :: "(nat \<Rightarrow> 'v TsHashTable) \<Rightarrow> nat \<Rightarrow> 'v HashTable" where
  "store_of tb = (\<lambda>i. ts_hash (tb i))"

definition write_back :: "nat list \<Rightarrow> (nat \<Rightarrow> 'v HashTable) \<Rightarrow> (nat \<Rightarrow> 'v TsHashTable) \<Rightarrow> nat \<Rightarrow> 'v TsHashTable" where
  "write_back ws st tb = (\<lambda>i. if i \<in> set ws then (tb i)\<lparr>ts_hash := st i\<rparr> else tb i)"

text \<open>
  One access. The first component is what the thread has to do before its next instruction:
  the branch of the source taken after the counter changed, or the return of a body that has
  started. \<open>None\<close> means that the thread cannot proceed: the mutex is taken, or the body
  ended in a fault and never returns.
\<close>

fun run_instr :: "('v, 's) ts_instr \<Rightarrow> (nat \<Rightarrow> 'v TsHashTable) \<Rightarrow>
    (('v, 's) ts_code \<times> (nat \<Rightarrow> 'v TsHashTable) \<times> ('v, 's) ts_val list) option" where
  "run_instr (Lock i m) tb =
     (if mutex_of m (tb i) = Unlocked then Some ([], tb(i := set_mutex m Locked (tb i)), []) else None)"
| "run_instr (Unlock i m) tb = Some ([], tb(i := set_mutex m Unlocked (tb i)), [])"
| "run_instr (Free i) tb = Some ([], tb(i := set_mutex MX_READER Freed (set_mutex MX_WRITER Freed (tb i))), [])"
| "run_instr (Inc_reader i) tb = (let n = reader (tb i) + 1
     in Some (if n = 1 then [Lock i MX_WRITER] else [], tb(i := (tb i)\<lparr>reader := n\<rparr>), []))"
| "run_instr (Dec_reader i) tb = (let n = reader (tb i) - 1
     in Some (if n = 0 then [Unlock i MX_WRITER] else [], tb(i := (tb i)\<lparr>reader := n\<rparr>), []))"
| "run_instr (Reset_reader i) tb = Some ([], tb(i := (tb i)\<lparr>reader := 0\<rparr>), [])"
| "run_instr (Call b) tb = Some ([Return b (act b (store_of tb))], tb, [])"
| "run_instr (Return b res) tb =
     (case res of None \<Rightarrow> None | Some (v, st) \<Rightarrow> Some ([], write_back (wr_tables b) st tb, [v]))"

subsection \<open>The lock\<close>

definition begin_read :: "nat \<Rightarrow> ('v, 's) ts_code" where
  "begin_read ht = [Lock ht MX_READER, Inc_reader ht, Unlock ht MX_READER]"

definition end_read :: "nat \<Rightarrow> ('v, 's) ts_code" where
  "end_read ht = [Lock ht MX_READER, Dec_reader ht, Unlock ht MX_READER]"

definition begin_write :: "nat \<Rightarrow> ('v, 's) ts_code" where
  "begin_write ht = [Lock ht MX_WRITER]"

definition end_write :: "nat \<Rightarrow> ('v, 's) ts_code" where
  "end_write ht = [Unlock ht MX_WRITER]"

definition reads :: "nat \<Rightarrow> ('v HashTable \<Rightarrow> ('v, 's) ts_val option) \<Rightarrow> ('v, 's) ts_code" where
  "reads ht f = begin_read ht @ [Call (Body [ht] [] (\<lambda>st. do { v \<leftarrow> f (st ht); Some (v, st) }))] @ end_read ht"

definition writes :: "nat \<Rightarrow> ('v HashTable \<Rightarrow> (('v, 's) ts_val \<times> 'v HashTable) option) \<Rightarrow> ('v, 's) ts_code" where
  "writes ht f = begin_write ht @
     [Call (Body [ht] [ht] (\<lambda>st. do { (v, t) \<leftarrow> f (st ht); Some (v, st(ht := t)) }))] @ end_write ht"

definition copies :: "nat \<Rightarrow> nat \<Rightarrow> ('v HashTable \<Rightarrow> 'v HashTable \<Rightarrow> 'v HashTable option) \<Rightarrow> ('v, 's) ts_code" where
  "copies target source f = begin_read source @ begin_write target @
     [Call (Body [target, source] [target] (\<lambda>st. do { t \<leftarrow> f (st target) (st source); Some (Void, st(target := t)) }))] @
     end_write target @ end_read source"

subsection \<open>The operations\<close>

definition zend_ts_hash_init :: "uint \<Rightarrow> bool \<Rightarrow> bool \<Rightarrow> 'v TsHashTable" where
  "zend_ts_hash_init nSize dtor pers =
     \<lparr>ts_hash = zend_hash_init nSize dtor pers, reader = 0, mx_reader = Unlocked, mx_writer = Unlocked\<rparr>"

definition zend_ts_hash_init_ex :: "uint \<Rightarrow> bool \<Rightarrow> bool \<Rightarrow> bool \<Rightarrow> 'v TsHashTable" where
  "zend_ts_hash_init_ex nSize dtor pers prot =
     \<lparr>ts_hash = zend_hash_init_ex nSize dtor pers prot, reader = 0, mx_reader = Unlocked, mx_writer = Unlocked\<rparr>"

definition voided :: "'v HashTable option \<Rightarrow> (('v, 's) ts_val \<times> 'v HashTable) option" where
  "voided r = do { t \<leftarrow> r; Some (Void, t) }"



definition zend_ts_hash_destroy :: "nat \<Rightarrow> ('v, 's) ts_code" where
  "zend_ts_hash_destroy ht = writes ht (\<lambda>t. voided (zend_hash_destroy t)) @ [Free ht]"

definition zend_ts_hash_clean :: "nat \<Rightarrow> ('v, 's) ts_code" where
  "zend_ts_hash_clean ht = Reset_reader ht # writes ht (\<lambda>t. voided (zend_hash_clean t))"





definition zend_ts_hash_graceful_destroy :: "nat \<Rightarrow> ('v, 's) ts_code" where
  "zend_ts_hash_graceful_destroy ht = writes ht (\<lambda>t. voided (zend_hash_graceful_destroy t)) @ [Free ht]"











definition zend_ts_hash_index_exists :: "nat \<Rightarrow> ulong \<Rightarrow> ('v, 's) ts_code" where
  "zend_ts_hash_index_exists ht h = reads ht (\<lambda>t. map_option Flag (zend_hash_index_exists h t))"

definition zend_ts_hash_copy :: "nat \<Rightarrow> nat \<Rightarrow> ('v \<Rightarrow> 'v) option \<Rightarrow> uint \<Rightarrow> ('v, 's) ts_code" where
  "zend_ts_hash_copy target source ctor sz = copies target source (zend_hash_copy ctor sz)"

text \<open>The target of this one is an unlocked table; it is the table of the calling thread alone.\<close>

definition zend_ts_hash_copy_to_hash :: "nat \<Rightarrow> nat \<Rightarrow> ('v \<Rightarrow> 'v) option \<Rightarrow> uint \<Rightarrow> ('v, 's) ts_code" where
  "zend_ts_hash_copy_to_hash target source ctor sz = begin_read source @
     [Call (Body [target, source] [target]
        (\<lambda>st. do { t \<leftarrow> zend_hash_copy ctor sz (st target) (st source); Some (Void, st(target := t)) }))] @
     end_read source"

definition zend_ts_hash_merge :: "nat \<Rightarrow> nat \<Rightarrow> ('v \<Rightarrow> 'v) option \<Rightarrow> uint \<Rightarrow> bool \<Rightarrow> ('v, 's) ts_code" where
  "zend_ts_hash_merge target source ctor sz overwrite = copies target source (zend_hash_merge ctor sz overwrite)"

definition zend_ts_hash_merge_ex ::
    "nat \<Rightarrow> nat \<Rightarrow> ('v \<Rightarrow> 'v) option \<Rightarrow> uint \<Rightarrow> ('v, 'p) merge_checker \<Rightarrow> 'p \<Rightarrow> ('v, 's) ts_code" where
  "zend_ts_hash_merge_ex target source ctor sz checker param = copies target source (zend_hash_merge_ex ctor sz checker param)"


text \<open>Comparing counts the nesting in both tables: it writes under a lock for reading.\<close>

definition zend_ts_hash_compare :: "nat \<Rightarrow> nat \<Rightarrow> 'v compare_func \<Rightarrow> bool \<Rightarrow> ('v, 's) ts_code" where
  "zend_ts_hash_compare ht1 ht2 compar ordered = begin_read ht1 @ begin_read ht2 @
     [Call (Body [ht1, ht2] [ht1, ht2]
        (\<lambda>st. case zend_hash_compare compar ordered (st ht1) (st ht2) of
                Some (Inr (r, t1, t2)) \<Rightarrow> Some (Order r, st(ht1 := t1, ht2 := t2)) | _ \<Rightarrow> None))] @
     end_read ht2 @ end_read ht1"




subsection \<open>Threads\<close>

type_synonym ('v, 's) ts_thread = "('v, 's) ts_code \<times> ('v, 's) ts_val list"
type_synonym ('v, 's) ts_system = "(nat \<Rightarrow> 'v TsHashTable) \<times> ('v, 's) ts_thread list"

definition step_thread :: "nat \<Rightarrow> ('v, 's) ts_system \<Rightarrow> ('v, 's) ts_system option" where
  "step_thread t = (\<lambda>(tb, ths).
     if t < length ths then
       (case ths ! t of ([], _) \<Rightarrow> None
        | (ins # rest, vs) \<Rightarrow> do {
            (push, tb, out) \<leftarrow> run_instr ins tb;
            Some (tb, ths[t := (push @ rest, vs @ out)]) })
     else None)"

fun run_schedule :: "nat list \<Rightarrow> ('v, 's) ts_system \<Rightarrow> ('v, 's) ts_system option" where
  "run_schedule [] s = Some s"
| "run_schedule (t # ts) s = do { s \<leftarrow> step_thread t s; run_schedule ts s }"




definition start_system :: "(nat \<Rightarrow> 'v HashTable) \<Rightarrow> ('v, 's) ts_code list \<Rightarrow> ('v, 's) ts_system" where
  "start_system st progs = (\<lambda>i. \<lparr>ts_hash = st i, reader = 0, mx_reader = Unlocked, mx_writer = Unlocked\<rparr>, map (\<lambda>c. (c, [])) progs)"

subsection \<open>The phases of a thread with respect to one table\<close>









subsection \<open>The invariant of one lock\<close>





















subsection \<open>Mutual exclusion\<close>





subsection \<open>Sequential runs\<close>













lemma ts_hash_set_mutex [simp]: "ts_hash (set_mutex m x t) = ts_hash t"
  by (cases m) simp_all










subsection \<open>Programs\<close>

inductive ts_program :: "nat set \<Rightarrow> ('v, 's) ts_code \<Rightarrow> bool" for A where
  Nil: "ts_program A []"
| Reads: "i \<in> A \<Longrightarrow> ts_program A c \<Longrightarrow> ts_program A (reads i f @ c)"
| Writes: "i \<in> A \<Longrightarrow> ts_program A c \<Longrightarrow> ts_program A (writes i g @ c)"
| Copies: "i \<in> A \<Longrightarrow> j \<in> A \<Longrightarrow> i \<noteq> j \<Longrightarrow> ts_program A c \<Longrightarrow> ts_program A (copies i j h @ c)"

lemmas op_codes = reads_def writes_def copies_def begin_read_def end_read_def begin_write_def end_write_def






subsection \<open>Progress\<close>


















lemma ts_two_table_operations:
  assumes "target \<noteq> source"
  shows "ts_program {target, source} (zend_ts_hash_copy target source ctor sz)"
    "ts_program {target, source} (zend_ts_hash_merge target source ctor sz overwrite)"
    "ts_program {target, source} (zend_ts_hash_merge_ex target source ctor sz checker param)"
  unfolding zend_ts_hash_copy_def zend_ts_hash_merge_def zend_ts_hash_merge_ex_def
  using ts_program.Copies [OF _ _ assms ts_program.Nil, of "{target, source}"] by simp_all

subsection \<open>Properties\<close>







text \<open>
  C26. \<open>zend_ts_hash_clean\<close> breaks the lock: it resets the counter of readers without holding
  any mutex. If it does so while another thread reads, that reader's counter wraps around when
  it leaves, the mutex for writing is never released, and the cleaning thread waits for ever:
  no thread can take a step and the table is not cleaned.
\<close>

theorem ts_hash_clean_deadlocks:
  assumes "hash_inv (st 0)"
  shows "\<exists>tb ths. run_schedule [0, 0, 0, 0, 0, 1, 0, 0, 0, 0] (start_system st [zend_ts_hash_index_exists 0 h, zend_ts_hash_clean 0])
       = Some (tb, ths) \<and> (\<forall>u. step_thread u (tb, ths) = None) \<and> fst (ths ! 1) \<noteq> [] \<and> fst (ths ! 0) = [] \<and>
     reader (tb 0) = 2 ^ 32 - 1 \<and> mx_writer (tb 0) = Locked"
proof -
  obtain x where "zend_hash_index_exists h (st 0) = Some x" using assms index_find_eq(2) unfolding hash_inv_def by blast
  then show ?thesis
    by (auto simp: start_system_def zend_ts_hash_index_exists_def op_codes zend_ts_hash_clean_def step_thread_def
        store_of_def write_back_def less_Suc_eq nth_Cons split: nat.splits)
qed

theorem ts_hash_clean_deadlocks_witness:
  "\<exists>tb ths. run_schedule [0, 0, 0, 0, 0, 1, 0, 0, 0, 0]
       (start_system (\<lambda>_. demo) [zend_ts_hash_index_exists 0 5, zend_ts_hash_clean 0] :: (nat, unit) ts_system) = Some (tb, ths) \<and>
     (\<forall>u. step_thread u (tb, ths) = None)"
  using ts_hash_clean_deadlocks [of "\<lambda>_. demo" 5] demo_inv by blast


end
