(* ===== verification/Std_Base64.thy ===== *)
theory Std_Base64
  imports Zend_Stack
begin

text \<open>
  Base64 of \<^verbatim>\<open>ext/standard/base64.c\<close>. Memory from a pointer on is a list of bytes, so the
  pointer \<open>current\<close> is the rest of the list and a read past it is a fault (\<open>None\<close>). The
  result buffer is an array of optional bytes, \<open>None\<close> where nothing has been written.
\<close>

unbundle bit_operations_syntax

type_synonym byte = "8 word"

subsection \<open>Tables\<close>

definition base64_table :: "byte list" where
  "base64_table = map of_char (''ABCDEFGHIJKLMNOPQRSTUVWXYZabcdefghijklmnopqrstuvwxyz0123456789+/'' @ [CHR 0x00])"

definition base64_pad :: byte where "base64_pad = of_char (CHR ''='')"

definition base64_reverse_table :: "int list" where
  "base64_reverse_table =
    [-2, -2, -2, -2, -2, -2, -2, -2, -2, -1, -1, -2, -2, -1, -2, -2,
     -2, -2, -2, -2, -2, -2, -2, -2, -2, -2, -2, -2, -2, -2, -2, -2,
     -1, -2, -2, -2, -2, -2, -2, -2, -2, -2, -2, 62, -2, -2, -2, 63,
     52, 53, 54, 55, 56, 57, 58, 59, 60, 61, -2, -2, -2, -2, -2, -2,
     -2,  0,  1,  2,  3,  4,  5,  6,  7,  8,  9, 10, 11, 12, 13, 14,
     15, 16, 17, 18, 19, 20, 21, 22, 23, 24, 25, -2, -2, -2, -2, -2,
     -2, 26, 27, 28, 29, 30, 31, 32, 33, 34, 35, 36, 37, 38, 39, 40,
     41, 42, 43, 44, 45, 46, 47, 48, 49, 50, 51, -2, -2, -2, -2, -2] @ replicate 128 (- 2)"

subsection \<open>Encoding\<close>

definition tab :: "byte \<Rightarrow> byte option" where
  "tab w = (if unat w < length base64_table then Some (base64_table ! unat w) else None)"

function encode_loop :: "byte list \<Rightarrow> int \<Rightarrow> byte list option" where
  "encode_loop current len =
     (if len > 2
      then (case current of
              c0 # c1 # c2 # rest \<Rightarrow> do {
                a \<leftarrow> tab (drop_bit 2 c0);
                b \<leftarrow> tab (push_bit 4 (c0 AND 3) + drop_bit 4 c1);
                c \<leftarrow> tab (push_bit 2 (c1 AND 15) + drop_bit 6 c2);
                d \<leftarrow> tab (c2 AND 63);
                p \<leftarrow> encode_loop rest (len - 3);
                Some (a # b # c # d # p) }
            | _ \<Rightarrow> None)
      else if len \<noteq> 0
      then (case current of [] \<Rightarrow> None
            | c0 # rest \<Rightarrow> do {
                a \<leftarrow> tab (drop_bit 2 c0);
                if len > 1
                then (case rest of [] \<Rightarrow> None
                      | c1 # _ \<Rightarrow> do {
                          b \<leftarrow> tab (push_bit 4 (c0 AND 3) + drop_bit 4 c1);
                          c \<leftarrow> tab (push_bit 2 (c1 AND 15));
                          Some [a, b, c, base64_pad] })
                else do {
                  b \<leftarrow> tab (push_bit 4 (c0 AND 3));
                  Some [a, b, base64_pad, base64_pad] } })
      else Some [])"
  by auto
termination by (relation "measure (nat \<circ> snd)") auto

declare encode_loop.simps [simp del]

text \<open>The cast of the pointer difference to \<open>int\<close>.\<close>

definition to_int :: "nat \<Rightarrow> int" where
  "to_int n = sint (of_nat n :: 32 word)"

text \<open>
  \<open>Some None\<close>: the function returns \<open>NULL\<close>; \<open>Some (Some (result, ret_length))\<close>: the bytes
  written, the terminating NUL included. The buffer has \<open>(length + 2) / 3 * 4 + 1\<close> bytes.
\<close>

definition encode_alloc :: "int \<Rightarrow> int" where
  "encode_alloc len = (len + 2) div 3 * 4 + 1"

definition php_base64_encode :: "byte list \<Rightarrow> int \<Rightarrow> (byte list \<times> int) option option" where
  "php_base64_encode str len =
     (if len < 0 then Some None
      else do {
        _ \<leftarrow> int_add len 2;
        p \<leftarrow> encode_loop str len;
        if int (length p) + 1 \<le> encode_alloc len then Some (Some (p @ [0], to_int (length p))) else None })"

subsection \<open>Decoding\<close>

definition isspace :: "byte \<Rightarrow> bool" where
  "isspace c \<longleftrightarrow> c = 32 \<or> (9 \<le> c \<and> c \<le> 13)"

text \<open>\<^verbatim>\<open>while (isspace(*(++current))) continue;\<close>\<close>

fun skip_spaces :: "byte list \<Rightarrow> byte list option" where
  "skip_spaces [] = None"
| "skip_spaces [c] = None"
| "skip_spaces (c # d # cs) = (if isspace d then skip_spaces (d # cs) else Some (d # cs))"

text \<open>The switch on \<open>i % 4\<close>.\<close>

definition decode_store :: "nat \<Rightarrow> byte \<Rightarrow> nat \<Rightarrow> byte option list \<Rightarrow> (nat \<times> byte option list) option" where
  "decode_store i ch j result =
     (case i mod 4 of
        0 \<Rightarrow> do { r \<leftarrow> slot_put result (int j) (Some (push_bit 2 ch)); Some (j, r) }
      | Suc 0 \<Rightarrow> do {
          old \<leftarrow> slot_get result (int j);
          r \<leftarrow> slot_put result (int j) (Some (old OR drop_bit 4 ch));
          r \<leftarrow> slot_put r (int j + 1) (Some (push_bit 4 (ch AND 15)));
          Some (j + 1, r) }
      | Suc (Suc 0) \<Rightarrow> do {
          old \<leftarrow> slot_get result (int j);
          r \<leftarrow> slot_put result (int j) (Some (old OR drop_bit 2 ch));
          r \<leftarrow> slot_put r (int j + 1) (Some (push_bit 6 (ch AND 3)));
          Some (j + 1, r) }
      | _ \<Rightarrow> do {
          old \<leftarrow> slot_get result (int j);
          r \<leftarrow> slot_put result (int j) (Some (old OR ch));
          Some (j + 1, r) })"

text \<open>
  The main loop; \<open>Inl ()\<close> is the early \<open>return NULL\<close>, \<open>Inr (ch, i, j, result)\<close> the state
  at its end.
\<close>

function decode_loop ::
    "bool \<Rightarrow> byte list \<Rightarrow> int \<Rightarrow> nat \<Rightarrow> nat \<Rightarrow> byte option list \<Rightarrow>
     (unit + byte \<times> nat \<times> nat \<times> byte option list) option" where
  "decode_loop strict current len i j result =
     (case current of [] \<Rightarrow> None
      | ch # current \<Rightarrow>
          if ch = 0 \<or> \<not> len > 0 then Some (Inr (ch, i, j, result))
          else if ch = base64_pad
          then (case current of [] \<Rightarrow> None
                | nxt # _ \<Rightarrow>
                    if nxt \<noteq> base64_pad \<and> (i mod 4 = 1 \<or> (strict \<and> len - 1 > 0))
                    then if i mod 4 \<noteq> 1
                         then (case skip_spaces current of None \<Rightarrow> None
                               | Some current \<Rightarrow> if hd current = 0 then decode_loop strict current (len - 1) i j result
                                                 else Some (Inl ()))
                         else Some (Inl ())
                    else decode_loop strict current (len - 1) i j result)
          else let v = base64_reverse_table ! unat ch in
               if (\<not> strict \<and> v < 0) \<or> v = - 1 then decode_loop strict current (len - 1) i j result
               else if v = - 2 then Some (Inl ())
               else (case decode_store i (word_of_int v) j result of None \<Rightarrow> None
                     | Some (j, result) \<Rightarrow> decode_loop strict current (len - 1) (i + 1) j result))"
  by pat_completeness auto
termination by (relation "measure (\<lambda>(s, c, len, r). nat len)") auto

declare decode_loop.simps [simp del]

definition php_base64_decode_ex :: "bool \<Rightarrow> byte list \<Rightarrow> int \<Rightarrow> (byte option list \<times> int) option option" where
  "php_base64_decode_ex strict str len = do {
     e \<leftarrow> decode_loop strict str len 0 0 (replicate (nat len + 1) None);
     (case e of Inl _ \<Rightarrow> Some None
      | Inr (ch, i, j, result) \<Rightarrow>
          if ch = base64_pad \<and> i mod 4 = 1 then Some None
          else do {
            result \<leftarrow> (if ch = base64_pad \<and> i mod 4 = 2 then slot_put result (int j + 1) (Some 0)
                       else if ch = base64_pad \<and> i mod 4 = 3 then slot_put result (int j) (Some 0)
                       else Some result);
            result \<leftarrow> slot_put result (int j) (Some 0);
            Some (Some (result, int j)) }) }"

definition php_base64_decode :: "byte list \<Rightarrow> int \<Rightarrow> (byte option list \<times> int) option option" where
  "php_base64_decode str len = php_base64_decode_ex False str len"

subsection \<open>The tables\<close>

lemma base64_table_nums:
  "base64_table = [65, 66, 67, 68, 69, 70, 71, 72, 73, 74, 75, 76, 77, 78, 79, 80, 81, 82, 83, 84, 85, 86, 87, 88, 89, 90,
     97, 98, 99, 100, 101, 102, 103, 104, 105, 106, 107, 108, 109, 110, 111, 112, 113, 114, 115, 116, 117, 118, 119, 120,
     121, 122, 48, 49, 50, 51, 52, 53, 54, 55, 56, 57, 43, 47, 0]"
  by (simp add: base64_table_def)

lemma reverse_of_table:
  "map (\<lambda>c. base64_reverse_table ! unat c) (take 64 base64_table) = map int [0..<64]"
  by (simp add: base64_table_nums base64_reverse_table_def upt_rec)

lemma table_not_special: "0 \<notin> set (take 64 base64_table)" "base64_pad \<notin> set (take 64 base64_table)"
  by (simp_all add: base64_table_nums base64_pad_def)

lemma table_entries:
  assumes "unat w < 64"
  shows "tab w = Some (base64_table ! unat w)" "base64_table ! unat w \<noteq> 0" "base64_table ! unat w \<noteq> base64_pad"
    "base64_reverse_table ! unat (base64_table ! unat w) = int (unat w)"
proof -
  have len: "length base64_table = 65" by (simp add: base64_table_def)
  with assms show "tab w = Some (base64_table ! unat w)" by (simp add: tab_def)
  have "base64_table ! unat w \<in> set (take 64 base64_table)" using assms len by (auto simp: in_set_conv_nth intro!: exI [of _ "unat w"])
  with table_not_special show "base64_table ! unat w \<noteq> 0" "base64_table ! unat w \<noteq> base64_pad" by metis+
  have "map (\<lambda>c. base64_reverse_table ! unat c) (take 64 base64_table) ! unat w = map int [0..<64] ! unat w"
    by (simp add: reverse_of_table)
  with assms len show "base64_reverse_table ! unat (base64_table ! unat w) = int (unat w)" by simp
qed

subsection \<open>The bits of a group\<close>

lemma low_bits: "(x :: byte) AND 3 = take_bit 2 x" "x AND 15 = take_bit 4 x" "x AND 63 = take_bit 6 x"
  by (simp_all add: take_bit_eq_mask mask_eq_exp_minus_1)

lemma byte_high: "8 \<le> n \<Longrightarrow> \<not> bit (x :: byte) n"
  using bit_imp_le_length [of x n] by auto

lemma byte_eqI:
  assumes "bit a 0 = bit b 0" "bit a 1 = bit b 1" "bit a 2 = bit b 2" "bit a 3 = bit b 3"
    "bit a 4 = bit b 4" "bit a 5 = bit b 5" "bit a 6 = bit b 6" "bit a 7 = bit b 7"
  shows "a = (b :: byte)"
proof (rule bit_word_eqI)
  fix n assume "n < LENGTH(8)"
  then have "n \<in> {0, 1, 2, 3, 4, 5, 6, 7}" by auto
  with assms show "bit a n = bit b n" by auto
qed

lemma sextets_or:
  "push_bit 4 (take_bit 2 x) + drop_bit 4 y = push_bit 4 (take_bit 2 (x :: byte)) OR drop_bit 4 y"
  "push_bit 2 (take_bit 4 y) + drop_bit 6 z = push_bit 2 (take_bit 4 (y :: byte)) OR drop_bit 6 z"
  by (rule disjunctive_add; auto simp: bit_simps byte_high)+

lemma sextet_less: "\<forall>n. bit (w :: byte) n \<longrightarrow> n < 6 \<Longrightarrow> unat w < 64"
proof -
  assume "\<forall>n. bit w n \<longrightarrow> n < 6"
  then have "take_bit 6 w = w" by (intro bit_word_eqI) (auto simp: bit_simps)
  then have "unat w = take_bit 6 (unat w)" by (metis unsigned_take_bit_eq)
  also have "\<dots> < 2 ^ 6" by (rule take_bit_nat_less_exp)
  finally show ?thesis by simp
qed

lemma sextets_less:
  "unat (drop_bit 2 (x :: byte)) < 64" "unat (push_bit 4 (take_bit 2 x) OR drop_bit 4 y) < 64"
  "unat (push_bit 2 (take_bit 4 y) OR drop_bit 6 z) < 64" "unat (take_bit 6 (z :: byte)) < 64"
  "unat (push_bit 2 (take_bit 4 y)) < 64" "unat (push_bit 4 (take_bit 2 x)) < 64"
  by (rule sextet_less; auto simp: bit_simps byte_high intro: ccontr)+

lemma octets_back:
  "push_bit 2 (drop_bit 2 (x :: byte)) OR drop_bit 4 (push_bit 4 (take_bit 2 x) OR drop_bit 4 y) = x"
  "push_bit 4 (take_bit 4 (push_bit 4 (take_bit 2 x) OR drop_bit 4 (y :: byte))) OR drop_bit 2 (push_bit 2 (take_bit 4 y) OR drop_bit 6 z) = y"
  "push_bit 6 (take_bit 2 (push_bit 2 (take_bit 4 y) OR drop_bit 6 (z :: byte))) OR take_bit 6 z = z"
  "push_bit 2 (drop_bit 2 x) OR drop_bit 4 (push_bit 4 (take_bit 2 x)) = x"
  "push_bit 4 (take_bit 4 (push_bit 4 (take_bit 2 x) OR drop_bit 4 y)) OR drop_bit 2 (push_bit 2 (take_bit 4 y)) = y"
  by (rule byte_eqI; simp add: bit_simps byte_high)+


subsection \<open>The reference encoding\<close>

definition T64 :: "byte \<Rightarrow> byte" where "T64 w = base64_table ! unat w"

fun enc :: "byte list \<Rightarrow> byte list" where
  "enc [] = []"
| "enc [x] = [T64 (drop_bit 2 x), T64 (push_bit 4 (take_bit 2 x)), base64_pad, base64_pad]"
| "enc [x, y] = [T64 (drop_bit 2 x), T64 (push_bit 4 (take_bit 2 x) OR drop_bit 4 y), T64 (push_bit 2 (take_bit 4 y)), base64_pad]"
| "enc (x # y # z # r) = T64 (drop_bit 2 x) # T64 (push_bit 4 (take_bit 2 x) OR drop_bit 4 y) #
     T64 (push_bit 2 (take_bit 4 y) OR drop_bit 6 z) # T64 (take_bit 6 z) # enc r"

lemma tab_sextets:
  "tab (drop_bit 2 x) = Some (T64 (drop_bit 2 x))"
  "tab (push_bit 4 (take_bit 2 x) OR drop_bit 4 y) = Some (T64 (push_bit 4 (take_bit 2 x) OR drop_bit 4 y))"
  "tab (push_bit 2 (take_bit 4 y) OR drop_bit 6 z) = Some (T64 (push_bit 2 (take_bit 4 y) OR drop_bit 6 z))"
  "tab (take_bit 6 z) = Some (T64 (take_bit 6 z))"
  "tab (push_bit 2 (take_bit 4 y)) = Some (T64 (push_bit 2 (take_bit 4 y)))"
  "tab (push_bit 4 (take_bit 2 x)) = Some (T64 (push_bit 4 (take_bit 2 x)))"
  unfolding T64_def by (intro table_entries(1) sextets_less)+

lemma encode_loop_enc: "encode_loop (xs @ m) (int (length xs)) = Some (enc xs)"
proof (induction xs rule: enc.induct)
  case 1
  then show ?case by (subst encode_loop.simps) simp
next
  case (2 x)
  then show ?case
    by (subst encode_loop.simps) (simp add: low_bits tab_sextets del: push_bit_take_bit)
next
  case (3 x y)
  then show ?case
    by (subst encode_loop.simps) (simp add: low_bits sextets_or tab_sextets del: push_bit_take_bit)
next
  case (4 x y z r)
  then show ?case
    by (subst encode_loop.simps) (simp add: low_bits sextets_or tab_sextets del: push_bit_take_bit)
qed

lemma length_enc: "length (enc xs) = 4 * ((length xs + 2) div 3)"
proof (induction xs rule: enc.induct)
  case (4 x y z r)
  have "(length (x # y # z # r) + 2) div 3 = Suc ((length r + 2) div 3)" by simp
  with 4 show ?case by simp
qed simp_all

subsection \<open>Decoding it\<close>

lemma decode_char:
  assumes "unat w < 64" "0 < len"
  shows "decode_loop strict (T64 w # cur) len i j result =
     (case decode_store i w j result of None \<Rightarrow> None
      | Some (j, result) \<Rightarrow> decode_loop strict cur (len - 1) (i + 1) j result)"
proof -
  have u: "\<not> uint w < 0" "uint w \<noteq> - 1" "uint w \<noteq> - 2" using uint_ge_0 [of w] by linarith+
  show ?thesis
    using table_entries [OF assms(1)] assms(2) u
    by (subst decode_loop.simps) (simp add: T64_def Let_def)
qed

lemma decode_step:
  assumes "unat w < 64" "0 < len" "decode_store i w j r = Some (j', r')"
  shows "decode_loop strict (T64 w # cur) len i j r = decode_loop strict cur (len - 1) (i + 1) j' r'"
  by (simp add: decode_char [OF assms(1,2)] assms(3))

lemma decode_pad:
  assumes "i mod 4 \<noteq> 1" "nxt = base64_pad \<or> len = 1" "0 < len"
  shows "decode_loop strict (base64_pad # nxt # cur) len i j result = decode_loop strict (nxt # cur) (len - 1) i j result"
proof -
  have "base64_pad \<noteq> 0" by (simp add: base64_pad_def)
  with assms show ?thesis by (subst decode_loop.simps) auto
qed

lemma decode_end: "decode_loop strict (0 # cur) len i j result = Some (Inr (0, i, j, result))"
  by (subst decode_loop.simps) simp

lemma store_cases:
  assumes "i mod 4 = 0"
  shows "j < length r \<Longrightarrow> decode_store i v j r = Some (j, r[j := Some (push_bit 2 v)])"
    "j + 1 < length r \<Longrightarrow> r ! j = Some u \<Longrightarrow>
       decode_store (i + 1) v j r = Some (j + 1, r[j := Some (u OR drop_bit 4 v), j + 1 := Some (push_bit 4 (v AND 15))])"
    "j + 1 < length r \<Longrightarrow> r ! j = Some u \<Longrightarrow>
       decode_store (i + 2) v j r = Some (j + 1, r[j := Some (u OR drop_bit 2 v), j + 1 := Some (push_bit 6 (v AND 3))])"
    "j < length r \<Longrightarrow> r ! j = Some u \<Longrightarrow> decode_store (i + 3) v j r = Some (j + 1, r[j := Some (u OR v)])"
proof -
  have m: "(i + 1) mod 4 = Suc 0" "(i + 2) mod 4 = Suc (Suc 0)" "(i + 3) mod 4 = Suc (Suc (Suc 0))"
    using assms by presburger+
  have n: "nat (int j + 1) = j + 1" by simp
  show "j < length r \<Longrightarrow> decode_store i v j r = Some (j, r[j := Some (push_bit 2 v)])"
    using assms by (simp add: decode_store_def slot_put_def)
  show "j + 1 < length r \<Longrightarrow> r ! j = Some u \<Longrightarrow>
       decode_store (i + 1) v j r = Some (j + 1, r[j := Some (u OR drop_bit 4 v), j + 1 := Some (push_bit 4 (v AND 15))])"
    "j + 1 < length r \<Longrightarrow> r ! j = Some u \<Longrightarrow>
       decode_store (i + 2) v j r = Some (j + 1, r[j := Some (u OR drop_bit 2 v), j + 1 := Some (push_bit 6 (v AND 3))])"
    "j < length r \<Longrightarrow> r ! j = Some u \<Longrightarrow> decode_store (i + 3) v j r = Some (j + 1, r[j := Some (u OR v)])"
    unfolding decode_store_def m using n by (simp_all add: slot_put_def slot_get_def)
qed

lemma take_snoc2: "j < length r \<Longrightarrow> take (Suc j) (r[j := v]) = take j r @ [v]"
  by (simp add: take_Suc_conv_app_nth)

lemma decode_group:
  assumes i: "i mod 4 = 0" and len: "3 < len" and j: "j + 2 < length r"
  shows "decode_loop strict (T64 (drop_bit 2 x) # T64 (push_bit 4 (take_bit 2 x) OR drop_bit 4 y) #
       T64 (push_bit 2 (take_bit 4 y) OR drop_bit 6 z) # T64 (take_bit 6 z) # cur) len i j r =
     decode_loop strict cur (len - 4) (i + 4) (j + 3) (r[j := Some x, j + 1 := Some y, j + 2 := Some z])"
proof -
  let ?r1 = "r[j := Some (push_bit 2 (drop_bit 2 x))]"
  let ?r2 = "r[j := Some x, j + 1 := Some (push_bit 4 (take_bit 4 (push_bit 4 (take_bit 2 x) OR drop_bit 4 y)))]"
  let ?r3 = "r[j := Some x, j + 1 := Some y, j + 2 := Some (push_bit 6 (take_bit 2 (push_bit 2 (take_bit 4 y) OR drop_bit 6 z)))]"
  have 1: "decode_store i (drop_bit 2 x) j r = Some (j, ?r1)" by (rule store_cases(1) [OF i]) (use j in simp)
  have 2: "decode_store (i + 1) (push_bit 4 (take_bit 2 x) OR drop_bit 4 y) j ?r1 = Some (j + 1, ?r2)"
    using store_cases(2) [OF i, of j ?r1 "push_bit 2 (drop_bit 2 x)" "push_bit 4 (take_bit 2 x) OR drop_bit 4 y"] j
    by (simp only: octets_back low_bits list_update_overwrite length_list_update nth_list_update_eq)
  have 3: "decode_store (i + 2) (push_bit 2 (take_bit 4 y) OR drop_bit 6 z) (j + 1) ?r2 = Some (j + 2, ?r3)"
    using store_cases(3) [OF i, of "j + 1" ?r2 "push_bit 4 (take_bit 4 (push_bit 4 (take_bit 2 x) OR drop_bit 4 y))"
        "push_bit 2 (take_bit 4 y) OR drop_bit 6 z"] j
    by (simp only: octets_back low_bits list_update_overwrite length_list_update) simp
  have 4: "decode_store (i + 3) (take_bit 6 z) (j + 2) ?r3 = Some (j + 3, r[j := Some x, j + 1 := Some y, j + 2 := Some z])"
    using store_cases(4) [OF i, of "j + 2" ?r3 "push_bit 6 (take_bit 2 (push_bit 2 (take_bit 4 y) OR drop_bit 6 z))" "take_bit 6 z"] j
    by (simp only: octets_back low_bits list_update_overwrite length_list_update) simp
  have ii: "i + 1 + 1 = i + 2" "i + 2 + 1 = i + 3" "i + 3 + 1 = i + 4" "len - 1 - 1 = len - 2" "len - 2 - 1 = len - 3" "len - 3 - 1 = len - 4"
    by simp_all
  have l: "0 < len" "0 < len - 1" "0 < len - 2" "0 < len - 3" using len by simp_all
  note s = decode_step [OF sextets_less(1) l(1) 1] decode_step [OF sextets_less(2) l(2) 2]
    decode_step [OF sextets_less(3) l(3) 3] decode_step [OF sextets_less(4) l(4) 4]
  show ?thesis unfolding s [unfolded ii] ..
qed

lemma decode_enc:
  assumes "i mod 4 = 0" "j + length xs < length r"
  shows "\<exists>i' r'. decode_loop strict (enc xs @ 0 # m) (int (length (enc xs))) i j r = Some (Inr (0, i', j + length xs, r')) \<and>
     length r' = length r \<and> take (j + length xs) r' = take j r @ map Some xs"
  using assms
proof (induction xs arbitrary: i j r rule: enc.induct)
  case 1
  then show ?case by (simp add: decode_end)
next
  case (2 x)
  note i = 2(1) and jr = 2(2)
  let ?e = "push_bit 4 (take_bit 2 x)"
  let ?r1 = "r[j := Some (push_bit 2 (drop_bit 2 x))]"
  let ?r2 = "r[j := Some x, j + 1 := Some (push_bit 4 (take_bit 4 ?e))]"
  have 1: "decode_store i (drop_bit 2 x) j r = Some (j, ?r1)" by (rule store_cases(1) [OF i]) (use jr in simp)
  have 2: "decode_store (i + 1) ?e j ?r1 = Some (j + 1, ?r2)"
    using store_cases(2) [OF i, of j ?r1 "push_bit 2 (drop_bit 2 x)" ?e] jr
    by (simp only: octets_back low_bits list_update_overwrite length_list_update nth_list_update_eq) simp
  have m: "(i + 1 + 1) mod 4 \<noteq> 1" using i by presburger
  have l: "0 < (4::int)" "0 < (4 - 1 :: int)" by simp_all
  note s = decode_step [OF sextets_less(1) l(1) 1] decode_step [OF sextets_less(6) l(2) 2]
  have "decode_loop strict (enc [x] @ 0 # m) 4 i j r = Some (Inr (0, i + 1 + 1, j + 1, ?r2))"
    unfolding enc.simps append.simps s using m by (simp add: decode_pad decode_end)
  moreover have "take (Suc j) ?r2 = take j r @ [Some x]" using jr by (simp add: take_Suc_conv_app_nth)
  ultimately show ?case using jr by simp
next
  case (3 x y)
  note i = 3(1) and jr = 3(2)
  let ?e1 = "push_bit 4 (take_bit 2 x) OR drop_bit 4 y" and ?e2 = "push_bit 2 (take_bit 4 y)"
  let ?r1 = "r[j := Some (push_bit 2 (drop_bit 2 x))]"
  let ?r2 = "r[j := Some x, j + 1 := Some (push_bit 4 (take_bit 4 ?e1))]"
  let ?r3 = "r[j := Some x, j + 1 := Some y, j + 2 := Some (push_bit 6 (take_bit 2 ?e2))]"
  have 1: "decode_store i (drop_bit 2 x) j r = Some (j, ?r1)" by (rule store_cases(1) [OF i]) (use jr in simp)
  have 2: "decode_store (i + 1) ?e1 j ?r1 = Some (j + 1, ?r2)"
    using store_cases(2) [OF i, of j ?r1 "push_bit 2 (drop_bit 2 x)" ?e1] jr
    by (simp only: octets_back low_bits list_update_overwrite length_list_update nth_list_update_eq) simp
  have 3: "decode_store (i + 2) ?e2 (j + 1) ?r2 = Some (j + 2, ?r3)"
    using store_cases(3) [OF i, of "j + 1" ?r2 "push_bit 4 (take_bit 4 ?e1)" ?e2] jr
    by (simp only: octets_back low_bits list_update_overwrite length_list_update) simp
  have m: "(i + 3) mod 4 \<noteq> 1" using i by presburger
  have ii: "i + 1 + 1 = i + 2" "i + 2 + 1 = i + 3" "(4::int) - 1 - 1 = 2" "(2::int) - 1 = 1" by simp_all
  have l: "0 < (4::int)" "0 < (4 - 1 :: int)" "0 < (2 :: int)" by simp_all
  note s = decode_step [OF sextets_less(1) l(1) 1] decode_step [OF sextets_less(2) l(2) 2] decode_step [OF sextets_less(5) l(3) 3]
  have "decode_loop strict (enc [x, y] @ 0 # m) 4 i j r = Some (Inr (0, i + 3, j + 2, ?r3))"
    unfolding enc.simps append.simps s [unfolded ii] using m by (simp add: decode_pad decode_end)
  moreover have "take (j + 2) ?r3 = take j r @ [Some x, Some y]" using jr by (simp add: take_Suc_conv_app_nth)
  ultimately show ?case using jr by simp
next
  case (4 x y z xs)
  let ?r = "r[j := Some x, j + 1 := Some y, j + 2 := Some z]"
  have i: "(i + 4) mod 4 = 0" "j + 3 + length xs < length ?r" using 4(2,3) by simp_all
  have run: "decode_loop strict (enc (x # y # z # xs) @ 0 # m) (int (length (enc (x # y # z # xs)))) i j r =
      decode_loop strict (enc xs @ 0 # m) (int (length (enc xs))) (i + 4) (j + 3) ?r"
    using decode_group [OF 4(2), of "int (length (enc (x # y # z # xs)))" j r strict x y z "enc xs @ 0 # m"] 4(3) by simp
  have tk: "take (j + 3) ?r = take j r @ [Some x, Some y, Some z]"
    using 4(3) by (simp add: take_Suc_conv_app_nth numeral_3_eq_3)
  have jl: "j + length (x # y # z # xs) = j + 3 + length xs" by simp
  have e: "take j r @ map Some (x # y # z # xs) = take (j + 3) ?r @ map Some xs" unfolding tk by simp
  from 4(1) [OF i] show ?case unfolding run jl e length_list_update .
qed

subsection \<open>Properties\<close>

text \<open>
  C20. Encoding writes exactly the buffer it allocated, four characters for every three
  bytes begun and a terminating NUL, and never indexes the table out of range; a negative
  length gives \<open>NULL\<close>; the length returned as \<open>int\<close> is right below 1.6 GB.
\<close>

theorem base64_encode_fits:
  assumes "len = int (length xs)" "length xs < 2 ^ 31 - 2"
  shows "(\<exists>out ret. php_base64_encode (xs @ m) len = Some (Some (out @ [0], ret)) \<and>
        int (length (out @ [0])) = encode_alloc len \<and> length out = 4 * ((length xs + 2) div 3) \<and>
        (length xs \<le> 1610612733 \<longrightarrow> ret = int (length out))) \<and>
     (n < 0 \<longrightarrow> php_base64_encode s n = Some None)"
proof (intro conjI)
  have al: "encode_alloc len = int (length (enc xs)) + 1"
    by (simp add: encode_alloc_def assms(1) length_enc zdiv_int)
  have add: "int_add len 2 = Some (len + 2)" using assms by (simp add: int_add_def)
  have "to_int (length (enc xs)) = int (length (enc xs))" if "length xs \<le> 1610612733"
  proof -
    have "(length xs + 2) div 3 \<le> (1610612733 + 2) div 3" using that by (intro div_le_mono) simp
    then have "length (enc xs) < 2 ^ 31" by (simp add: length_enc)
    then show ?thesis unfolding to_int_def
      by (subst signed_of_nat) (simp add: signed_take_bit_int_eq_self)
  qed
  with al add encode_loop_enc [of xs m] assms(1) length_enc [of xs]
  show "\<exists>out ret. php_base64_encode (xs @ m) len = Some (Some (out @ [0], ret)) \<and>
     int (length (out @ [0])) = encode_alloc len \<and> length out = 4 * ((length xs + 2) div 3) \<and>
     (length xs \<le> 1610612733 \<longrightarrow> ret = int (length out))"
    by (intro exI [of _ "enc xs"] exI [of _ "to_int (length (enc xs))"]) (simp add: php_base64_encode_def)
  show "n < 0 \<longrightarrow> php_base64_encode s n = Some None" by (simp add: php_base64_encode_def)
qed

theorem base64_encode_fits_witness:
  "\<exists>out ret. php_base64_encode ([104, 105] @ [0]) 2 = Some (Some (out @ [0], ret)) \<and> int (length (out @ [0])) = encode_alloc 2 \<and> ret = 4"
  using base64_encode_fits [where len = 2 and xs = "[104, 105]" and m = "[0]" and n = 0 and s = "[]"] by auto

text \<open>
  C21. Decoding what was encoded gives the bytes back, strictly or not, without a fault and
  with the right length, for every input short enough for its length to be an \<open>int\<close>.
\<close>

theorem base64_round_trip:
  assumes "length xs \<le> 1610612733"
  shows "\<exists>out result result'. php_base64_encode (xs @ m) (int (length xs)) = Some (Some (out @ [0], int (length out))) \<and>
     php_base64_decode_ex True (out @ [0]) (int (length out)) = Some (Some (result, int (length xs))) \<and>
     take (length xs) result = map Some xs \<and> result ! length xs = Some 0 \<and>
     php_base64_decode (out @ [0]) (int (length out)) = Some (Some (result', int (length xs))) \<and>
     take (length xs) result' = map Some xs \<and> result' ! length xs = Some 0"
proof -
  have to: "to_int (length (enc xs)) = int (length (enc xs))" "int_add (int (length xs)) 2 \<noteq> None"
  proof -
    have "(length xs + 2) div 3 \<le> (1610612733 + 2) div 3" using assms by (intro div_le_mono) simp
    then have "length (enc xs) < 2 ^ 31" by (simp add: length_enc)
    then show "to_int (length (enc xs)) = int (length (enc xs))" unfolding to_int_def
      by (subst signed_of_nat) (simp add: signed_take_bit_int_eq_self)
    show "int_add (int (length xs)) 2 \<noteq> None" using assms by (simp add: int_add_def)
  qed
  have en: "php_base64_encode (xs @ m) (int (length xs)) = Some (Some (enc xs @ [0], int (length (enc xs))))"
    using encode_loop_enc [of xs m] to by (auto simp: php_base64_encode_def encode_alloc_def length_enc zdiv_int)
  have room: "length xs < length (enc xs) + 1" by (simp add: length_enc)
  define r where "r = replicate (length (enc xs) + 1) (None :: byte option)"
  have "\<exists>r'. php_base64_decode_ex st (enc xs @ [0]) (int (length (enc xs))) = Some (Some (r', int (length xs))) \<and>
      take (length xs) r' = map Some xs \<and> r' ! length xs = Some 0" for st
  proof -
    obtain i' r' where r': "decode_loop st (enc xs @ [0]) (int (length (enc xs))) 0 0 r = Some (Inr (0, i', length xs, r'))"
      "length r' = length r" "take (length xs) r' = map Some xs"
      using decode_enc [of 0 0 xs r st "[]"] room by (auto simp: r_def)
    have slot: "slot_put r' (int (length xs)) (Some 0) = Some (r'[length xs := Some 0])"
      using r'(2) room by (simp add: slot_put_def r_def)
    have "base64_pad \<noteq> 0" by (simp add: base64_pad_def)
    then have "php_base64_decode_ex st (enc xs @ [0]) (int (length (enc xs))) = Some (Some (r'[length xs := Some 0], int (length xs)))"
      using r'(1) slot by (simp add: php_base64_decode_ex_def r_def)
    with r' room show ?thesis by (auto simp: r_def)
  qed
  from en this [of True] this [of False] show ?thesis
    unfolding php_base64_decode_def by (intro exI [of _ "enc xs"]) auto
qed

theorem base64_round_trip_witness:
  "\<exists>out result. php_base64_encode ([104, 105] @ [0]) 2 = Some (Some (out @ [0], int (length out))) \<and>
     php_base64_decode_ex True (out @ [0]) (int (length out)) = Some (Some (result, 2)) \<and> take 2 result = [Some 104, Some 105]"
proof -
  have "length [104, 105 :: byte] \<le> 1610612733" "int (length [104, 105 :: byte]) = 2" by simp_all
  from base64_round_trip [OF this(1), of "[0]", unfolded this(2)] show ?thesis by (auto simp: numeral_2_eq_2)
qed

end
