(* ===== verification/Std_Url.thy ===== *)
theory Std_Url
  imports Std_Base64
begin

text \<open>
  URL encoding and decoding of \<^verbatim>\<open>ext/standard/url.c\<close> (the ASCII build). The decoders work in
  place: the read position runs ahead of the write position in one buffer. Characters are
  compared as unsigned bytes, and the \<^verbatim>\<open>ctype\<close> functions are those of the C locale.
\<close>

unbundle bit_operations_syntax

subsection \<open>Hexadecimal digits\<close>







subsection \<open>Encoding\<close>








subsection \<open>Decoding in place\<close>








subsection \<open>The reference decoder\<close>



lemma drop_upd_before: "i \<le> j \<Longrightarrow> drop (Suc j) (xs[i := v]) = drop (Suc j) xs"
  by (simp add: drop_update_cancel)







subsection \<open>Escapes\<close>
















subsection \<open>Properties\<close>




end
