(* ===== verification/Cal_Sdn.thy ===== *)
theory Cal_Sdn
  imports Main "HOL-Library.Word" "HOL-Library.Monad_Syntax" "HOL-Library.Signed_Division"
begin

text \<open>
  Calendar conversions of \<^verbatim>\<open>ext/calendar\<close> between serial day numbers and the Gregorian, the
  Julian and the French republican calendar. \<open>long\<close> is 64 bits and \<open>int\<close> 32 bits; an
  operation on \<open>int\<close>s that leaves the range is undefined and gives \<open>None\<close>, and the
  assignment of a \<open>long\<close> to an \<open>int\<close> wraps around. Division truncates towards zero.
\<close>

subsection \<open>C integers\<close>

definition chk :: "int \<Rightarrow> int option" where
  "chk x = (if - (2 ^ 31) \<le> x \<and> x < 2 ^ 31 then Some x else None)"

definition chk_long :: "int \<Rightarrow> int option" where
  "chk_long x = (if - (2 ^ 63) \<le> x \<and> x < 2 ^ 63 then Some x else None)"

definition as_int :: "int \<Rightarrow> int" where
  "as_int x = sint (word_of_int x :: 32 word)"

definition long_max :: int where "long_max = 2 ^ 63 - 1"
definition int_max :: int where "int_max = 2 ^ 31 - 1"

lemma chk_eq: "- (2 ^ 31) \<le> x \<Longrightarrow> x < 2 ^ 31 \<Longrightarrow> chk x = Some x"
  by (simp add: chk_def)

lemma chk_long_eq: "- (2 ^ 63) \<le> x \<Longrightarrow> x < 2 ^ 63 \<Longrightarrow> chk_long x = Some x"
  by (simp add: chk_long_def)

lemma as_int_eq: "- (2 ^ 31) \<le> x \<Longrightarrow> x < 2 ^ 31 \<Longrightarrow> as_int x = x"
  unfolding as_int_def by (subst signed_of_int) (simp add: signed_take_bit_int_eq_self)

lemma sdiv_pos: "0 \<le> (a::int) \<Longrightarrow> 0 < b \<Longrightarrow> a sdiv b = a div b" "0 \<le> a \<Longrightarrow> 0 < b \<Longrightarrow> a smod b = a mod b"
  by (simp_all add: signed_divide_int_def signed_modulo_int_def sgn_if div_eq_0_iff minus_div_mult_eq_mod zero_less_mult_iff)
    
subsection \<open>The conversions\<close>

definition GREGOR_SDN_OFFSET :: int where "GREGOR_SDN_OFFSET = 32045"
definition JULIAN_SDN_OFFSET :: int where "JULIAN_SDN_OFFSET = 32083"
definition FRENCH_SDN_OFFSET :: int where "FRENCH_SDN_OFFSET = 2375474"
definition DAYS_PER_5_MONTHS :: int where "DAYS_PER_5_MONTHS = 153"
definition DAYS_PER_4_YEARS :: int where "DAYS_PER_4_YEARS = 1461"
definition DAYS_PER_400_YEARS :: int where "DAYS_PER_400_YEARS = 146097"
definition DAYS_PER_MONTH :: int where "DAYS_PER_MONTH = 30"
definition FIRST_VALID :: int where "FIRST_VALID = 2375840"
definition LAST_VALID :: int where "LAST_VALID = 2380952"

lemmas cal_consts = GREGOR_SDN_OFFSET_def JULIAN_SDN_OFFSET_def FRENCH_SDN_OFFSET_def DAYS_PER_5_MONTHS_def
  DAYS_PER_4_YEARS_def DAYS_PER_400_YEARS_def DAYS_PER_MONTH_def FIRST_VALID_def LAST_VALID_def

text \<open>The month and the day from the day of a year that starts in March; then the adjustments.\<close>

definition month_day :: "int \<Rightarrow> int \<times> int" where
  "month_day dayOfYear = (let temp = dayOfYear * 5 - 3
     in (as_int (temp sdiv DAYS_PER_5_MONTHS), as_int ((temp smod DAYS_PER_5_MONTHS) sdiv 5 + 1)))"

definition civil_date :: "int \<Rightarrow> int \<Rightarrow> int \<Rightarrow> (int \<times> int \<times> int) option" where
  "civil_date year month day = do {
     (year, month) \<leftarrow> (if month < 10 then do { m \<leftarrow> chk (month + 3); Some (year, m) }
                       else do { y \<leftarrow> chk (year + 1); m \<leftarrow> chk (month - 9); Some (y, m) });
     year \<leftarrow> chk (year - 4800);
     year \<leftarrow> (if year \<le> 0 then chk (year - 1) else Some year);
     Some (year, month, day) }"

definition SdnToGregorian :: "int \<Rightarrow> (int \<times> int \<times> int) option" where
  "SdnToGregorian sdn =
     (if sdn \<le> 0 \<or> sdn > (long_max - 4 * GREGOR_SDN_OFFSET) sdiv 4 then Some (0, 0, 0)
      else do {
        temp \<leftarrow> chk_long ((sdn + GREGOR_SDN_OFFSET) * 4 - 1);
        let century = as_int (temp sdiv DAYS_PER_400_YEARS);
        let temp = ((temp smod DAYS_PER_400_YEARS) sdiv 4) * 4 + 3;
        c100 \<leftarrow> chk (century * 100);
        let year = as_int (c100 + temp sdiv DAYS_PER_4_YEARS);
        let dayOfYear = as_int ((temp smod DAYS_PER_4_YEARS) sdiv 4 + 1);
        (case month_day dayOfYear of (month, day) \<Rightarrow> civil_date year month day) })"

text \<open>The year counted from 4801 B.C. and starting in March, and the month in it.\<close>

definition march_year :: "int \<Rightarrow> int \<Rightarrow> (int \<times> int) option" where
  "march_year inputYear inputMonth = do {
     year \<leftarrow> (if inputYear < 0 then chk (inputYear + 4801) else chk (inputYear + 4800));
     if inputMonth > 2 then Some (year, inputMonth - 3)
     else do { y \<leftarrow> chk (year - 1); Some (y, inputMonth + 9) } }"

definition GregorianToSdn :: "int \<Rightarrow> int \<Rightarrow> int \<Rightarrow> int option" where
  "GregorianToSdn inputYear inputMonth inputDay =
     (if inputYear = 0 \<or> inputYear < -4714 \<or> inputMonth \<le> 0 \<or> inputMonth > 12 \<or> inputDay \<le> 0 \<or> inputDay > 31 then Some 0
      else if inputYear = -4714 \<and> inputMonth < 11 then Some 0
      else if inputYear = -4714 \<and> inputMonth = 11 \<and> inputDay < 25 then Some 0
      else do {
        (year, month) \<leftarrow> march_year inputYear inputMonth;
        a \<leftarrow> chk ((year sdiv 100) * DAYS_PER_400_YEARS);
        b \<leftarrow> chk ((year smod 100) * DAYS_PER_4_YEARS);
        r \<leftarrow> chk (a sdiv 4 + b sdiv 4);
        r \<leftarrow> chk (r + (month * DAYS_PER_5_MONTHS + 2) sdiv 5);
        r \<leftarrow> chk (r + inputDay);
        chk (r - GREGOR_SDN_OFFSET) })"

definition SdnToJulian :: "int \<Rightarrow> (int \<times> int \<times> int) option" where
  "SdnToJulian sdn =
     (if sdn \<le> 0 then Some (0, 0, 0)
      else if sdn > (long_max - JULIAN_SDN_OFFSET * 4 + 1) sdiv 4 \<or> sdn < (- long_max - 1) sdiv 4 then Some (0, 0, 0)
      else do {
        temp \<leftarrow> chk_long (sdn * 4 + (JULIAN_SDN_OFFSET * 4 - 1));
        let yearl = temp sdiv DAYS_PER_4_YEARS;
        if yearl > int_max \<or> yearl < - int_max - 1 then Some (0, 0, 0)
        else do {
          let year = as_int yearl;
          let dayOfYear = as_int ((temp smod DAYS_PER_4_YEARS) sdiv 4 + 1);
          (case month_day dayOfYear of (month, day) \<Rightarrow> civil_date year month day) } })"





subsection \<open>The reference calendars\<close>

text \<open>Years are numbered without a year 0; \<open>astro\<close> makes them consecutive.\<close>

definition astro :: "int \<Rightarrow> int" where "astro y = (if y < 0 then y + 1 else y)"

definition gregorian_leap :: "int \<Rightarrow> bool" where
  "gregorian_leap y \<longleftrightarrow> astro y mod 4 = 0 \<and> (astro y mod 100 \<noteq> 0 \<or> astro y mod 400 = 0)"


definition month_days :: "bool \<Rightarrow> int \<Rightarrow> int" where
  "month_days leap m = (if m = 2 then (if leap then 29 else 28) else if m \<in> {4, 6, 9, 11} then 30 else 31)"

definition next_day :: "(int \<Rightarrow> bool) \<Rightarrow> int \<times> int \<times> int \<Rightarrow> int \<times> int \<times> int" where
  "next_day leap = (\<lambda>(y, m, d). if d < month_days (leap y) m then (y, m, d + 1)
     else if m < 12 then (y, m + 1, 1) else (if y = -1 then 1 else y + 1, 1, 1))"

definition valid_date :: "(int \<Rightarrow> bool) \<Rightarrow> int \<times> int \<times> int \<Rightarrow> bool" where
  "valid_date leap = (\<lambda>(y, m, d). y \<noteq> 0 \<and> 1 \<le> m \<and> m \<le> 12 \<and> 1 \<le> d \<and> d \<le> month_days (leap y) m)"

text \<open>Day counts in one formula each: the closed form of \<open>GregorianToSdn\<close> and \<open>JulianToSdn\<close>.\<close>

definition shifted :: "int \<Rightarrow> int \<Rightarrow> int \<times> int" where
  "shifted y m = (if m > 2 then (astro y + 4800, m - 3) else (astro y + 4799, m + 9))"

definition gregorian_days :: "int \<Rightarrow> int \<Rightarrow> int \<Rightarrow> int" where
  "gregorian_days y m d = (case shifted y m of (Y, M) \<Rightarrow>
     (Y div 100 * 146097) div 4 + (Y mod 100 * 1461) div 4 + (M * 153 + 2) div 5 + d - 32045)"


lemma march_year_eq:
  assumes "-4714 \<le> y" "y \<le> 1465200" "y \<noteq> 0" "1 \<le> m" "m \<le> 12"
  shows "march_year y m = Some (shifted y m)"
  using assms by (simp add: march_year_def shifted_def astro_def chk_def)

subsection \<open>Decomposing a day number\<close>

text \<open>
  Splitting \<open>4 n + 3\<close> by a period of \<open>p\<close> quarter days never carries, so the whole periods
  and the rest add up again; this is the arithmetic behind all three calendars.
\<close>

lemma no_carry:
  fixes n p :: int
  assumes "0 < p"
  shows "(p * ((4 * n + 3) div p)) div 4 + ((4 * n + 3) mod p) div 4 = n"
proof -
  define a b where "a = p * ((4 * n + 3) div p)" and "b = (4 * n + 3) mod p"
  have "a + b = 4 * n + 3" unfolding a_def b_def by simp
  then have "a div 4 + b div 4 = n" by presburger
  then show ?thesis by (simp add: a_def b_def)
qed

lemma month_start:
  assumes "153 * M + b = 5 * e + (2::int)"
  shows "(153 * M + 2) div 5 + b div 5 = e"
proof -
  have b: "b = 5 * (e - 30 * M) + (2 - 3 * M)" "153 * M + 2 = 5 * (30 * M) + (3 * M + 2)" using assms by simp_all
  have "(x + 2) div 5 + (2 - x) div 5 = 0" for x :: int by presburger
  from this [of "3 * M"] show ?thesis unfolding b by (simp only: div_mult_self4 div_mult_self3 ; simp)
qed

lemma month_split:
  fixes e :: int
  assumes "0 \<le> e" "e \<le> 365"
  shows "(153 * ((5 * e + 2) div 153) + 2) div 5 + ((5 * e + 2) mod 153) div 5 = e"
    "0 \<le> (5 * e + 2) div 153" "(5 * e + 2) div 153 \<le> 11"
    "0 \<le> ((5 * e + 2) mod 153) div 5" "((5 * e + 2) mod 153) div 5 \<le> 30"
proof -
  define a b where "a = (5 * e + 2) div 153" and "b = (5 * e + 2) mod 153"
  have ab: "153 * a + b = 5 * e + 2" "0 \<le> b" "b < 153" unfolding a_def b_def by simp_all
  have a: "0 \<le> a" "a \<le> 11" using ab assms by linarith+
  from a show "0 \<le> (5 * e + 2) div 153" "(5 * e + 2) div 153 \<le> 11" by (simp_all only: a_def)
  show "(153 * ((5 * e + 2) div 153) + 2) div 5 + ((5 * e + 2) mod 153) div 5 = e"
    unfolding a_def [symmetric] b_def [symmetric] using ab(1) by (rule month_start)
  show "0 \<le> ((5 * e + 2) mod 153) div 5" "((5 * e + 2) mod 153) div 5 \<le> 30"
    unfolding b_def [symmetric] using ab by linarith+
qed

lemma month_day_eq:
  assumes "0 \<le> e" "e \<le> 365"
  shows "month_day (e + 1) = ((5 * e + 2) div 153, ((5 * e + 2) mod 153) div 5 + 1)"
proof -
  have t: "(e + 1) * 5 - 3 = 5 * e + 2" "0 \<le> 5 * e + 2" using assms by simp_all
  have "0 \<le> (5 * e + 2) mod 153" by simp
  then show ?thesis
    unfolding month_day_def t Let_def cal_consts using t(2) month_split [OF assms] by (simp add: sdiv_pos as_int_eq)
qed

text \<open>The date of the \<open>e\<close>-th day of the year \<open>Y\<close> that starts in March.\<close>

definition date_of :: "int \<Rightarrow> int \<Rightarrow> int \<times> int \<times> int" where
  "date_of Y e = (let M = (5 * e + 2) div 153; d = ((5 * e + 2) mod 153) div 5 + 1;
      y = (if M < 10 then Y else Y + 1) - 4800
    in (if y \<le> 0 then y - 1 else y, if M < 10 then M + 3 else M - 9, d))"

lemma civil_date_eq:
  assumes "0 \<le> Y" "Y \<le> 2000000000" "0 \<le> e" "e \<le> 365"
  shows "(case month_day (e + 1) of (month, day) \<Rightarrow> civil_date Y month day) = Some (date_of Y e)"
proof -
  define M d where "M = (5 * e + 2) div 153" and "d = ((5 * e + 2) mod 153) div 5 + 1"
  have M: "0 \<le> M" "M \<le> 11" using month_split [OF assms(3,4)] by (simp_all only: M_def)
  have "month_day (e + 1) = (M, d)" using month_day_eq [OF assms(3,4)] by (simp only: M_def d_def)
  moreover have "date_of Y e = (let y = (if M < 10 then Y else Y + 1) - 4800
      in (if y \<le> 0 then y - 1 else y, if M < 10 then M + 3 else M - 9, d))"
    by (simp only: date_of_def M_def d_def Let_def)
  ultimately show ?thesis using M assms(1,2) by (simp add: civil_date_def Let_def chk_def)
qed

lemma date_of_shifted:
  assumes dt: "date_of Y e = (y, m, d)" and e: "0 \<le> e" "e \<le> 365"
  shows "shifted y m = (Y, (5 * e + 2) div 153)" "(((5 * e + 2) div 153) * 153 + 2) div 5 + d = e + 1"
    "y \<noteq> 0" "1 \<le> m" "m \<le> 12" "1 \<le> d" "d \<le> 31"
proof -
  define M where "M = (5 * e + 2) div 153"
  note ms = month_split [OF e, folded M_def]
  have md: "m = (if M < 10 then M + 3 else M - 9)" "d = ((5 * e + 2) mod 153) div 5 + 1" 
    "astro y = (if M < 10 then Y else Y + 1) - 4800" and y: "y \<noteq> 0"
    using dt unfolding date_of_def Let_def M_def [symmetric] by (auto simp: astro_def split: if_splits)
  show "shifted y m = (Y, (5 * e + 2) div 153)"
    unfolding M_def [symmetric] shifted_def md using ms(2,3) by (cases "M < 10") simp_all
  show "(((5 * e + 2) div 153) * 153 + 2) div 5 + d = e + 1"
    unfolding M_def [symmetric] md(2) using ms(1) by (simp add: mult.commute)
  show "1 \<le> m" "m \<le> 12" "1 \<le> d" "d \<le> 31" unfolding md(1,2) using ms by simp_all
  show "y \<noteq> 0" by (rule y)
qed

text \<open>Conversely a month and a day give the day of the year back.\<close>

lemma month_join:
  fixes M d :: int
  assumes M: "0 \<le> M" "M \<le> 11" and d: "1 \<le> d" "d \<le> (if M = 11 then 29 else if M \<in> {1, 3, 6, 8} then 30 else 31)"
    and e: "e = (M * 153 + 2) div 5 + d - 1"
  shows "(5 * e + 2) div 153 = M" "((5 * e + 2) mod 153) div 5 + 1 = d" "0 \<le> e" "e \<le> 365"
    "e = 365 \<longleftrightarrow> M = 11 \<and> d = 29"
proof -
  have "M \<in> {0..11}" using M by simp
  also have "{0..11::int} = {0, 1, 2, 3, 4, 5, 6, 7, 8, 9, 10, 11}" by (simp add: simp_from_to)
  finally have M12: "M \<in> {0, 1, 2, 3, 4, 5, 6, 7, 8, 9, 10, 11}" .
  define b where "b = 5 * e + 2 - 153 * M"
  have bs: "0 \<le> b \<and> b < 153 \<and> b div 5 + 1 = d \<and> 0 \<le> e \<and> e \<le> 365 \<and> (e = 365 \<longleftrightarrow> M = 11 \<and> d = 29)"
    using M12 d unfolding b_def e by (elim insertE emptyE; simp; presburger)
  have "5 * e + 2 = 153 * M + b" by (simp add: b_def)
  then have "(5 * e + 2) div 153 = M" "(5 * e + 2) mod 153 = b" using bs by simp_all
  with bs show "(5 * e + 2) div 153 = M" "((5 * e + 2) mod 153) div 5 + 1 = d" "0 \<le> e" "e \<le> 365" "e = 365 \<longleftrightarrow> M = 11 \<and> d = 29"
    by auto
qed

lemma quarter_join:
  fixes p q e :: int
  assumes "0 \<le> e" "4 * e + 3 - (p * q) mod 4 < p"
  shows "(4 * ((p * q) div 4 + e) + 3) div p = q" "((4 * ((p * q) div 4 + e) + 3) mod p) div 4 = e"
proof -
  define b where "b = 4 * e + 3 - (p * q) mod 4"
  have b: "0 \<le> b" "b < p" "b div 4 = e" using assms by (simp_all add: b_def)
  have "4 * ((p * q) div 4 + e) + 3 = p * q + b" unfolding b_def by presburger
  then show "(4 * ((p * q) div 4 + e) + 3) div p = q" "((4 * ((p * q) div 4 + e) + 3) mod p) div 4 = e"
    using b by simp_all
qed

text \<open>The last day of a year that starts in March is there in leap years only.\<close>

lemma date_of_day:
  assumes dt: "date_of Y e = (y, m, d)" and e: "0 \<le> e" "e \<le> 365" and leap: "e = 365 \<Longrightarrow> leap y"
  shows "valid_date leap (y, m, d)"
proof -
  define M b where "M = (5 * e + 2) div 153" and "b = (5 * e + 2) mod 153"
  have Mb: "153 * M + b = 5 * e + 2" "0 \<le> b" "b < 153" unfolding M_def b_def by simp_all
  have "0 \<le> M" "M \<le> 11" using month_split [OF e] by (simp_all only: M_def)
  then have "M \<in> {0..11}" by simp
  also have "{0..11::int} = {0, 1, 2, 3, 4, 5, 6, 7, 8, 9, 10, 11}" by (simp add: simp_from_to)
  finally have M12: "M \<in> {0, 1, 2, 3, 4, 5, 6, 7, 8, 9, 10, 11}" .
  have md: "m = (if M < 10 then M + 3 else M - 9)" "d = b div 5 + 1"
    using dt unfolding date_of_def Let_def M_def [symmetric] b_def [symmetric] by simp_all
  have "d \<le> month_days (leap y) m"
  proof (cases "e = 365")
    case True
    then have M: "M = 11" using Mb by linarith
    with True Mb have "b = 144" by simp
    with M leap [OF True] show ?thesis by (simp add: md month_days_def)
  next
    case False
    with e have "e < 365" by simp
    with Mb have "M = 11 \<Longrightarrow> b div 5 \<le> 27" by linarith
    with M12 Mb show ?thesis unfolding md month_days_def by (elim insertE emptyE; simp; presburger?)
  qed
  with date_of_shifted [OF dt e] show ?thesis by (simp add: valid_date_def)
qed

subsection \<open>The Gregorian calendar\<close>

lemma gregorian_split:
  fixes n :: int
  assumes n: "0 \<le> n"
  defines "C \<equiv> (4 * n + 3) div 146097" and "n2 \<equiv> ((4 * n + 3) mod 146097) div 4"
  defines "Y0 \<equiv> (4 * n2 + 3) div 1461" and "e \<equiv> ((4 * n2 + 3) mod 1461) div 4"
  shows "(C * 146097) div 4 + (Y0 * 1461) div 4 + e = n" "0 \<le> C" "4 * n + 3 < 146097 * (C + 1)"
    "0 \<le> Y0" "Y0 \<le> 99" "0 \<le> e" "e \<le> 365" "0 \<le> n2" "n2 \<le> 36524"
    "e = 365 \<Longrightarrow> (Y0 + 1) mod 4 = 0 \<and> (Y0 = 99 \<longrightarrow> (C + 1) mod 4 = 0)"
proof -
  define r r2 where "r = (4 * n + 3) mod 146097" and "r2 = (4 * n2 + 3) mod 1461"
  have r: "146097 * C + r = 4 * n + 3" "0 \<le> r" "r < 146097" unfolding C_def r_def by simp_all
  have n2: "n2 = r div 4" by (simp add: n2_def r_def)
  then show n2b: "0 \<le> n2" "n2 \<le> 36524" using r by linarith+
  have r2: "1461 * Y0 + r2 = 4 * n2 + 3" "0 \<le> r2" "r2 < 1461" unfolding Y0_def r2_def by simp_all
  have e: "e = r2 div 4" by (simp add: e_def r2_def)
  then show "0 \<le> e" "e \<le> 365" using r2 by linarith+
  show "0 \<le> C" unfolding C_def using n by simp
  show "4 * n + 3 < 146097 * (C + 1)" using r by (simp add: algebra_simps)
  show "0 \<le> Y0" unfolding Y0_def using n2b by simp
  show "Y0 \<le> 99" using r2 n2b by linarith
  show "(C * 146097) div 4 + (Y0 * 1461) div 4 + e = n"
    using no_carry [of 146097 n, folded C_def n2_def] no_carry [of 1461 n2, folded Y0_def e_def]
    by (simp add: mult.commute)
  assume "e = 365"
  then have "r2 = 1460" using e r2 by linarith
  then have *: "1461 * (Y0 + 1) = 4 * (n2 + 1)" using r2 by simp
  then have "Y0 + 1 = 4 * (n2 + 1 - 365 * (Y0 + 1))" by simp
  then have "(Y0 + 1) mod 4 = 0" by (metis mod_mult_self1_is_0)
  moreover have "(C + 1) mod 4 = 0" if "Y0 = 99"
  proof -
    have "n2 = 36524" using * that by simp
    then have "r = 146096" using n2 r by linarith
    then have "146097 * (C + 1) = 4 * (n + 1)" using r by simp
    then have "C + 1 = 4 * (n + 1 - 36524 * (C + 1))" by simp
    then show ?thesis by (metis mod_mult_self1_is_0)
  qed
  ultimately show "(Y0 + 1) mod 4 = 0 \<and> (Y0 = 99 \<longrightarrow> (C + 1) mod 4 = 0)" by blast
qed

lemma leap_of_century:
  assumes "0 \<le> y0" "y0 \<le> (99::int)" "astro y = 100 * C + y0 + 1 - 4800"
  shows "gregorian_leap y \<longleftrightarrow> (y0 + 1) mod 4 = 0 \<and> (y0 = 99 \<longrightarrow> (C + 1) mod 4 = 0)"
proof -
  have "astro y = (y0 + 1) + (25 * C - 1200) * 4" "astro y = (y0 + 1) + (C - 48) * 100"
    "astro y = (100 * C + y0 + 1) + (- 12) * 400" using assms(3) by simp_all
  then have a: "astro y mod 4 = (y0 + 1) mod 4" "astro y mod 100 = (y0 + 1) mod 100"
    "astro y mod 400 = (100 * C + y0 + 1) mod 400" by (metis mod_mult_self1)+
  have "(y0 + 1) mod 100 = 0 \<longleftrightarrow> y0 = 99" using assms(1,2) by presburger
  moreover have "(100 * C + 99 + 1) mod 400 = 0 \<longleftrightarrow> (C + 1) mod 4 = 0" by presburger
  ultimately show ?thesis unfolding gregorian_leap_def a by auto
qed

text \<open>The date of the \<open>n\<close>-th day after 1 March 4801 B.C.\<close>

definition gregorian_date :: "int \<Rightarrow> int \<times> int \<times> int" where
  "gregorian_date n = (let C = (4 * n + 3) div 146097; n2 = ((4 * n + 3) mod 146097) div 4
     in date_of (100 * C + (4 * n2 + 3) div 1461) (((4 * n2 + 3) mod 1461) div 4))"

lemma gregorian_date_ok:
  assumes n: "0 \<le> n" and dt: "gregorian_date n = (y, m, d)"
  shows "valid_date gregorian_leap (y, m, d)" "gregorian_days y m d = n - 32044"
proof -
  define C n2 where "C = (4 * n + 3) div 146097" and "n2 = ((4 * n + 3) mod 146097) div 4"
  define Y0 e where "Y0 = (4 * n2 + 3) div 1461" and "e = ((4 * n2 + 3) mod 1461) div 4"
  note fold_defs = C_def [symmetric] n2_def [symmetric] Y0_def [symmetric] e_def [symmetric]
  note sp = gregorian_split [OF n, unfolded fold_defs]
  have dt': "date_of (100 * C + Y0) e = (y, m, d)" using dt unfolding gregorian_date_def Let_def fold_defs .
  note ds = date_of_shifted [OF dt' sp(6,7)]
  have "gregorian_leap y" if "e = 365"
  proof -
    have "(5 * e + 2) div 153 = 11" by (simp add: that)
    with dt' that have "astro y = 100 * C + Y0 + 1 - 4800" unfolding date_of_def Let_def by (auto simp: astro_def split: if_splits)
    with leap_of_century [OF sp(4,5), of y C] sp(10) [OF that] show ?thesis by blast
  qed
  then show "valid_date gregorian_leap (y, m, d)" by (rule date_of_day [OF dt' sp(6,7)])
  have "(100 * C + Y0) div 100 = C" "(100 * C + Y0) mod 100 = Y0" using sp(4,5) by simp_all
  then show "gregorian_days y m d = n - 32044"
    unfolding gregorian_days_def ds(1) prod.case using ds(2) sp(1) by simp
qed

lemma SdnToGregorian_eq:
  assumes "1 \<le> sdn" "sdn \<le> 536870000"
  shows "SdnToGregorian sdn = Some (gregorian_date (sdn + 32044))"
proof -
  define n where "n = sdn + 32044"
  define C n2 where "C = (4 * n + 3) div 146097" and "n2 = ((4 * n + 3) mod 146097) div 4"
  define Y0 e where "Y0 = (4 * n2 + 3) div 1461" and "e = ((4 * n2 + 3) mod 1461) div 4"
  note fold_defs = C_def [symmetric] n2_def [symmetric] Y0_def [symmetric] e_def [symmetric]
  have n: "0 \<le> n" "n \<le> 536902044" using assms by (simp_all add: n_def)
  note sp = gregorian_split [OF n(1), unfolded fold_defs]
  have C: "C \<le> 14700" unfolding C_def using n(2) by linarith
  have t: "(sdn + 32045) * 4 - 1 = 4 * n + 3" by (simp add: n_def)
  have "\<not> (sdn \<le> 0 \<or> sdn > (long_max - 4 * 32045) sdiv 4)"
    using assms by (simp add: long_max_def sdiv_pos)
  moreover have "chk_long (4 * n + 3) = Some (4 * n + 3)" "chk (C * 100) = Some (C * 100)"
    using n sp(2) C by (simp_all add: chk_long_eq chk_eq)
  moreover have "as_int ((4 * n + 3) sdiv 146097) = C" "((4 * n + 3) smod 146097) sdiv 4 = n2"
    using n sp(2) C by (simp_all add: sdiv_pos as_int_eq fold_defs)
  moreover have "(n2 * 4 + 3) sdiv 1461 = Y0" "((n2 * 4 + 3) smod 1461) sdiv 4 = e"
    using sp(8) by (simp_all add: sdiv_pos fold_defs mult.commute [of n2 4])
  ultimately have "SdnToGregorian sdn = (case month_day (as_int (e + 1)) of (month, day) \<Rightarrow> civil_date (as_int (C * 100 + Y0)) month day)"
    unfolding SdnToGregorian_def cal_consts t Let_def by (simp only: if_False bind.bind_lunit)
  also have "\<dots> = Some (date_of (100 * C + Y0) e)"
    using civil_date_eq [of "100 * C + Y0" e] sp C by (simp add: as_int_eq mult.commute [of C 100])
  finally show ?thesis by (simp only: gregorian_date_def Let_def n_def [symmetric] fold_defs)
qed

lemma shifted_valid:
  assumes "valid_date leap (y, m, d)" "-4800 \<le> y" and sh: "shifted y m = (Y, M)"
  shows "0 \<le> Y + 1" "0 \<le> M" "M \<le> 11" "1 \<le> d" "d \<le> (if M = 11 then 29 else if M \<in> {1, 3, 6, 8} then 30 else 31)"
    "M = 11 \<Longrightarrow> d = 29 \<Longrightarrow> leap y \<and> astro y = Y + 1 - 4800" "date_of Y ((M * 153 + 2) div 5 + d - 1) = (y, m, d)"
proof -
  have v: "y \<noteq> 0" "1 \<le> m" "m \<le> 12" "1 \<le> d" "d \<le> month_days (leap y) m" using assms(1) by (simp_all add: valid_date_def)
  have YM: "Y = (if m > 2 then astro y + 4800 else astro y + 4799)" "M = (if m > 2 then m - 3 else m + 9)"
    using sh by (auto simp: shifted_def split: if_splits)
  show "0 \<le> Y + 1" "0 \<le> M" and M: "M \<le> 11" and "1 \<le> d" using v assms(2) by (simp_all add: YM astro_def)
  show d: "d \<le> (if M = 11 then 29 else if M \<in> {1, 3, 6, 8} then 30 else 31)"
    using v by (auto simp: YM(2) month_days_def split: if_splits)
  show "leap y \<and> astro y = Y + 1 - 4800" if "M = 11" "d = 29"
    using that v by (auto simp: YM month_days_def split: if_splits)
  have "0 \<le> M" using v(2) by (simp add: YM(2))
  note j = month_join [OF this M v(4) d refl]
  show "date_of Y ((M * 153 + 2) div 5 + d - 1) = (y, m, d)"
    unfolding date_of_def Let_def j(1,2) using v(1-3) by (auto simp: YM astro_def)
qed

lemma r4: "(1461 * x) mod 4 = x mod (4::int)" "(146097 * x) mod 4 = x mod (4::int)"
proof -
  have "1461 * x = x + (365 * x) * 4" "146097 * x = x + (36524 * x) * 4" by simp_all
  then show "(1461 * x) mod 4 = x mod 4" "(146097 * x) mod 4 = x mod 4" by (metis mod_mult_self1)+
qed

lemma gregorian_days_inverse:
  assumes v: "valid_date gregorian_leap (y, m, d)" and y: "-4799 \<le> y"
  shows "gregorian_date (gregorian_days y m d + 32044) = (y, m, d)"
proof -
  obtain Y M where sh: "shifted y m = (Y, M)" by (cases "shifted y m")
  define C Y0 e where "C = Y div 100" and "Y0 = Y mod 100" and "e = (M * 153 + 2) div 5 + d - 1"
  have "-4800 \<le> y" using y by simp
  note s = shifted_valid [OF v this sh, folded e_def]
  note j = month_join [OF s(2-5) e_def]
  have Y: "Y = 100 * C + Y0" "0 \<le> Y0" "Y0 \<le> 99" by (simp_all add: C_def Y0_def)
  have last: "(Y0 + 1) mod 4 = 0 \<and> (Y0 = 99 \<longrightarrow> (C + 1) mod 4 = 0)" if "e = 365"
  proof -
    have "gregorian_leap y" "astro y = 100 * C + Y0 + 1 - 4800" using s(6) j(5) that Y(1) by auto
    with leap_of_century [OF Y(2,3), of y C] show ?thesis by blast
  qed
  define n2 where "n2 = (1461 * Y0) div 4 + e"
  have y3: "Y0 mod 4 = 3" "Y0 = 99 \<Longrightarrow> C mod 4 = 3" if "e = 365" using last [OF that] by presburger+
  have m4: "0 \<le> Y0 mod 4" "0 \<le> C mod 4" by simp_all
  have "4 * e + 3 - (1461 * Y0) mod 4 < 1461" unfolding r4 using j(3,4) y3(1) m4 by (cases "e = 365") simp_all
  note q2 = quarter_join [OF j(3) this, folded n2_def]
  have n2: "0 \<le> n2" "n2 \<le> 36524" "n2 = 36524 \<Longrightarrow> e = 365 \<and> Y0 = 99" unfolding n2_def using Y j(3,4) by linarith+
  have "4 * n2 + 3 - (146097 * C) mod 4 < 146097" unfolding r4 using n2 y3(2) m4 by (cases "n2 = 36524") simp_all
  note q1 = quarter_join [OF n2(1) this]
  have g: "gregorian_days y m d + 32044 = (146097 * C) div 4 + n2"
    unfolding gregorian_days_def sh prod.case n2_def e_def C_def Y0_def by (simp add: mult.commute)
  show ?thesis unfolding g gregorian_date_def Let_def q1 q2 Y(1) [symmetric] by (rule s(7))
qed

text \<open>The day counts advance by one with every day of the calendar.\<close>

lemma div4_step: "(1461 * (x + 1)) div 4 = (1461 * x) div 4 + (if (x + 1) mod 4 = 0 then 366 else (365::int))"
  "(146097 * (x + 1)) div 4 = (146097 * x) div 4 + (if (x + 1) mod 4 = 0 then 36525 else (36524::int))"
proof -
  have d: "1461 * x = x + (365 * x) * 4" "1461 * (x + 1) = (x + 1) + (365 * x + 365) * 4"
    "146097 * x = x + (36524 * x) * 4" "146097 * (x + 1) = (x + 1) + (36524 * x + 36524) * 4" by simp_all
  have q: "(a + b * 4) div 4 = b + a div 4" for a b :: int by simp
  have s: "(x + 1) div 4 = x div 4 + (if (x + 1) mod 4 = 0 then 1 else 0)" by presburger
  show "(1461 * (x + 1)) div 4 = (1461 * x) div 4 + (if (x + 1) mod 4 = 0 then 366 else 365)"
    unfolding d q s by simp
  show "(146097 * (x + 1)) div 4 = (146097 * x) div 4 + (if (x + 1) mod 4 = 0 then 36525 else 36524)"
    unfolding d q s by simp
qed

definition year_start :: "int \<Rightarrow> int" where
  "year_start Y = (Y div 100 * 146097) div 4 + (Y mod 100 * 1461) div 4"

lemma year_start_step:
  assumes "astro y = Y + 1 - 4800"
  shows "year_start (Y + 1) = year_start Y + (if gregorian_leap y then 366 else 365)"
proof -
  define C Y0 where "C = Y div 100" and "Y0 = Y mod 100"
  have Y: "Y = 100 * C + Y0" "0 \<le> Y0" "Y0 \<le> 99" by (simp_all add: C_def Y0_def)
  have leap: "gregorian_leap y \<longleftrightarrow> (Y0 + 1) mod 4 = 0 \<and> (Y0 = 99 \<longrightarrow> (C + 1) mod 4 = 0)"
    using assms by (intro leap_of_century Y(2,3)) (simp add: Y(1))
  have yC: "year_start (100 * c + y0) = (146097 * c) div 4 + (1461 * y0) div 4" if "0 \<le> y0" "y0 \<le> 99" for c y0
    using that by (simp add: year_start_def mult.commute)
  show ?thesis
  proof (cases "Y0 = 99")
    case True
    then have "Y + 1 = 100 * (C + 1) + 0" "Y = 100 * C + 99" using Y(1) by simp_all
    then have "year_start (Y + 1) = (146097 * (C + 1)) div 4" "year_start Y = (146097 * C) div 4 + 36159"
      using yC [of 0 "C + 1"] yC [of 99 C] by (simp_all add: add.commute)
    then show ?thesis unfolding div4_step(2) using True leap by simp
  next
    case False
    then have "Y + 1 = 100 * C + (Y0 + 1)" "Y0 + 1 \<le> 99" using Y by simp_all
    then show ?thesis using yC [of "Y0 + 1" C] yC [of Y0 C] Y False leap div4_step(1) [of Y0] by (simp add: add.assoc)
  qed
qed

lemma gregorian_days_start: "gregorian_days y m d = (case shifted y m of (Y, M) \<Rightarrow> year_start Y + (M * 153 + 2) div 5 + d - 32045)"
  by (simp add: gregorian_days_def year_start_def split: prod.split)

lemma day_count_step:
  fixes start :: "int \<Rightarrow> int"
  assumes v: "valid_date leap (y, m, d)"
    and step: "\<And>Y. astro y = Y + 1 - 4800 \<Longrightarrow> start (Y + 1) = start Y + (if leap y then 366 else 365)"
    and nd: "next_day leap (y, m, d) = (y', m', d')"
  shows "(case shifted y' m' of (Y, M) \<Rightarrow> start Y + (M * 153 + 2) div 5 + d') =
    (case shifted y m of (Y, M) \<Rightarrow> start Y + (M * 153 + 2) div 5 + d) + 1"
proof -
  have v: "y \<noteq> 0" "1 \<le> m" "m \<le> 12" "1 \<le> d" "d \<le> month_days (leap y) m" using v by (simp_all add: valid_date_def)
  have "m \<in> {1..12}" using v by simp
  also have "{1..12::int} = {1, 2, 3, 4, 5, 6, 7, 8, 9, 10, 11, 12}" by (simp add: simp_from_to)
  finally have m: "m \<in> {1, 2, 3, 4, 5, 6, 7, 8, 9, 10, 11, 12}" .
  show ?thesis
  proof (cases "d < month_days (leap y) m")
    case True
    then show ?thesis using nd by (simp add: next_day_def split: prod.split)
  next
    case False
    then have d: "d = month_days (leap y) m" using v by simp
    have n: "(y', m', d') = (if m < 12 then (y, m + 1, 1) else (if y = -1 then 1 else y + 1, 1, 1))"
      using nd False by (simp add: next_day_def)
    have "start (astro y + 4800) = start (astro y + 4799) + (if leap y then 366 else 365)"
      using step [of "astro y + 4799"] by (simp add: add.commute)
    then show ?thesis using m n v(1) unfolding d
      by (elim insertE emptyE; simp add: shifted_def month_days_def; auto simp: astro_def add.commute)
  qed
qed

lemma gregorian_next_day:
  assumes "valid_date gregorian_leap (y, m, d)" "next_day gregorian_leap (y, m, d) = (y', m', d')"
  shows "gregorian_days y' m' d' = gregorian_days y m d + 1"
  using day_count_step [where start = year_start, OF assms(1) year_start_step assms(2)] by (simp add: gregorian_days_start split: prod.splits)

lemma gregorian_epoch:
  assumes v: "valid_date gregorian_leap (y, m, d)" and sh: "shifted y m = (Y, M)" "0 \<le> Y" and late: "1 \<le> gregorian_days y m d"
  shows "y \<noteq> 0" "-4714 \<le> y" "y = -4714 \<Longrightarrow> 11 \<le> m" "y = -4714 \<Longrightarrow> m = 11 \<Longrightarrow> 25 \<le> d"
proof -
  have vd: "y \<noteq> 0" "1 \<le> m" "m \<le> 12" "d \<le> 31" using v by (auto simp: valid_date_def month_days_def split: if_splits)
  have Y: "Y = (if m > 2 then astro y + 4800 else astro y + 4799)" "M = (if m > 2 then m - 3 else m + 9)"
    using sh by (auto simp: shifted_def split: if_splits)
  have M: "0 \<le> M" "M \<le> 11" using vd by (simp_all add: Y(2))
  have gd: "gregorian_days y m d = (Y * 1461) div 4 + (M * 153 + 2) div 5 + d - 32045" if "Y \<le> 99"
    using that sh by (simp add: gregorian_days_def)
  show "y \<noteq> 0" by (rule vd)
  have Y87: "87 \<le> Y"
  proof (rule ccontr)
    assume "\<not> 87 \<le> Y"
    then have "Y * 1461 \<le> 86 * 1461" "Y \<le> 99" by simp_all
    with gd late vd M show False by linarith
  qed
  then show y: "-4714 \<le> y" by (auto simp: Y astro_def split: if_splits)
  {
    assume "y = -4714"
    then have "Y = 87" "2 < m" using Y87 by (auto simp: Y(1) astro_def split: if_splits)
    then have *: "270 \<le> ((m - 3) * 153 + 2) div 5 + d" using gd late Y(2) by simp
    define k where "k = ((m - 3) * 153 + 2) div 5"
    have "5 * k \<le> (m - 3) * 153 + 2" "239 \<le> k" using * vd(4) unfolding k_def by simp_all
    then show "11 \<le> m" by simp
    show "25 \<le> d" if "m = 11" using * that by simp
  }
qed

lemma GregorianToSdn_eq:
  assumes v: "valid_date gregorian_leap (y, m, d)" and sh: "shifted y m = (Y, M)" "0 \<le> Y" "Y \<le> 1469999"
    and late: "1 \<le> gregorian_days y m d"
  shows "GregorianToSdn y m d = Some (gregorian_days y m d)"
proof -
  note ep = gregorian_epoch [OF v sh(1,2) late]
  have vd: "1 \<le> m" "m \<le> 12" "1 \<le> d" "d \<le> 31" using v by (auto simp: valid_date_def month_days_def split: if_splits)
  have y: "y \<le> 1465200" and M: "0 \<le> M" "M \<le> 11" using sh vd by (auto simp: shifted_def astro_def split: if_splits)
  define C Y0 k where "C = Y div 100" and "Y0 = Y mod 100" and "k = (M * 153 + 2) div 5"
  have C: "0 \<le> C" "C \<le> 14699" "0 \<le> Y0" "Y0 \<le> 99" "0 \<le> k" "k \<le> 337"
    using sh(2,3) M unfolding C_def Y0_def k_def by simp_all
  have my: "march_year y m = Some (Y, M)" using march_year_eq [of y m] ep y vd sh(1) by simp
  define a b where "a = (C * 146097) div 4" and "b = (Y0 * 1461) div 4"
  have ab: "0 \<le> a" "a \<le> 536869950" "0 \<le> b" "b \<le> 36159" unfolding a_def b_def using C by linarith+
  have eqs: "Y sdiv 100 = C" "Y smod 100 = Y0" "(M * 153 + 2) sdiv 5 = k" "(C * 146097) sdiv 4 = a" "(Y0 * 1461) sdiv 4 = b"
    using sh(2) M C by (simp_all add: sdiv_pos C_def Y0_def k_def a_def b_def)
  have gd: "gregorian_days y m d = a + b + k + d - 32045"
    by (simp add: gregorian_days_def sh(1) a_def b_def k_def C_def Y0_def)
  have ck: "chk (C * 146097) = Some (C * 146097)" "chk (Y0 * 1461) = Some (Y0 * 1461)" "chk (a + b) = Some (a + b)"
    "chk (a + b + k) = Some (a + b + k)" "chk (a + b + k + d) = Some (a + b + k + d)" "chk (a + b + k + d - 32045) = Some (a + b + k + d - 32045)"
    using C ab vd by (simp_all add: chk_eq)
  have "\<not> (y = 0 \<or> y < -4714 \<or> m \<le> 0 \<or> m > 12 \<or> d \<le> 0 \<or> d > 31)" "\<not> (y = -4714 \<and> m < 11)" "\<not> (y = -4714 \<and> m = 11 \<and> d < 25)"
    using ep vd by auto
  then show ?thesis unfolding GregorianToSdn_def my gd cal_consts
    by (simp only: if_False bind.bind_lunit prod.case eqs ck)
qed

subsection \<open>The Julian calendar\<close>








subsection \<open>The French republican calendar and the days of the week\<close>







lemma next_day_valid:
  assumes "valid_date leap dt" shows "valid_date leap (next_day leap dt)"
  using assms by (auto simp: valid_date_def next_day_def month_days_def split: prod.splits if_splits)

lemma gregorian_year_bound:
  assumes dt: "gregorian_date n = (y, m, d)" and n: "0 \<le> n" "n \<le> 536902044"
  shows "\<exists>Y M. shifted y m = (Y, M) \<and> 0 \<le> Y \<and> Y \<le> 1469999"
proof -
  define C n2 where "C = (4 * n + 3) div 146097" and "n2 = ((4 * n + 3) mod 146097) div 4"
  define Y0 e where "Y0 = (4 * n2 + 3) div 1461" and "e = ((4 * n2 + 3) mod 1461) div 4"
  note fold_defs = C_def [symmetric] n2_def [symmetric] Y0_def [symmetric] e_def [symmetric]
  note sp = gregorian_split [OF n(1), unfolded fold_defs]
  have "date_of (100 * C + Y0) e = (y, m, d)" using dt unfolding gregorian_date_def Let_def fold_defs .
  from date_of_shifted(1) [OF this sp(6,7)] have "shifted y m = (100 * C + Y0, (5 * e + 2) div 153)" .
  moreover have "C \<le> 14699" unfolding C_def using n by linarith
  ultimately show ?thesis using sp(2,4,5) by (intro exI conjI) (assumption, simp_all)
qed


lemma next_day_year: "next_day leap (y, m, d) = (y', m', d') \<Longrightarrow> -4799 \<le> y \<Longrightarrow> -4799 \<le> y'"
  by (auto simp: next_day_def split: if_splits)

text \<open>
  Unlike \<open>SdnToJulian\<close>, \<open>SdnToGregorian\<close> does not test the century for the range of \<open>int\<close>:
  a day number the guard lets pass makes the product with 100 overflow.
\<close>

lemma SdnToGregorian_overflow:
  "SdnToGregorian 1000000000000 = None" "SdnToJulian 1000000000000 = Some (0, 0, 0)"
  by code_simp+

subsection \<open>Properties\<close>

text \<open>
  C27. The Gregorian conversions are inverse to each other and follow the calendar: a serial day
  number up to 536,870,000 becomes a valid date, which converts back to it, and the next number
  becomes the next day of the calendar with its leap year rule and no year 0; day 1 is 25
  November 4714 B.C., and a valid date of the range converts to the number that gives it back.
\<close>

theorem gregorian_conversions:
  assumes "1 \<le> sdn" "sdn \<le> 536869999"
  shows "(\<exists>y m d. SdnToGregorian sdn = Some (y, m, d) \<and> valid_date gregorian_leap (y, m, d) \<and>
            GregorianToSdn y m d = Some sdn \<and> SdnToGregorian (sdn + 1) = Some (next_day gregorian_leap (y, m, d))) \<and>
     SdnToGregorian 1 = Some (-4714, 11, 25) \<and>
     (valid_date gregorian_leap (y, m, d) \<and> -4714 \<le> y \<and> gregorian_days y m d = sdn \<longrightarrow>
        GregorianToSdn y m d = Some sdn \<and> SdnToGregorian sdn = Some (y, m, d))"
proof (intro conjI impI)
  obtain y m d where dt: "gregorian_date (sdn + 32044) = (y, m, d)" by (cases "gregorian_date (sdn + 32044)")
  obtain y' m' d' where nd: "next_day gregorian_leap (y, m, d) = (y', m', d')" by (cases "next_day gregorian_leap (y, m, d)")
  have n: "0 \<le> sdn + 32044" "sdn + 32044 \<le> 536902044" using assms by simp_all
  note ok = gregorian_date_ok [OF n(1) dt]
  obtain Y M where sh: "shifted y m = (Y, M)" "0 \<le> Y" "Y \<le> 1469999" using gregorian_year_bound [OF dt n] by blast
  have late: "1 \<le> gregorian_days y m d" using ok(2) assms by simp
  from next_day_year [OF nd] gregorian_epoch(2) [OF ok(1) sh(1,2) late] have y': "-4799 \<le> y'" by simp
  have "gregorian_date (sdn + 1 + 32044) = (y', m', d')"
    using gregorian_days_inverse [OF next_day_valid [OF ok(1), unfolded nd] y'] gregorian_next_day [OF ok(1) nd] ok(2)
    by (simp add: algebra_simps)
  then show "\<exists>y m d. SdnToGregorian sdn = Some (y, m, d) \<and> valid_date gregorian_leap (y, m, d) \<and>
      GregorianToSdn y m d = Some sdn \<and> SdnToGregorian (sdn + 1) = Some (next_day gregorian_leap (y, m, d))"
    using SdnToGregorian_eq [of sdn] SdnToGregorian_eq [of "sdn + 1"] dt nd ok GregorianToSdn_eq [OF ok(1) sh late] assms
    by (intro exI [of _ y] exI [of _ m] exI [of _ d] conjI) simp_all
  show "SdnToGregorian 1 = Some (-4714, 11, 25)"
    by (simp add: SdnToGregorian_eq gregorian_date_def date_of_def)
next
  assume v: "valid_date gregorian_leap (y, m, d) \<and> -4714 \<le> y \<and> gregorian_days y m d = sdn"
  then have dt: "gregorian_date (sdn + 32044) = (y, m, d)" using gregorian_days_inverse [of y m d] by simp
  then show "SdnToGregorian sdn = Some (y, m, d)" using SdnToGregorian_eq [of sdn] assms by simp
  have n: "0 \<le> sdn + 32044" "sdn + 32044 \<le> 536902044" using assms by simp_all
  obtain Y M where sh: "shifted y m = (Y, M)" "0 \<le> Y" "Y \<le> 1469999" using gregorian_year_bound [OF dt n] by blast
  with v assms show "GregorianToSdn y m d = Some sdn" using GregorianToSdn_eq [of y m d Y M] by simp
qed

theorem gregorian_conversions_witness:
  "\<exists>y m d. SdnToGregorian 2451604 = Some (y, m, d) \<and> GregorianToSdn y m d = Some 2451604 \<and>
     SdnToGregorian 2451605 = Some (next_day gregorian_leap (y, m, d))"
  using gregorian_conversions [where sdn = 2451604 and y = 1 and m = 1 and d = 1] by auto




end
