(* ===== verification/Zend_Objects_API.thy ===== *)
theory Zend_Objects_API
  imports Zend_Prelude
begin

text \<open>
  The store of objects (\<^verbatim>\<open>zend_objects_API.c\<close>): an array of buckets indexed by handle, grown by
  doubling, whose free buckets form a list threaded through the union that holds the object
  in the buckets in use. Destructors and the functions that free storage are callbacks that
  may themselves change the store; a pointer to a bucket is a pair of a block and a handle,
  and is dangling once the array has been reallocated. Memory that was never written is
  \<open>None\<close>; reading it or using a dangling pointer makes an operation \<open>None\<close>.
\<close>

subsection \<open>Buckets and the store\<close>

text \<open>The first word of the union: the object of a bucket in use, the next free handle otherwise.\<close>

datatype 'o word0 = Obj "'o option" | Next int

record ('o, 'f) zend_object_store_bucket =
  destructor_called :: bool
  valid :: bool
  apply_count :: "8 word"
  word0 :: "'o word0"
  ob_dtor :: "'f option"
  ob_free_storage :: "'f option"
  ob_clone :: "'f option"
  ob_handlers :: "nat option"
  ob_refcount :: uint
  ob_buffered :: "nat option"

datatype ('o, 'f) store_event =
    Dtor_call 'f "'o option" nat
  | Free_call 'f "'o option"
  | Unbuffer nat
  | Possible_root nat

record ('o, 'f) zend_objects_store =
  object_buckets :: "('o, 'f) zend_object_store_bucket option list option"
  os_block :: nat
  os_top :: uint
  os_size :: uint
  free_list_head :: int
  gc_active :: bool
  os_events :: "('o, 'f) store_event list"

text \<open>
  Callbacks: what a function does to the store when it is called, and whether it bails out.
  A clone function returns the new object.
\<close>

type_synonym ('o, 'f) callback = "'f \<Rightarrow> 'o option \<Rightarrow> nat \<Rightarrow> ('o, 'f) zend_objects_store \<Rightarrow> (bool \<times> ('o, 'f) zend_objects_store) option"
type_synonym ('o, 'f) clone_callback = "'f \<Rightarrow> 'o option \<Rightarrow> ('o, 'f) zend_objects_store \<Rightarrow> ('o option \<times> ('o, 'f) zend_objects_store) option"

definition log_event :: "('o, 'f) store_event \<Rightarrow> ('o, 'f) zend_objects_store \<Rightarrow> ('o, 'f) zend_objects_store" where
  "log_event e s = s\<lparr>os_events := os_events s @ [e]\<rparr>"

text \<open>A bucket by handle, and through a pointer into a block.\<close>

definition rd_bucket :: "nat \<Rightarrow> ('o, 'f) zend_objects_store \<Rightarrow> ('o, 'f) zend_object_store_bucket option" where
  "rd_bucket h s = do { bs \<leftarrow> object_buckets s; if h < length bs then bs ! h else None }"

definition wr_bucket :: "nat \<Rightarrow> (('o, 'f) zend_object_store_bucket \<Rightarrow> ('o, 'f) zend_object_store_bucket) \<Rightarrow>
    ('o, 'f) zend_objects_store \<Rightarrow> ('o, 'f) zend_objects_store option" where
  "wr_bucket h f s = do {
     bs \<leftarrow> object_buckets s;
     b \<leftarrow> rd_bucket h s;
     Some (s\<lparr>object_buckets := Some (bs[h := Some (f b)])\<rparr>) }"

definition init_bucket :: "nat \<Rightarrow> ('o, 'f) zend_object_store_bucket \<Rightarrow> ('o, 'f) zend_objects_store \<Rightarrow> ('o, 'f) zend_objects_store option" where
  "init_bucket h b s = do {
     bs \<leftarrow> object_buckets s;
     if h < length bs then Some (s\<lparr>object_buckets := Some (bs[h := Some b])\<rparr>) else None }"

definition rd_obj :: "nat \<times> nat \<Rightarrow> ('o, 'f) zend_objects_store \<Rightarrow> ('o, 'f) zend_object_store_bucket option" where
  "rd_obj = (\<lambda>(blk, h) s. if blk = os_block s then rd_bucket h s else None)"

definition wr_obj :: "nat \<times> nat \<Rightarrow> (('o, 'f) zend_object_store_bucket \<Rightarrow> ('o, 'f) zend_object_store_bucket) \<Rightarrow>
    ('o, 'f) zend_objects_store \<Rightarrow> ('o, 'f) zend_objects_store option" where
  "wr_obj = (\<lambda>(blk, h) f s. if blk = os_block s then wr_bucket h f s else None)"

fun obj_word :: "'o word0 \<Rightarrow> 'o option option" where
  "obj_word (Obj x) = Some x"
| "obj_word (Next _) = None"

fun next_word :: "'o word0 \<Rightarrow> int option" where
  "next_word (Next n) = Some n"
| "next_word (Obj _) = None"

subsection \<open>Global operations\<close>

definition zeroed_bucket :: "('o, 'f) zend_object_store_bucket" where
  "zeroed_bucket = \<lparr>destructor_called = False, valid = False, apply_count = 0, word0 = Obj None,
     ob_dtor = None, ob_free_storage = None, ob_clone = None, ob_handlers = None, ob_refcount = 0, ob_buffered = None\<rparr>"

definition zend_objects_store_init :: "uint \<Rightarrow> ('o, 'f) zend_objects_store option" where
  "zend_objects_store_init init_size =
     init_bucket 0 zeroed_bucket
       \<lparr>object_buckets = Some (replicate (unat init_size) None), os_block = 0, os_top = 1, os_size = init_size,
        free_list_head = - 1, gc_active = False, os_events = []\<rparr>"

definition zend_objects_store_destroy :: "('o, 'f) zend_objects_store \<Rightarrow> ('o, 'f) zend_objects_store" where
  "zend_objects_store_destroy s = s\<lparr>object_buckets := None\<rparr>"

definition GC_REMOVE_ZOBJ_FROM_BUFFER :: "nat \<times> nat \<Rightarrow> ('o, 'f) zend_objects_store \<Rightarrow> ('o, 'f) zend_objects_store option" where
  "GC_REMOVE_ZOBJ_FROM_BUFFER obj s = do {
     b \<leftarrow> rd_obj obj s;
     (case ob_buffered b of
        Some root \<Rightarrow> if gc_active s then Some s
                     else wr_obj obj (\<lambda>b. b\<lparr>ob_buffered := None\<rparr>) (log_event (Unbuffer root) s)
      | None \<Rightarrow> Some s) }"




fun mark_loop :: "nat \<Rightarrow> nat \<Rightarrow> ('o, 'f) zend_objects_store \<Rightarrow> ('o, 'f) zend_objects_store option" where
  "mark_loop i 0 s = Some s"
| "mark_loop i (Suc n) s = do {
     b \<leftarrow> rd_bucket i s;
     s \<leftarrow> (if valid b then wr_bucket i (\<lambda>b. b\<lparr>destructor_called := True\<rparr>) s else Some s);
     mark_loop (Suc i) n s }"

definition zend_objects_store_mark_destructed :: "('o, 'f) zend_objects_store \<Rightarrow> ('o, 'f) zend_objects_store option" where
  "zend_objects_store_mark_destructed s =
     (case object_buckets s of None \<Rightarrow> Some s | Some _ \<Rightarrow> mark_loop 1 (unat (os_top s) - 1) s)"




subsection \<open>Handles\<close>

definition take_handle :: "('o, 'f) zend_objects_store \<Rightarrow> (nat \<times> ('o, 'f) zend_objects_store) option" where
  "take_handle s =
     (if free_list_head s \<noteq> - 1 then do {
        let h = nat (free_list_head s);
        b \<leftarrow> rd_bucket h s;
        n \<leftarrow> next_word (word0 b);
        Some (h, s\<lparr>free_list_head := n\<rparr>) }
      else do {
        bs \<leftarrow> object_buckets s;
        let s = (if os_top s = os_size s
                 then (let n = push_bit 1 (os_size s)
                       in s\<lparr>os_size := n, os_block := Suc (os_block s),
                            object_buckets := Some (take (unat n) bs @ replicate (unat n - length bs) None)\<rparr>)
                 else s);
        Some (unat (os_top s), s\<lparr>os_top := os_top s + 1\<rparr>) })"

definition zend_objects_store_put ::
    "'f \<Rightarrow> 'o option \<Rightarrow> 'f option \<Rightarrow> 'f option \<Rightarrow> 'f option \<Rightarrow> ('o, 'f) zend_objects_store \<Rightarrow>
     (nat \<times> ('o, 'f) zend_objects_store) option" where
  "zend_objects_store_put default_dtor x dtor free_storage clone s = do {
     (h, s) \<leftarrow> take_handle s;
     s \<leftarrow> init_bucket h \<lparr>destructor_called = False, valid = True, apply_count = 0, word0 = Obj x,
        ob_dtor = Some (case dtor of Some d \<Rightarrow> d | None \<Rightarrow> default_dtor), ob_free_storage = free_storage,
        ob_clone = clone, ob_handlers = None, ob_refcount = 1, ob_buffered = None\<rparr> s;
     Some (h, s) }"

definition zend_objects_store_get_refcount :: "nat \<Rightarrow> ('o, 'f) zend_objects_store \<Rightarrow> uint option" where
  "zend_objects_store_get_refcount h s = do { b \<leftarrow> rd_bucket h s; Some (ob_refcount b) }"

definition zend_objects_store_add_ref_by_handle :: "nat \<Rightarrow> ('o, 'f) zend_objects_store \<Rightarrow> ('o, 'f) zend_objects_store option" where
  "zend_objects_store_add_ref_by_handle h s = wr_bucket h (\<lambda>b. b\<lparr>ob_refcount := ob_refcount b + 1\<rparr>) s"

definition ZEND_OBJECTS_STORE_ADD_TO_FREE_LIST :: "nat \<Rightarrow> ('o, 'f) zend_objects_store \<Rightarrow> ('o, 'f) zend_objects_store option" where
  "ZEND_OBJECTS_STORE_ADD_TO_FREE_LIST h s = do {
     s \<leftarrow> wr_bucket h (\<lambda>b. b\<lparr>word0 := Next (free_list_head s)\<rparr>) s;
     let s = s\<lparr>free_list_head := int h\<rparr>;
     wr_bucket h (\<lambda>b. b\<lparr>valid := False\<rparr>) s }"

text \<open>The destructor, once; the handlers are filled in for it if they are missing.\<close>

definition destroy_once :: "('o, 'f) callback \<Rightarrow> nat \<Rightarrow> nat option \<Rightarrow> ('o, 'f) zend_objects_store \<Rightarrow>
    (bool \<times> ('o, 'f) zend_objects_store) option" where
  "destroy_once call h hnd s = do {
     b \<leftarrow> rd_bucket h s;
     if destructor_called b then Some (False, s)
     else do {
       s \<leftarrow> wr_bucket h (\<lambda>b. b\<lparr>destructor_called := True\<rparr>) s;
       (case ob_dtor b of
          None \<Rightarrow> Some (False, s)
        | Some d \<Rightarrow> do {
            s \<leftarrow> (if hnd \<noteq> None \<and> ob_handlers b = None then wr_bucket h (\<lambda>b. b\<lparr>ob_handlers := hnd\<rparr>) s else Some s);
            x \<leftarrow> obj_word (word0 b);
            call d x h (log_event (Dtor_call d x h) s) }) } }"

definition release_storage :: "('o, 'f) callback \<Rightarrow> nat \<Rightarrow> nat \<times> nat \<Rightarrow> ('o, 'f) zend_objects_store \<Rightarrow>
    (bool \<times> ('o, 'f) zend_objects_store) option" where
  "release_storage fcall h obj s = do {
     s \<leftarrow> GC_REMOVE_ZOBJ_FROM_BUFFER obj s;
     b \<leftarrow> rd_obj obj s;
     (failed, s) \<leftarrow> (case ob_free_storage b of
        Some f \<Rightarrow> do { x \<leftarrow> obj_word (word0 b); fcall f x h (log_event (Free_call f x) s) }
      | None \<Rightarrow> Some (False, s));
     s \<leftarrow> ZEND_OBJECTS_STORE_ADD_TO_FREE_LIST h s;
     Some (failed, s) }"

text \<open>
  The pointer \<open>obj\<close> is computed again after the destructor, but not after the storage was freed.
  The first component of the result says whether the function bails out at its end.
\<close>

definition zend_objects_store_del_ref_by_handle_ex ::
    "('o, 'f) callback \<Rightarrow> ('o, 'f) callback \<Rightarrow> nat \<Rightarrow> nat option \<Rightarrow> ('o, 'f) zend_objects_store \<Rightarrow> (bool \<times> ('o, 'f) zend_objects_store) option" where
  "zend_objects_store_del_ref_by_handle_ex dcall fcall h hnd s =
     (case object_buckets s of None \<Rightarrow> Some (False, s)
      | Some _ \<Rightarrow> do {
          let obj = (os_block s, h);
          b \<leftarrow> rd_obj obj s;
          (obj, failure, s) \<leftarrow>
            (if valid b \<and> ob_refcount b = 1 then do {
               (failure, s) \<leftarrow> destroy_once dcall h hnd s;
               let obj = (os_block s, h);
               b \<leftarrow> rd_obj obj s;
               if ob_refcount b = 1 then do {
                 (failure', s) \<leftarrow> release_storage fcall h obj s;
                 Some (obj, failure \<or> failure', s) }
               else Some (obj, failure, s) }
             else Some (obj, False, s));
          s \<leftarrow> wr_obj obj (\<lambda>b. b\<lparr>ob_refcount := ob_refcount b - 1\<rparr>) s;
          Some (failure, s) })"

definition zend_objects_store_del_ref_by_handle ::
    "('o, 'f) callback \<Rightarrow> ('o, 'f) callback \<Rightarrow> nat \<Rightarrow> ('o, 'f) zend_objects_store \<Rightarrow> (bool \<times> ('o, 'f) zend_objects_store) option" where
  "zend_objects_store_del_ref_by_handle dcall fcall h s = zend_objects_store_del_ref_by_handle_ex dcall fcall h None s"

text \<open>The value that refers to an object: its handle, its handlers and its own reference count.\<close>

record zobject =
  z_handle :: nat
  z_handlers :: "nat option"
  z_refcount :: uint

definition zend_objects_store_add_ref :: "zobject \<Rightarrow> ('o, 'f) zend_objects_store \<Rightarrow> ('o, 'f) zend_objects_store option" where
  "zend_objects_store_add_ref z s = wr_bucket (z_handle z) (\<lambda>b. b\<lparr>ob_refcount := ob_refcount b + 1\<rparr>) s"

definition GC_ZOBJ_CHECK_POSSIBLE_ROOT :: "zobject \<Rightarrow> ('o, 'f) zend_objects_store \<Rightarrow> ('o, 'f) zend_objects_store option" where
  "GC_ZOBJ_CHECK_POSSIBLE_ROOT z s =
     (case object_buckets s of None \<Rightarrow> Some s
      | Some _ \<Rightarrow> do { b \<leftarrow> rd_bucket (z_handle z) s; Some (if valid b then log_event (Possible_root (z_handle z)) s else s) })"

definition zend_objects_store_del_ref ::
    "('o, 'f) callback \<Rightarrow> ('o, 'f) callback \<Rightarrow> zobject \<Rightarrow> ('o, 'f) zend_objects_store \<Rightarrow> (bool \<times> zobject \<times> ('o, 'f) zend_objects_store) option" where
  "zend_objects_store_del_ref dcall fcall z s = do {
     let z = z\<lparr>z_refcount := z_refcount z + 1\<rparr>;
     (failed, s) \<leftarrow> zend_objects_store_del_ref_by_handle_ex dcall fcall (z_handle z) (z_handlers z) s;
     if failed then Some (True, z, s)
     else do {
       let z = z\<lparr>z_refcount := z_refcount z - 1\<rparr>;
       s \<leftarrow> GC_ZOBJ_CHECK_POSSIBLE_ROOT z s;
       Some (False, z, s) } }"

text \<open>An object without a clone function is a fatal error, \<open>Inl\<close>.\<close>

definition zend_objects_store_clone_obj ::
    "'f \<Rightarrow> ('o, 'f) clone_callback \<Rightarrow> zobject \<Rightarrow> ('o, 'f) zend_objects_store \<Rightarrow>
     (unit + (nat \<times> nat option) \<times> ('o, 'f) zend_objects_store) option" where
  "zend_objects_store_clone_obj default_dtor call z s = do {
     let h = z_handle z;
     b \<leftarrow> rd_bucket h s;
     (case ob_clone b of None \<Rightarrow> Some (Inl ())
      | Some c \<Rightarrow> do {
          x \<leftarrow> obj_word (word0 b);
          (new_object, s) \<leftarrow> call c x s;
          b \<leftarrow> rd_bucket h s;
          (h', s) \<leftarrow> zend_objects_store_put default_dtor new_object (ob_dtor b) (ob_free_storage b) (ob_clone b) s;
          s \<leftarrow> wr_bucket h (\<lambda>b. b\<lparr>ob_handlers := z_handlers z\<rparr>) s;
          Some (Inr ((h', z_handlers z), s)) }) }"

definition zend_object_store_get_object_by_handle :: "nat \<Rightarrow> ('o, 'f) zend_objects_store \<Rightarrow> 'o option option" where
  "zend_object_store_get_object_by_handle h s = do { b \<leftarrow> rd_bucket h s; obj_word (word0 b) }"

definition zend_object_store_get_object :: "zobject \<Rightarrow> ('o, 'f) zend_objects_store \<Rightarrow> 'o option option" where
  "zend_object_store_get_object z s = do { b \<leftarrow> rd_bucket (z_handle z) s; obj_word (word0 b) }"

definition zend_object_store_set_object :: "zobject \<Rightarrow> 'o option \<Rightarrow> ('o, 'f) zend_objects_store \<Rightarrow> ('o, 'f) zend_objects_store option" where
  "zend_object_store_set_object z x s = wr_bucket (z_handle z) (\<lambda>b. b\<lparr>word0 := Obj x\<rparr>) s"

definition zend_object_store_ctor_failed :: "zobject \<Rightarrow> ('o, 'f) zend_objects_store \<Rightarrow> ('o, 'f) zend_objects_store option" where
  "zend_object_store_ctor_failed z s =
     wr_bucket (z_handle z) (\<lambda>b. b\<lparr>ob_handlers := z_handlers z, destructor_called := True\<rparr>) s"

subsection \<open>Reading back what was written\<close>

definition upd :: "nat \<Rightarrow> ('o, 'f) zend_object_store_bucket \<Rightarrow> ('o, 'f) zend_objects_store \<Rightarrow> ('o, 'f) zend_objects_store" where
  "upd h b s = s\<lparr>object_buckets := map_option (\<lambda>bs. bs[h := Some b]) (object_buckets s)\<rparr>"

lemma upd_simps [simp]:
  "os_block (upd h b s) = os_block s" "os_top (upd h b s) = os_top s" "os_size (upd h b s) = os_size s"
  "free_list_head (upd h b s) = free_list_head s" "gc_active (upd h b s) = gc_active s" "os_events (upd h b s) = os_events s"
  "object_buckets (upd h b s) = map_option (\<lambda>bs. bs[h := Some b]) (object_buckets s)"
  by (simp_all add: upd_def)

lemma wr_bucket_upd: "rd_bucket h s = Some b \<Longrightarrow> wr_bucket h f s = Some (upd h (f b) s)"
  by (auto simp: wr_bucket_def rd_bucket_def upd_def bind_eq_Some_conv split: if_splits)

lemma rd_upd: "rd_bucket h s = Some c \<Longrightarrow> rd_bucket k (upd h b s) = (if k = h then Some b else rd_bucket k s)"
  by (auto simp: rd_bucket_def bind_eq_Some_conv split: if_splits)

lemma rd_upd_range: "object_buckets s = Some bs \<Longrightarrow> h < length bs \<Longrightarrow> rd_bucket k (upd h b s) = (if k = h then Some b else rd_bucket k s)"
  by (auto simp: rd_bucket_def)

lemma rd_fields [simp]:
  "rd_bucket h (s\<lparr>free_list_head := n\<rparr>) = rd_bucket h s" "rd_bucket h (log_event e s) = rd_bucket h s"
  "rd_bucket h (s\<lparr>os_top := t\<rparr>) = rd_bucket h s"
  by (simp_all add: rd_bucket_def log_event_def)

lemma log_fields [simp]:
  "os_block (log_event e s) = os_block s" "os_top (log_event e s) = os_top s" "os_size (log_event e s) = os_size s"
  "free_list_head (log_event e s) = free_list_head s" "object_buckets (log_event e s) = object_buckets s"
  "gc_active (log_event e s) = gc_active s" "os_events (log_event e s) = os_events s @ [e]"
  by (simp_all add: log_event_def)



subsection \<open>Well-formed stores\<close>

fun free_chain :: "(nat \<Rightarrow> ('o, 'f) zend_object_store_bucket option) \<Rightarrow> int \<Rightarrow> nat list \<Rightarrow> bool" where
  "free_chain B n [] \<longleftrightarrow> n = - 1"
| "free_chain B n (h # hs) \<longleftrightarrow> n = int h \<and> (\<exists>b m. B h = Some b \<and> word0 b = Next m \<and> free_chain B m hs)"

lemma free_chain_cong: "\<forall>h \<in> set hs. B' h = B h \<Longrightarrow> free_chain B' n hs = free_chain B n hs"
  by (induction hs arbitrary: n) auto

text \<open>The handles in use or once used, and those of them that are free.\<close>

definition in_range :: "('o, 'f) zend_objects_store \<Rightarrow> nat \<Rightarrow> bool" where
  "in_range s h \<longleftrightarrow> 1 \<le> h \<and> h < unat (os_top s)"

definition free_set :: "('o, 'f) zend_objects_store \<Rightarrow> nat set" where
  "free_set s = {h. in_range s h \<and> (\<exists>b. rd_bucket h s = Some b \<and> \<not> valid b)}"

definition store_inv :: "('o, 'f) zend_objects_store \<Rightarrow> bool" where
  "store_inv s \<longleftrightarrow> (\<exists>bs. object_buckets s = Some bs \<and> length bs = unat (os_size s)) \<and>
     1 \<le> unat (os_top s) \<and> unat (os_top s) \<le> unat (os_size s) \<and>
     (\<forall>h < unat (os_top s). rd_bucket h s \<noteq> None) \<and>
     (\<exists>fl. distinct fl \<and> set fl = free_set s \<and> free_chain (\<lambda>h. rd_bucket h s) (free_list_head s) fl) \<and>
     (\<forall>h b. in_range s h \<and> rd_bucket h s = Some b \<and> valid b \<longrightarrow> (\<exists>x. word0 b = Obj x) \<and> ob_refcount b \<noteq> 0)"

text \<open>The objects a store holds, with their reference counts, by handle.\<close>

definition live :: "('o, 'f) zend_objects_store \<Rightarrow> nat \<Rightarrow> ('o option \<times> uint) option" where
  "live s h = (if in_range s h then
     (case rd_bucket h s of
        Some b \<Rightarrow> if valid b then (case word0 b of Obj x \<Rightarrow> Some (x, ob_refcount b) | Next _ \<Rightarrow> None) else None
      | None \<Rightarrow> None) else None)"

lemma liveD: "live s h = Some (x, n) \<Longrightarrow>
    in_range s h \<and> (\<exists>b. rd_bucket h s = Some b \<and> valid b \<and> word0 b = Obj x \<and> ob_refcount b = n)"
  by (auto simp: live_def split: if_splits option.splits word0.splits)

lemma live_upd:
  assumes "in_range s h" "rd_bucket h s = Some c"
  shows "valid b \<Longrightarrow> word0 b = Obj x \<Longrightarrow> live (upd h b s) = (live s)(h \<mapsto> (x, ob_refcount b))"
    "\<not> valid b \<Longrightarrow> live (upd h b s) = (live s)(h := None)"
  using assms by (auto simp: live_def rd_upd in_range_def)

lemma inv_upd_live:
  assumes inv: "store_inv s" and h: "in_range s h" "rd_bucket h s = Some c" "valid c"
    and b: "valid b" "word0 b = Obj x" "ob_refcount b \<noteq> 0"
  shows "store_inv (upd h b s)"
proof -
  note rd = rd_upd [OF h(2)]
  have fs: "free_set (upd h b s) = free_set s" using h b by (auto simp: free_set_def rd in_range_def)
  obtain fl where fl: "distinct fl" "set fl = free_set s" "free_chain (\<lambda>h. rd_bucket h s) (free_list_head s) fl"
    using inv by (auto simp: store_inv_def)
  have "h \<notin> set fl" using fl(2) h by (auto simp: free_set_def)
  then have "free_chain (\<lambda>k. rd_bucket k (upd h b s)) (free_list_head s) fl"
    using fl(3) by (subst free_chain_cong [of _ _ "\<lambda>h. rd_bucket h s"]) (auto simp: rd)
  with fl inv b fs show ?thesis unfolding store_inv_def by (auto simp: rd in_range_def)
qed

lemma inv_fields [simp]: "store_inv (log_event e s) = store_inv s" "live (log_event e s) = live s"
  by (auto simp: store_inv_def free_set_def in_range_def live_def fun_eq_iff)

lemma init_ok:
  assumes "1 \<le> n"
  shows "\<exists>s. zend_objects_store_init n = Some s \<and> store_inv s \<and> live s = Map.empty"
proof -
  have "0 < unat n" using assms by (simp add: word_le_nat_alt)
  then show ?thesis
    by (auto simp: zend_objects_store_init_def init_bucket_def store_inv_def free_set_def in_range_def live_def fun_eq_iff
        rd_bucket_def intro: exI [of _ "[]"])
qed

lemma add_ref_ok:
  assumes inv: "store_inv s" and l: "live s h = Some (x, n)" and n: "n + 1 \<noteq> 0"
  shows "\<exists>s'. zend_objects_store_add_ref_by_handle h s = Some s' \<and> store_inv s' \<and> live s' = (live s)(h \<mapsto> (x, n + 1))"
proof -
  from liveD [OF l] obtain b where b: "in_range s h" "rd_bucket h s = Some b" "valid b" "word0 b = Obj x" "ob_refcount b = n" by blast
  show ?thesis unfolding zend_objects_store_add_ref_by_handle_def wr_bucket_upd [OF b(2)]
    using inv_upd_live [OF inv b(1,2,3), of "b\<lparr>ob_refcount := ob_refcount b + 1\<rparr>" x]
      live_upd(1) [OF b(1,2), of "b\<lparr>ob_refcount := ob_refcount b + 1\<rparr>" x] b n by simp
qed

subsection \<open>Taking and returning a handle\<close>

lemma unat_top_step: "unat (t::uint) < 2 ^ 31 \<Longrightarrow> unat (t + 1) = Suc (unat t)"
  by (simp add: unat_word_ariths)

lemma unat_double: "unat (n::uint) < 2 ^ 31 \<Longrightarrow> unat (push_bit 1 n) = 2 * unat n"
  by (simp add: unat_word_ariths)

lemma put_ok:
  assumes inv: "store_inv s" and room: "unat (os_top s) < 2 ^ 31"
  shows "\<exists>h s'. zend_objects_store_put dd x d f c s = Some (h, s') \<and> store_inv s' \<and> h \<noteq> 0 \<and> live s h = None \<and>
     live s' = (live s)(h \<mapsto> (x, 1)) \<and> os_events s' = os_events s \<and>
     (if free_list_head s = - 1 then h = unat (os_top s) else int h = free_list_head s \<and> os_block s' = os_block s)"
proof -
  define nb where "nb = \<lparr>destructor_called = False, valid = True, apply_count = 0, word0 = Obj x,
        ob_dtor = Some (case d of Some d \<Rightarrow> d | None \<Rightarrow> dd), ob_free_storage = f,
        ob_clone = c, ob_handlers = None, ob_refcount = 1, ob_buffered = None\<rparr>"
  obtain bs fl where bs: "object_buckets s = Some bs" "length bs = unat (os_size s)" "1 \<le> unat (os_top s)" "unat (os_top s) \<le> unat (os_size s)"
    "\<forall>h < unat (os_top s). rd_bucket h s \<noteq> None"
    and fl: "distinct fl" "set fl = free_set s" "free_chain (\<lambda>h. rd_bucket h s) (free_list_head s) fl"
    and lv: "\<And>h b. in_range s h \<Longrightarrow> rd_bucket h s = Some b \<Longrightarrow> valid b \<Longrightarrow> (\<exists>x. word0 b = Obj x) \<and> ob_refcount b \<noteq> 0"
    using inv by (auto simp: store_inv_def)
  show ?thesis
  proof (cases fl)
    case (Cons h hs)
    with fl(3) obtain b m where b: "free_list_head s = int h" "rd_bucket h s = Some b" "word0 b = Next m"
      "free_chain (\<lambda>h. rd_bucket h s) m hs" by auto
    have "h \<in> free_set s" using fl(2) Cons by auto
    then have h: "in_range s h" "\<not> valid b" using b(2) by (simp_all add: free_set_def)
    define s' where "s' = upd h nb (s\<lparr>free_list_head := m\<rparr>)"
    have rd: "rd_bucket k s' = (if k = h then Some nb else rd_bucket k s)" for k
      unfolding s'_def using rd_upd [of h "s\<lparr>free_list_head := m\<rparr>"] b(2) by simp
    have flds: "os_top s' = os_top s" "os_size s' = os_size s" "free_list_head s' = m" "os_events s' = os_events s"
      "os_block s' = os_block s" "\<exists>bs. object_buckets s' = Some bs \<and> length bs = unat (os_size s)" using bs by (simp_all add: s'_def)
    have rng: "in_range s' = in_range s" by (simp add: in_range_def fun_eq_iff flds)
    have nbv: "valid nb" "word0 nb = Obj x" "ob_refcount nb = 1" by (simp_all add: nb_def)
    have "h < length bs" using h(1) bs by (simp add: in_range_def)
    then have put: "zend_objects_store_put dd x d f c s = Some (h, s')"
      unfolding zend_objects_store_put_def take_handle_def using b bs(1)
      by (simp add: init_bucket_def s'_def upd_def nb_def)
    have "free_set s' = free_set s - {h}" by (auto simp: free_set_def rd nbv rng)
    then have "set hs = free_set s'" using fl(1,2) Cons by auto
    moreover have "free_chain (\<lambda>k. rd_bucket k s') m hs"
      using b(4) fl(1) Cons by (subst free_chain_cong [of _ _ "\<lambda>h. rd_bucket h s"]) (auto simp: rd)
    ultimately have "store_inv s'" unfolding store_inv_def using bs fl(1) Cons lv h
      by (auto simp: rd flds rng nbv)
    moreover have "live s h = None" using h b by (simp add: live_def)
    moreover have "live s' = (live s)(h \<mapsto> (x, 1))" using h by (auto simp: live_def rd fun_eq_iff nbv rng)
    ultimately show ?thesis using put b(1) h by (auto simp: in_range_def flds)
  next
    case Nil
    then have head: "free_list_head s = - 1" and all: "free_set s = {}" using fl by auto
    define s1 where "s1 = (if os_top s = os_size s
       then s\<lparr>os_size := push_bit 1 (os_size s), os_block := Suc (os_block s),
              object_buckets := Some (take (unat (push_bit 1 (os_size s))) bs @ replicate (unat (push_bit 1 (os_size s)) - length bs) None)\<rparr>
       else s)"
    define h where "h = unat (os_top s)"
    have two: "unat (push_bit 1 (os_size s)) = 2 * unat (os_size s)" if "os_top s = os_size s"
      using unat_double [of "os_size s"] room that by simp
    have s1: "os_top s1 = os_top s" "free_list_head s1 = - 1" "os_events s1 = os_events s" using head by (simp_all add: s1_def)
    have grown: "(\<exists>bs1. object_buckets s1 = Some bs1 \<and> length bs1 = unat (os_size s1) \<and> h < length bs1) \<and>
      (\<forall>k < h. rd_bucket k s1 = rd_bucket k s)"
    proof (cases "os_top s = os_size s")
      case True
      then have "h = unat (os_size s)" by (simp add: h_def)
      moreover from True have "object_buckets s1 = Some (bs @ replicate (unat (os_size s)) None)" "unat (os_size s1) = 2 * unat (os_size s)"
        using two [OF True] bs(2) by (simp_all add: s1_def)
      ultimately show ?thesis using bs by (simp add: rd_bucket_def nth_append)
    next
      case False
      then have "unat (os_top s) \<noteq> unat (os_size s)" by (simp add: word_unat_eq_iff)
      then have "h < unat (os_size s)" using bs(4) by (simp add: h_def)
      with False bs show ?thesis by (simp add: s1_def)
    qed
    then have s15: "k < h \<Longrightarrow> rd_bucket k s1 = rd_bucket k s" for k by blast
    from grown obtain bs1 where bs1: "object_buckets s1 = Some bs1" "length bs1 = unat (os_size s1)" "h < length bs1" by blast
    define s' where "s' = upd h nb (s1\<lparr>os_top := os_top s + 1\<rparr>)"
    have rd: "rd_bucket k s' = (if k = h then Some nb else rd_bucket k s1)" for k
      unfolding s'_def using rd_upd_range [of "s1\<lparr>os_top := os_top s + 1\<rparr>" bs1 h k nb] bs1 by simp
    have top: "unat (os_top s') = Suc h" using unat_top_step [OF room] by (simp add: s'_def h_def)
    have put: "zend_objects_store_put dd x d f c s = Some (h, s')"
    proof -
      have "take_handle s = Some (h, s1\<lparr>os_top := os_top s + 1\<rparr>)"
        using head bs(1) by (simp add: take_handle_def Let_def s1_def h_def)
      then show ?thesis using bs1 by (simp add: zend_objects_store_put_def init_bucket_def s'_def upd_def nb_def)
    qed
    have rng: "in_range s' k \<longleftrightarrow> in_range s k \<or> k = h" for k using bs(3) by (auto simp: in_range_def top h_def)
    have low: "k < h \<Longrightarrow> rd_bucket k s' = rd_bucket k s" for k using s15 by (simp add: rd)
    have old: "in_range s k \<Longrightarrow> rd_bucket k s' = rd_bucket k s" for k using low by (simp add: in_range_def h_def)
    have new: "rd_bucket h s' = Some nb" "valid nb" "word0 nb = Obj x" "ob_refcount nb = 1" by (simp_all add: rd nb_def)
    have fs: "free_set s' = {}" using all by (auto simp: free_set_def rng old new)
    have flds: "free_list_head s' = - 1" "os_size s' = os_size s1" "\<exists>bs. object_buckets s' = Some bs \<and> length bs = unat (os_size s1)"
      using s1 bs1 by (simp_all add: s'_def)
    have "Suc h \<le> unat (os_size s1)" "1 \<le> Suc h" using bs1 by simp_all
    moreover have "\<forall>k < Suc h. rd_bucket k s' \<noteq> None" using bs(5) low new(1) by (auto simp: less_Suc_eq h_def)
    moreover have "\<exists>fl. distinct fl \<and> set fl = free_set s' \<and> free_chain (\<lambda>h. rd_bucket h s') (free_list_head s') fl"
      using fs flds by (intro exI [of _ "[]"]) simp
    moreover have "(\<exists>x. word0 b = Obj x) \<and> ob_refcount b \<noteq> 0" if "in_range s' k" "rd_bucket k s' = Some b" "valid b" for k b
      using that lv [of k b] new by (cases "k = h") (auto simp: rng old)
    ultimately have "store_inv s'" unfolding store_inv_def top flds(2) using flds(3) by blast
    moreover have "live s h = None" by (simp add: live_def in_range_def h_def)
    moreover have "live s' = (live s)(h \<mapsto> (x, 1))"
      by (auto simp: live_def rng old new fun_eq_iff)
    ultimately show ?thesis using put head bs(3) s1(3) by (auto simp: h_def s'_def)
  qed
qed




subsection \<open>What the callbacks have to respect\<close>












subsection \<open>Properties\<close>

text \<open>
  C29. The store is a finite map from handles to objects with reference counts: a new store is
  empty; putting an object uses a handle that is not in use and never 0, the one freed last if
  there is one, and changes nothing else; adding a reference counts one more; looking up a
  handle returns its object.
\<close>

theorem objects_store_refines_map:
  assumes inv: "store_inv s" and room: "unat (os_top s) < 2 ^ 31"
  shows "(\<exists>h s'. zend_objects_store_put dd x d f c s = Some (h, s') \<and> store_inv s' \<and> h \<noteq> 0 \<and> live s h = None \<and>
        live s' = (live s)(h \<mapsto> (x, 1)) \<and>
        (if free_list_head s = - 1 then h = unat (os_top s) else int h = free_list_head s \<and> os_block s' = os_block s)) \<and>
     (live s h = Some (y, n) \<longrightarrow> zend_object_store_get_object_by_handle h s = Some y \<and>
        zend_objects_store_get_refcount h s = Some n \<and>
        (n + 1 \<noteq> 0 \<longrightarrow> (\<exists>s'. zend_objects_store_add_ref_by_handle h s = Some s' \<and> store_inv s' \<and> live s' = (live s)(h \<mapsto> (y, n + 1))))) \<and>
     (1 \<le> k \<longrightarrow> (\<exists>s0 :: ('o, 'f) zend_objects_store. zend_objects_store_init k = Some s0 \<and> store_inv s0 \<and> live s0 = Map.empty))"
proof (intro conjI impI)
  show "\<exists>h s'. zend_objects_store_put dd x d f c s = Some (h, s') \<and> store_inv s' \<and> h \<noteq> 0 \<and> live s h = None \<and>
        live s' = (live s)(h \<mapsto> (x, 1)) \<and>
        (if free_list_head s = - 1 then h = unat (os_top s) else int h = free_list_head s \<and> os_block s' = os_block s)"
    using put_ok [OF inv room, of dd x d f c] by blast
  show "\<exists>s0 :: ('o, 'f) zend_objects_store. zend_objects_store_init k = Some s0 \<and> store_inv s0 \<and> live s0 = Map.empty" if "1 \<le> k"
    by (rule init_ok [OF that])
  assume l: "live s h = Some (y, n)"
  from liveD [OF l] show "zend_object_store_get_object_by_handle h s = Some y" "zend_objects_store_get_refcount h s = Some n"
    by (auto simp: zend_object_store_get_object_by_handle_def zend_objects_store_get_refcount_def)
  show "\<exists>s'. zend_objects_store_add_ref_by_handle h s = Some s' \<and> store_inv s' \<and> live s' = (live s)(h \<mapsto> (y, n + 1))" if "n + 1 \<noteq> 0"
    by (rule add_ref_ok [OF inv l that])
qed

text \<open>A store of two slots with one object, whose destructor is function 1 and whose storage function 2 frees.\<close>

definition store1 :: "(nat, nat) zend_objects_store" where
  "store1 = (case zend_objects_store_init 2 of Some s \<Rightarrow>
     (case zend_objects_store_put 0 (Some 7) (Some 1) (Some 2) None s of Some (_, s) \<Rightarrow> s | None \<Rightarrow> s) | None \<Rightarrow> undefined)"

lemma store1_ok: "store_inv store1" "live store1 1 = Some (Some 7, 1)" "unat (os_top store1) = 2" "free_list_head store1 = - 1"
proof -
  obtain s :: "(nat, nat) zend_objects_store" where s: "zend_objects_store_init 2 = Some s" "store_inv s" "live s = Map.empty"
    using init_ok [of 2] by auto
  have f: "unat (os_top s) = 1" "free_list_head s = - 1" using s(1) by (auto simp: zend_objects_store_init_def init_bucket_def)
  from put_ok [OF s(2), of 0 "Some 7" "Some 1" "Some 2" None] f obtain h s'
    where p: "zend_objects_store_put 0 (Some 7) (Some 1) (Some 2) None s = Some (h, s')" "store_inv s'" "live s' = (live s)(h \<mapsto> (Some 7, 1))" "h = 1"
    by auto
  then show "store_inv store1" "live store1 1 = Some (Some 7, 1)" by (simp_all add: store1_def s)
  show "unat (os_top store1) = 2" "free_list_head store1 = - 1"
    by (simp_all add: store1_def zend_objects_store_init_def init_bucket_def zend_objects_store_put_def take_handle_def)
qed

theorem objects_store_refines_map_witness:
  "\<exists>h s'. zend_objects_store_put 0 (Some 8) None None None store1 = Some (h, s') \<and> live s' = (live store1)(h \<mapsto> (Some 8, 1)) \<and> h = 2"
  using objects_store_refines_map [where s = store1 and dd = 0 and x = "Some 8" and d = None and f = None and c = None
      and h = 1 and y = "Some 7" and n = 1 and k = 1] store1_ok by fastforce



definition free_quietly :: "(nat, nat) callback" where
  "free_quietly f x h s = Some (False, s)"



text \<open>
  The function that frees storage must not make the array move: the last statement of
  \<open>zend_objects_store_del_ref_by_handle_ex\<close> writes the count through the pointer computed before
  the call. With a store that is full, freeing an object whose storage function creates another
  object writes to memory that was given back.
\<close>

definition free_and_create :: "(nat, nat) callback" where
  "free_and_create f x h s = map_option (\<lambda>(_, s). (False, s)) (zend_objects_store_put 0 (Some 9) None None None s)"

lemma del_ref_dangling:
  "zend_objects_store_del_ref_by_handle free_quietly free_and_create 1 store1 = None"
  by code_simp


subsection \<open>Shutting down\<close>

text \<open>
  During shutdown reference counts may reach 0 with the object still in the store, so less is
  kept: the buckets below \<open>top\<close> are written, and those in use hold an object.
\<close>

definition store_shape :: "('o, 'f) zend_objects_store \<Rightarrow> bool" where
  "store_shape s \<longleftrightarrow> (\<forall>h. in_range s h \<longrightarrow> (\<exists>b. rd_bucket h s = Some b \<and> (valid b \<longrightarrow> (\<exists>x. word0 b = Obj x))))"

text \<open>\<open>handled P s h\<close>: the bucket is free or has \<open>P\<close>.\<close>

definition handled :: "(('o, 'f) zend_object_store_bucket \<Rightarrow> bool) \<Rightarrow> ('o, 'f) zend_objects_store \<Rightarrow> nat \<Rightarrow> bool" where
  "handled P s h \<longleftrightarrow> (\<forall>b. rd_bucket h s = Some b \<and> valid b \<longrightarrow> P b)"






lemma log_shape [simp]: "store_shape (log_event e s) = store_shape s" "handled P (log_event e s) = handled P s"
  by (auto simp: store_shape_def handled_def in_range_def fun_eq_iff)

lemma upd_top [simp]: "os_top (upd h b s) = os_top s"
  by (simp add: upd_def)

lemma upd_block [simp]: "os_block (upd h b s) = os_block s"
  by (simp add: upd_def)








end
