(* ===== verification/Zend_Strings.thy ===== *)
theory Zend_Strings
  imports Zend_Decimal "HOL-Library.Char_ord" "HOL-Library.List_Lexorder"
begin

text \<open>
  The binary-safe string routines of \<^verbatim>\<open>zend_operators.h\<close> and \<^verbatim>\<open>zend_operators.c\<close>: searching,
  comparing with and without case, lower-casing, and the increment of a string. A buffer is the
  list of its characters, pointers into it are offsets, and reading or writing outside the
  buffer is a fault (\<open>None\<close>). Characters compare as unsigned bytes.
\<close>

subsection \<open>Buffers and the C library\<close>

definition rd_at :: "string \<Rightarrow> nat \<Rightarrow> char option" where
  "rd_at s i = (if i < length s then Some (s ! i) else None)"

definition wr_at :: "string \<Rightarrow> nat \<Rightarrow> char \<Rightarrow> string option" where
  "wr_at s i c = (if i < length s then Some (s[i := c]) else None)"

text \<open>\<^verbatim>\<open>memchr(p, c, n)\<close>: the offset of the first \<open>c\<close> among \<open>n\<close> characters from \<open>p\<close>.\<close>

fun memchr :: "string \<Rightarrow> nat \<Rightarrow> char \<Rightarrow> nat \<Rightarrow> nat option option" where
  "memchr s p c 0 = Some None"
| "memchr s p c (Suc n) = do { b \<leftarrow> rd_at s p; if b = c then Some (Some p) else memchr s (Suc p) c n }"

text \<open>\<^verbatim>\<open>memcmp\<close> of \<open>n\<close> characters; of its value the code uses the sign only.\<close>

fun memcmp :: "string \<Rightarrow> string \<Rightarrow> nat \<Rightarrow> int option" where
  "memcmp s t 0 = Some 0"
| "memcmp (a # s) (b # t) (Suc n) = (if a = b then memcmp s t n else Some (of_char a - of_char b))"
| "memcmp _ _ (Suc n) = None"

subsection \<open>Searching\<close>

text \<open>
  \<open>fin\<close> is the last offset at which the needle can start. The needle's last character is
  compared before \<^verbatim>\<open>memcmp\<close> is called.
\<close>

lemma memchr_range: "memchr s p c n = Some (Some q) \<Longrightarrow> p \<le> q \<and> q < p + n"
  by (induction s p c n rule: memchr.induct) (fastforce split: if_splits bind_splits)+

function memnstr_loop :: "string \<Rightarrow> string \<Rightarrow> nat \<Rightarrow> char \<Rightarrow> nat \<Rightarrow> nat \<Rightarrow> nat option option" where
  "memnstr_loop hay needle needle_len ne fin p =
     (if p \<le> fin then do {
        c \<leftarrow> rd_at needle 0;
        r \<leftarrow> memchr hay p c (fin - p + 1);
        (case r of None \<Rightarrow> Some None
         | Some q \<Rightarrow> do {
             e \<leftarrow> rd_at hay (q + needle_len - 1);
             if ne = e then do {
               d \<leftarrow> memcmp needle (drop q hay) (needle_len - 1);
               if d = 0 then Some (Some q) else memnstr_loop hay needle needle_len ne fin (q + 1) }
             else memnstr_loop hay needle needle_len ne fin (q + 1) }) }
      else Some None)"
  by auto
termination
  by (relation "measure (\<lambda>(hay, needle, n, ne, fin, p). Suc fin - p)") (auto simp del: memchr.simps dest!: memchr_range)

declare memnstr_loop.simps [simp del]

definition zend_memnstr :: "string \<Rightarrow> string \<Rightarrow> nat \<Rightarrow> nat \<Rightarrow> nat option option" where
  "zend_memnstr hay needle needle_len fin = do {
     ne \<leftarrow> (if needle_len = 0 then None else rd_at needle (needle_len - 1));
     if needle_len = 1 then do { c \<leftarrow> rd_at needle 0; memchr hay 0 c fin }
     else if needle_len > fin then Some None
     else memnstr_loop hay needle needle_len ne (fin - needle_len) 0 }"

text \<open>\<open>memrchr_loop s c n\<close> looks at the offsets \<open>n - 1\<close>, \<open>n - 2\<close>, down to 0.\<close>

fun memrchr_loop :: "string \<Rightarrow> char \<Rightarrow> nat \<Rightarrow> nat option option" where
  "memrchr_loop s c 0 = Some None"
| "memrchr_loop s c (Suc e) = do { b \<leftarrow> rd_at s e; if b = c then Some (Some e) else memrchr_loop s c e }"

definition zend_memrchr :: "string \<Rightarrow> int \<Rightarrow> nat \<Rightarrow> nat option option" where
  "zend_memrchr s c n = (if n = 0 then Some None else memrchr_loop s (char_of c) n)"

subsection \<open>Lower case\<close>

definition tolower_map :: "nat list" where
  "tolower_map = [
    0, 1, 2, 3, 4, 5, 6, 7, 8, 9, 10, 11, 12, 13, 14, 15,
    16, 17, 18, 19, 20, 21, 22, 23, 24, 25, 26, 27, 28, 29, 30, 31,
    32, 33, 34, 35, 36, 37, 38, 39, 40, 41, 42, 43, 44, 45, 46, 47,
    48, 49, 50, 51, 52, 53, 54, 55, 56, 57, 58, 59, 60, 61, 62, 63,
    64, 97, 98, 99, 100, 101, 102, 103, 104, 105, 106, 107, 108, 109, 110, 111,
    112, 113, 114, 115, 116, 117, 118, 119, 120, 121, 122, 91, 92, 93, 94, 95,
    96, 97, 98, 99, 100, 101, 102, 103, 104, 105, 106, 107, 108, 109, 110, 111,
    112, 113, 114, 115, 116, 117, 118, 119, 120, 121, 122, 123, 124, 125, 126, 127,
    128, 129, 130, 131, 132, 133, 134, 135, 136, 137, 138, 139, 140, 141, 142, 143,
    144, 145, 146, 147, 148, 149, 150, 151, 152, 153, 154, 155, 156, 157, 158, 159,
    160, 161, 162, 163, 164, 165, 166, 167, 168, 169, 170, 171, 172, 173, 174, 175,
    176, 177, 178, 179, 180, 181, 182, 183, 184, 185, 186, 187, 188, 189, 190, 191,
    192, 193, 194, 195, 196, 197, 198, 199, 200, 201, 202, 203, 204, 205, 206, 207,
    208, 209, 210, 211, 212, 213, 214, 215, 216, 217, 218, 219, 220, 221, 222, 223,
    224, 225, 226, 227, 228, 229, 230, 231, 232, 233, 234, 235, 236, 237, 238, 239,
    240, 241, 242, 243, 244, 245, 246, 247, 248, 249, 250, 251, 252, 253, 254, 255]"

definition zend_tolower_ascii :: "char \<Rightarrow> char" where
  "zend_tolower_ascii c = char_of (tolower_map ! of_char c)"

fun tolower_copy_loop :: "string \<Rightarrow> string \<Rightarrow> nat \<Rightarrow> nat \<Rightarrow> string option" where
  "tolower_copy_loop dest src i 0 = wr_at dest i (CHR 0x00)"
| "tolower_copy_loop dest src i (Suc n) = do {
     c \<leftarrow> rd_at src i;
     dest \<leftarrow> wr_at dest i (zend_tolower_ascii c);
     tolower_copy_loop dest src (Suc i) n }"

definition zend_str_tolower_copy :: "string \<Rightarrow> string \<Rightarrow> nat \<Rightarrow> string option" where
  "zend_str_tolower_copy dest src len = tolower_copy_loop dest src 0 len"

text \<open>The contents of a new buffer are those of the parameter \<open>mem\<close>.\<close>

definition zend_str_tolower_dup :: "(nat \<Rightarrow> char) \<Rightarrow> string \<Rightarrow> nat \<Rightarrow> string option" where
  "zend_str_tolower_dup mem src len = zend_str_tolower_copy (map mem [0..<len + 1]) src len"

fun tolower_loop :: "string \<Rightarrow> nat \<Rightarrow> nat \<Rightarrow> string option" where
  "tolower_loop s p 0 = Some s"
| "tolower_loop s p (Suc n) = do {
     c \<leftarrow> rd_at s p;
     s \<leftarrow> wr_at s p (zend_tolower_ascii c);
     tolower_loop s (Suc p) n }"

definition zend_str_tolower :: "string \<Rightarrow> nat \<Rightarrow> string option" where
  "zend_str_tolower s len = tolower_loop s 0 len"

subsection \<open>Comparing\<close>

text \<open>
  A string argument is its address with the characters from there; the routines return 0 when
  the two addresses are equal. A difference of lengths is computed as \<^verbatim>\<open>uint\<close> and read as \<^verbatim>\<open>int\<close>.
\<close>

type_synonym cstr = "nat \<times> string"

definition zend_binary_strcmp :: "cstr \<Rightarrow> uint \<Rightarrow> cstr \<Rightarrow> uint \<Rightarrow> int option" where
  "zend_binary_strcmp s1 len1 s2 len2 =
     (if fst s1 = fst s2 then Some 0
      else do {
        retval \<leftarrow> memcmp (snd s1) (snd s2) (unat (min len1 len2));
        Some (if retval = 0 then sint (len1 - len2) else retval) })"

definition zend_binary_strncmp :: "cstr \<Rightarrow> uint \<Rightarrow> cstr \<Rightarrow> uint \<Rightarrow> uint \<Rightarrow> int option" where
  "zend_binary_strncmp s1 len1 s2 len2 len =
     (if fst s1 = fst s2 then Some 0
      else do {
        retval \<leftarrow> memcmp (snd s1) (snd s2) (unat (min len (min len1 len2)));
        Some (if retval = 0 then sint (min len len1 - min len len2) else retval) })"

text \<open>
  \<^verbatim>\<open>while (len--)\<close> with an \<^verbatim>\<open>int\<close>: \<open>Some None\<close> when the loop ends, \<open>Some (Some d)\<close> when it returns.
  The case mapping is a parameter, the table above or the locale's \<^verbatim>\<open>tolower\<close>.
\<close>

fun casecmp_loop :: "(char \<Rightarrow> int) \<Rightarrow> string \<Rightarrow> string \<Rightarrow> int \<Rightarrow> int option option" where
  "casecmp_loop lower s1 s2 len =
     (if len = 0 then Some None
      else (case (s1, s2) of
              (a # s1', b # s2') \<Rightarrow> if lower a \<noteq> lower b then Some (Some (lower a - lower b)) else casecmp_loop lower s1' s2' (len - 1)
            | _ \<Rightarrow> None))"

declare casecmp_loop.simps [simp del]

definition ascii_lower :: "char \<Rightarrow> int" where
  "ascii_lower c = of_char (zend_tolower_ascii c)"

definition zend_binary_strcasecmp :: "cstr \<Rightarrow> uint \<Rightarrow> cstr \<Rightarrow> uint \<Rightarrow> int option" where
  "zend_binary_strcasecmp s1 len1 s2 len2 =
     (if fst s1 = fst s2 then Some 0
      else do {
        r \<leftarrow> casecmp_loop ascii_lower (snd s1) (snd s2) (sint (min len1 len2));
        Some (case r of Some d \<Rightarrow> d | None \<Rightarrow> sint (len1 - len2)) })"

definition zend_binary_strncasecmp :: "cstr \<Rightarrow> uint \<Rightarrow> cstr \<Rightarrow> uint \<Rightarrow> uint \<Rightarrow> int option" where
  "zend_binary_strncasecmp s1 len1 s2 len2 len =
     (if fst s1 = fst s2 then Some 0
      else do {
        r \<leftarrow> casecmp_loop ascii_lower (snd s1) (snd s2) (sint (min len (min len1 len2)));
        Some (case r of Some d \<Rightarrow> d | None \<Rightarrow> sint (min len len1 - min len len2)) })"

definition zend_binary_strcasecmp_l :: "(char \<Rightarrow> int) \<Rightarrow> cstr \<Rightarrow> uint \<Rightarrow> cstr \<Rightarrow> uint \<Rightarrow> int option" where
  "zend_binary_strcasecmp_l zend_tolower s1 len1 s2 len2 =
     (if fst s1 = fst s2 then Some 0
      else do {
        r \<leftarrow> casecmp_loop zend_tolower (snd s1) (snd s2) (sint (min len1 len2));
        Some (case r of Some d \<Rightarrow> d | None \<Rightarrow> sint (len1 - len2)) })"

definition zend_binary_strncasecmp_l :: "(char \<Rightarrow> int) \<Rightarrow> cstr \<Rightarrow> uint \<Rightarrow> cstr \<Rightarrow> uint \<Rightarrow> uint \<Rightarrow> int option" where
  "zend_binary_strncasecmp_l zend_tolower s1 len1 s2 len2 len =
     (if fst s1 = fst s2 then Some 0
      else do {
        r \<leftarrow> casecmp_loop zend_tolower (snd s1) (snd s2) (sint (min len (min len1 len2)));
        Some (case r of Some d \<Rightarrow> d | None \<Rightarrow> sint (min len len1 - min len len2)) })"

text \<open>A string value: where its characters are, the characters with the terminating NUL, the length.\<close>

record zstr =
  str_addr :: nat
  str_val :: string
  str_len :: uint
  str_interned :: bool

definition zstr_ptr :: "zstr \<Rightarrow> cstr" where
  "zstr_ptr z = (str_addr z, str_val z)"

definition zend_binary_zval_strcmp :: "zstr \<Rightarrow> zstr \<Rightarrow> int option" where
  "zend_binary_zval_strcmp s1 s2 = zend_binary_strcmp (zstr_ptr s1) (str_len s1) (zstr_ptr s2) (str_len s2)"

text \<open>The third argument is a \<^verbatim>\<open>long\<close>, cut to \<^verbatim>\<open>uint\<close>.\<close>

definition zend_binary_zval_strncmp :: "zstr \<Rightarrow> zstr \<Rightarrow> 64 word \<Rightarrow> int option" where
  "zend_binary_zval_strncmp s1 s2 n = zend_binary_strncmp (zstr_ptr s1) (str_len s1) (zstr_ptr s2) (str_len s2) (ucast n)"

definition zend_binary_zval_strcasecmp :: "(char \<Rightarrow> int) \<Rightarrow> zstr \<Rightarrow> zstr \<Rightarrow> int option" where
  "zend_binary_zval_strcasecmp lower s1 s2 = zend_binary_strcasecmp_l lower (zstr_ptr s1) (str_len s1) (zstr_ptr s2) (str_len s2)"

definition zend_binary_zval_strncasecmp :: "(char \<Rightarrow> int) \<Rightarrow> zstr \<Rightarrow> zstr \<Rightarrow> 64 word \<Rightarrow> int option" where
  "zend_binary_zval_strncasecmp lower s1 s2 n =
     zend_binary_strncasecmp_l lower (zstr_ptr s1) (str_len s1) (zstr_ptr s2) (str_len s2) (ucast n)"

subsection \<open>Incrementing a string\<close>

datatype char_case = LOWER_CASE | UPPER_CASE | NUMERIC

text \<open>
  One character: its new value, whether it carries, and its class; \<open>None\<close> where the code breaks
  out of the loop.
\<close>

definition increment_char :: "char \<Rightarrow> (char \<times> bool \<times> char_case) option" where
  "increment_char ch =
     (let n = of_char ch :: nat in
      if 97 \<le> n \<and> n \<le> 122 then Some (if n = 122 then (CHR ''a'', True, LOWER_CASE) else (char_of (n + 1), False, LOWER_CASE))
      else if 65 \<le> n \<and> n \<le> 90 then Some (if n = 90 then (CHR ''A'', True, UPPER_CASE) else (char_of (n + 1), False, UPPER_CASE))
      else if 48 \<le> n \<and> n \<le> 57 then Some (if n = 57 then (CHR ''0'', True, NUMERIC) else (char_of (n + 1), False, NUMERIC))
      else None)"

text \<open>
  The loop from position \<open>n - 1\<close> down to 0; the result is the buffer, the carry and the class of
  the last character changed. The initial class 0 of the code is \<open>None\<close>.
\<close>

fun increment_loop :: "nat \<Rightarrow> string \<Rightarrow> bool \<Rightarrow> char_case option \<Rightarrow> (string \<times> bool \<times> char_case option) option" where
  "increment_loop 0 s carry lst = Some (s, carry, lst)"
| "increment_loop (Suc pos) s carry lst = do {
     ch \<leftarrow> rd_at s pos;
     (case increment_char ch of
        None \<Rightarrow> Some (s, False, lst)
      | Some (c, carry, l) \<Rightarrow> do {
          s \<leftarrow> wr_at s pos c;
          if carry then increment_loop pos s carry (Some l) else Some (s, carry, Some l) }) }"

fun first_char :: "char_case \<Rightarrow> char" where
  "first_char NUMERIC = CHR ''1''"
| "first_char UPPER_CASE = CHR ''A''"
| "first_char LOWER_CASE = CHR ''a''"

text \<open>
  \<open>fresh\<close> is the address a new buffer gets. The byte \<open>t[0]\<close> of the longer buffer is only written
  when a class is known, and is a fault otherwise.
\<close>

definition increment_string :: "nat \<Rightarrow> zstr \<Rightarrow> zstr option" where
  "increment_string fresh str =
     (if str_len str = 0 then Some \<lparr>str_addr = fresh, str_val = ''1'' @ [CHR 0x00], str_len = 1, str_interned = False\<rparr>
      else do {
        let str = (if str_interned str
                   then str\<lparr>str_addr := fresh, str_val := take (unat (str_len str)) (str_val str) @ [CHR 0x00], str_interned := False\<rparr>
                   else str);
        (s, carry, lst) \<leftarrow> increment_loop (unat (str_len str)) (str_val str) False None;
        if carry then do {
          l \<leftarrow> lst;
          if unat (str_len str) \<le> length s
          then Some \<lparr>str_addr = fresh, str_val = first_char l # take (unat (str_len str)) s @ [CHR 0x00],
                     str_len = str_len str + 1, str_interned = False\<rparr>
          else None }
        else Some (str\<lparr>str_val := s\<rparr>) })"

subsection \<open>Search results\<close>

lemma rd_at_lt [simp]: "i < length s \<Longrightarrow> rd_at s i = Some (s ! i)"
  by (simp add: rd_at_def)

lemma wr_at_lt [simp]: "i < length s \<Longrightarrow> wr_at s i c = Some (s[i := c])"
  by (simp add: wr_at_def)

lemma upt_find_Cons: "p < m \<Longrightarrow> List.find P [p..<m] = (if P p then Some p else List.find P [Suc p..<m])"
  by (simp add: upt_conv_Cons)

lemma find_skip:
  assumes "p \<le> q" "q \<le> m" "\<forall>i. p \<le> i \<and> i < q \<longrightarrow> \<not> P i"
  shows "List.find P [p..<m] = List.find P [q..<m]"
  using assms by (induction "q - p" arbitrary: p) (auto simp: upt_find_Cons)

lemma find_upt_Some: "List.find P [p..<m] = Some q \<Longrightarrow> p \<le> q \<and> q < m \<and> P q \<and> (\<forall>i. p \<le> i \<and> i < q \<longrightarrow> \<not> P i)"
  by (auto simp: find_Some_iff) (metis add_diff_inverse_nat leD less_diff_conv2 nth_upt add.commute diff_less_mono less_trans)

lemma find_upt_None: "List.find P [p..<m] = None \<longleftrightarrow> (\<forall>i. p \<le> i \<and> i < m \<longrightarrow> \<not> P i)"
  by (auto simp: find_None_iff)

lemma memchr_spec: "p + n \<le> length s \<Longrightarrow> memchr s p c n = Some (List.find (\<lambda>i. s ! i = c) [p..<p + n])"
  by (induction s p c n rule: memchr.induct) (simp_all add: upt_find_Cons del: upt_Suc)

lemma of_char_int_less: "(of_char a :: int) < of_char b \<longleftrightarrow> a < b"
proof -
  have "(of_char c :: int) = int (of_char c)" for c :: char by (cases c) simp
  then show ?thesis by (simp add: less_char_def)
qed

lemma memcmp_spec:
  "n \<le> length s \<Longrightarrow> n \<le> length t \<Longrightarrow>
   \<exists>d. memcmp s t n = Some d \<and> (d = 0 \<longleftrightarrow> take n s = take n t) \<and> (d < 0 \<longleftrightarrow> take n s < take n t)"
  by (induction s t n rule: memcmp.induct) (auto simp: of_char_int_less of_char_eq_iff)

text \<open>Where the first \<open>n\<close> characters of the needle occur.\<close>

definition occurs_at :: "string \<Rightarrow> string \<Rightarrow> nat \<Rightarrow> nat \<Rightarrow> bool" where
  "occurs_at hay needle n i \<longleftrightarrow> take n (drop i hay) = take n needle"

lemma occurs_at_split:
  assumes "Suc n \<le> length needle" "i + Suc n \<le> length hay"
  shows "occurs_at hay needle (Suc n) i \<longleftrightarrow> needle ! n = hay ! (i + n) \<and> take n needle = take n (drop i hay)"
  using assms by (auto simp: occurs_at_def take_Suc_conv_app_nth)

lemma occurs_at_head:
  assumes "0 < n" "n \<le> length needle" "i + n \<le> length hay" "occurs_at hay needle n i"
  shows "hay ! i = needle ! 0"
proof -
  have "take n (drop i hay) ! 0 = take n needle ! 0" using assms(4) by (simp add: occurs_at_def)
  with assms show ?thesis by simp
qed

lemma memnstr_loop_spec:
  assumes "0 < n" "n \<le> length needle" "fin + n \<le> length hay" and ne: "needle ! (n - 1) = ne"
  shows "memnstr_loop hay needle n ne fin p = Some (List.find (occurs_at hay needle n) [p..<Suc fin])"
proof (induction "Suc fin - p" arbitrary: p rule: less_induct)
  case less
  show ?case
  proof (cases "p \<le> fin")
    case False
    then show ?thesis by (simp add: memnstr_loop.simps)
  next
    case True
    have z: "rd_at needle 0 = Some (needle ! 0)" using assms by (intro rd_at_lt) linarith
    let ?r = "List.find (\<lambda>i. hay ! i = needle ! 0) [p..<Suc fin]"
    have m: "memchr hay p (needle ! 0) (fin - p + 1) = Some ?r"
      using memchr_spec [of p "fin - p + 1" hay "needle ! 0"] True assms by (simp del: upt_Suc memchr.simps)
    have hd: "hay ! i = needle ! 0" if "i < Suc fin" "occurs_at hay needle n i" for i
      using occurs_at_head [OF assms(1,2) _ that(2)] that(1) assms by simp
    show ?thesis
    proof (cases ?r)
      case None
      then have "List.find (occurs_at hay needle n) [p..<Suc fin] = None"
        using hd unfolding find_upt_None by blast
      with None m True assms z show ?thesis by (simp add: memnstr_loop.simps del: upt_Suc memchr.simps)
    next
      case (Some q)
      note q = find_upt_Some [OF Some]
      then have skip: "List.find (occurs_at hay needle n) [p..<Suc fin] = List.find (occurs_at hay needle n) [q..<Suc fin]"
        using hd by (intro find_skip) (auto dest: less_trans)
      have len: "n - 1 \<le> length needle" "n - 1 \<le> length (drop q hay)" using q assms by auto
      obtain d where d: "memcmp needle (drop q hay) (n - 1) = Some d" "d = 0 \<longleftrightarrow> take (n - 1) needle = take (n - 1) (drop q hay)"
        using memcmp_spec [of "n - 1" needle "drop q hay"] q len by auto
      have occ: "occurs_at hay needle n q \<longleftrightarrow> ne = hay ! (q + n - 1) \<and> d = 0"
        using occurs_at_split [of "n - 1" needle q hay] q assms d(2) by (cases n) auto
      have dec: "Suc fin - (q + 1) < Suc fin - p" using q True by auto
      have rec: "memnstr_loop hay needle n ne fin (q + 1) = Some (List.find (occurs_at hay needle n) [Suc q..<Suc fin])"
        using less [OF dec] by (simp del: upt_Suc)
      have e: "rd_at hay (q + n - 1) = Some (hay ! (q + n - 1))" using q assms by (intro rd_at_lt) linarith
      show ?thesis unfolding skip
        using True m Some d(1) occ rec q e z assms
        by (subst memnstr_loop.simps) (auto simp: upt_find_Cons simp del: upt_Suc memchr.simps)
    qed
  qed
qed

definition find_last :: "(nat \<Rightarrow> bool) \<Rightarrow> nat \<Rightarrow> nat option" where
  "find_last P n = List.find P (rev [0..<n])"

lemma memrchr_loop_spec: "n \<le> length s \<Longrightarrow> memrchr_loop s c n = Some (find_last (\<lambda>i. s ! i = c) n)"
  by (induction n) (simp_all add: find_last_def)

subsection \<open>Lower-casing\<close>

lemma tolower_table: "tolower_map = map (\<lambda>n. if 65 \<le> n \<and> n \<le> 90 then n + 32 else n) [0..<256]"
  unfolding tolower_map_def
  by (simp add: upt_conv_Cons [of 0] upt_conv_Cons [of "Suc 0"] flip: numeral_2_eq_2)

lemma zend_tolower_ascii_eq:
  "zend_tolower_ascii c = (if 65 \<le> (of_char c :: nat) \<and> of_char c \<le> (90::nat) then char_of (of_char c + 32 :: nat) else c)"
proof -
  have "(of_char c :: nat) < 256" by simp
  then show ?thesis by (auto simp: zend_tolower_ascii_def tolower_table simp del: upt_Suc)
qed

lemma tolower_copy_spec:
  "i + n \<le> length src \<Longrightarrow> i + n < length dest \<Longrightarrow>
   tolower_copy_loop dest src i n =
     Some (take i dest @ map zend_tolower_ascii (take n (drop i src)) @ CHR 0x00 # drop (i + n + 1) dest)"
proof (induction n arbitrary: dest i)
  case 0
  then show ?case by (simp add: upd_conv_take_nth_drop)
next
  case (Suc n)
  have d: "drop i src = src ! i # drop (Suc i) src" using Suc.prems by (simp add: Cons_nth_drop_Suc)
  have "take (Suc i) (dest[i := zend_tolower_ascii (src ! i)]) = take i dest @ [zend_tolower_ascii (src ! i)]"
    using Suc.prems by (simp add: take_Suc_conv_app_nth)
  with Suc d show ?case by simp
qed

lemma tolower_loop_spec:
  "i + n \<le> length s \<Longrightarrow> tolower_loop s i n = Some (take i s @ map zend_tolower_ascii (take n (drop i s)) @ drop (i + n) s)"
proof (induction n arbitrary: s i)
  case (Suc n)
  have d: "drop i s = s ! i # drop (Suc i) s" using Suc.prems by (simp add: Cons_nth_drop_Suc)
  have "take (Suc i) (s[i := zend_tolower_ascii (s ! i)]) = take i s @ [zend_tolower_ascii (s ! i)]"
    using Suc.prems by (simp add: take_Suc_conv_app_nth)
  with Suc d show ?case by simp
qed simp

subsection \<open>Comparison results\<close>

text \<open>The sign of a comparison of \<open>xs\<close> with \<open>ys\<close>.\<close>

definition orders :: "int \<Rightarrow> 'a::linorder list \<Rightarrow> 'a list \<Rightarrow> bool" where
  "orders d xs ys \<longleftrightarrow> (d = 0 \<longleftrightarrow> xs = ys) \<and> (d < 0 \<longleftrightarrow> xs < ys)"

lemma take_less_min:
  fixes s t :: "'a::linorder list"
  assumes "take (min m n) s < take (min m n) t"
  shows "take m s < take n t"
  using assms
proof (induction s arbitrary: t m n)
  case Nil
  then show ?case by (cases t; cases m; cases n) auto
next
  case (Cons a s)
  then show ?case by (cases t; cases m; cases n) (auto simp: min_def split: if_splits)
qed

lemma take_less_take:
  fixes t :: "'a::linorder list"
  shows "m < n \<Longrightarrow> n \<le> length t \<Longrightarrow> take m t < take n t"
proof (induction t arbitrary: m n)
  case (Cons a t)
  then show ?case by (cases m; cases n) auto
qed simp

lemma orders_min:
  fixes s t :: "'a::linorder list"
  assumes o: "orders d (take (min m n) s) (take (min m n) t)" and l: "m \<le> length s" "n \<le> length t"
  shows "orders (if d = 0 then int m - int n else d) (take m s) (take n t)"
proof (cases "d = 0")
  case True
  with o have eq: "take (min m n) s = take (min m n) t" by (simp add: orders_def)
  consider "m < n" | "n < m" | "m = n" by linarith
  then show ?thesis
  proof cases
    case 1
    with eq take_less_take [OF 1 l(2)] True show ?thesis by (auto simp: orders_def)
  next
    case 2
    with eq have "take n s = take n t" by simp
    with take_less_take [OF 2 l(1)] True 2 show ?thesis by (auto simp: orders_def)
  next
    case 3
    with eq True show ?thesis by (simp add: orders_def)
  qed
next
  case False
  with o consider "take (min m n) s < take (min m n) t" "d < 0" | "take (min n m) t < take (min n m) s" "0 < d"
    by (auto simp: orders_def min.commute neq_iff)
  then show ?thesis
    by cases (use False in \<open>auto simp: orders_def dest!: take_less_min\<close>)
qed

lemma orders_map_Cons:
  "orders d (f a # xs) (f b # ys) \<longleftrightarrow> (if f a = f b then orders d xs ys else (d \<noteq> 0 \<and> (d < 0 \<longleftrightarrow> f a < f b)))"
  by (auto simp: orders_def)

lemma casecmp_loop_spec:
  "n \<le> length s1 \<Longrightarrow> n \<le> length s2 \<Longrightarrow>
   \<exists>r. casecmp_loop lower s1 s2 (int n) = Some r \<and>
     orders (case r of None \<Rightarrow> 0 | Some d \<Rightarrow> d) (map lower (take n s1)) (map lower (take n s2)) \<and> r \<noteq> Some 0"
proof (induction n arbitrary: s1 s2)
  case 0
  then show ?case by (simp add: casecmp_loop.simps orders_def)
next
  case (Suc n)
  then obtain a s1' b s2' where s: "s1 = a # s1'" "s2 = b # s2'" "n \<le> length s1'" "n \<le> length s2'"
    by (cases s1; cases s2) auto
  from Suc.IH [OF s(3,4)] show ?case
    by (subst casecmp_loop.simps) (auto simp: s orders_map_Cons)
qed

lemma sint_diff_lengths:
  fixes x y :: uint
  assumes "x < 2 ^ 31" "y < 2 ^ 31"
  shows "sint (x - y) = int (unat x) - int (unat y)"
proof -
  have b: "uint x < 2 ^ 31" "uint y < 2 ^ 31" using assms by (simp_all add: word_less_def)
  have "sint (x - y) = signed_take_bit 31 (take_bit 32 (uint x - uint y))"
    by (simp add: sint_uint uint_word_ariths take_bit_eq_mod)
  also have "\<dots> = signed_take_bit 31 (uint x - uint y)" by (simp add: signed_take_bit_take_bit)
  also have "\<dots> = uint x - uint y"
    using b uint_ge_0 [of x] uint_ge_0 [of y] by (intro signed_take_bit_int_eq_self) linarith+
  finally show ?thesis by simp
qed

lemma unat_min: "unat (min x y :: uint) = min (unat x) (unat y)"
  by (simp add: min_def word_le_nat_alt)

lemma strcmp_ok:
  assumes "unat len1 \<le> length s1" "unat len2 \<le> length s2" "len1 < 2 ^ 31" "len2 < 2 ^ 31" "a \<noteq> b"
  shows "\<exists>d. zend_binary_strcmp (a, s1) len1 (b, s2) len2 = Some d \<and> orders d (take (unat len1) s1) (take (unat len2) s2)"
proof -
  have "min (unat len1) (unat len2) \<le> length s1" "min (unat len1) (unat len2) \<le> length s2" using assms by simp_all
  from memcmp_spec [OF this] obtain d where d: "memcmp s1 s2 (min (unat len1) (unat len2)) = Some d"
    "orders d (take (min (unat len1) (unat len2)) s1) (take (min (unat len1) (unat len2)) s2)" by (auto simp: orders_def)
  from orders_min [OF d(2) assms(1,2)] d(1) assms(3-5) show ?thesis
    by (auto simp: zend_binary_strcmp_def unat_min sint_diff_lengths)
qed

lemma strcasecmp_ok:
  assumes "unat len1 \<le> length s1" "unat len2 \<le> length s2" "len1 < 2 ^ 31" "len2 < 2 ^ 31" "a \<noteq> b"
  shows "\<exists>d. zend_binary_strcasecmp_l lower (a, s1) len1 (b, s2) len2 = Some d \<and>
    orders d (map lower (take (unat len1) s1)) (map lower (take (unat len2) s2))"
proof -
  let ?n = "min (unat len1) (unat len2)"
  have "?n \<le> length s1" "?n \<le> length s2" using assms by simp_all
  from casecmp_loop_spec [OF this, of lower] obtain r where r: "casecmp_loop lower s1 s2 (int ?n) = Some r" "r \<noteq> Some 0"
    "orders (case r of None \<Rightarrow> 0 | Some d \<Rightarrow> d) (take ?n (map lower s1)) (take ?n (map lower s2))" by (auto simp: take_map)
  have i: "sint (min len1 len2) = int ?n"
    using sint_diff_lengths [of "min len1 len2" 0] assms(3,4) unfolding unat_min by (simp add: min_less_iff_disj)
  from orders_min [OF r(3), of] r(1,2) i assms show ?thesis
    by (cases r) (auto simp: zend_binary_strcasecmp_l_def sint_diff_lengths take_map)
qed

lemma strncmp_is_strcmp: "zend_binary_strncmp s1 len1 s2 len2 len = zend_binary_strcmp s1 (min len len1) s2 (min len len2)"
  by (simp add: zend_binary_strncmp_def zend_binary_strcmp_def min.assoc min.left_commute)

lemma strncasecmp_is_strcasecmp:
  "zend_binary_strncasecmp_l lower s1 len1 s2 len2 len = zend_binary_strcasecmp_l lower s1 (min len len1) s2 (min len len2)"
  by (simp add: zend_binary_strncasecmp_l_def zend_binary_strcasecmp_l_def min.assoc min.left_commute)

lemma casecmp_ascii:
  "zend_binary_strcasecmp = zend_binary_strcasecmp_l ascii_lower" "zend_binary_strncasecmp = zend_binary_strncasecmp_l ascii_lower"
  by (intro ext, simp add: zend_binary_strcasecmp_def zend_binary_strcasecmp_l_def zend_binary_strncasecmp_def zend_binary_strncasecmp_l_def)+

lemma find_append_None: "List.find P ys = None \<Longrightarrow> List.find P (xs @ ys) = List.find P xs"
  by (induction xs) auto

lemma find_upt_extend:
  "m \<le> n \<Longrightarrow> \<forall>i. m \<le> i \<and> i < n \<longrightarrow> \<not> P i \<Longrightarrow> List.find P [0..<m] = List.find P [0..<n]"
proof (induction n)
  case (Suc n)
  then show ?case
    by (cases "m = Suc n") (auto simp: find_append_None)
qed simp

subsection \<open>Properties of searching and comparing\<close>

text \<open>
  C34. Searching. \<open>zend_memnstr\<close>, which skips from one occurrence of the needle's first character
  to the next and compares the last character first, finds the first occurrence of the needle in
  the haystack, without reading outside either; \<open>zend_memrchr\<close> finds the last occurrence of a
  character. Both loops end.
\<close>

theorem string_search_exact:
  assumes "0 < n" "n \<le> length needle" "fin \<le> length hay"
  shows "zend_memnstr hay needle n fin = Some (List.find (\<lambda>i. i + n \<le> fin \<and> take n (drop i hay) = take n needle) [0..<fin]) \<and>
     zend_memrchr hay c fin = Some (List.find (\<lambda>i. hay ! i = char_of c) (rev [0..<fin]))"
proof (intro conjI)
  let ?P = "\<lambda>i. i + n \<le> fin \<and> take n (drop i hay) = take n needle"
  have ne: "rd_at needle (n - 1) = Some (needle ! (n - 1))" "rd_at needle 0 = Some (needle ! 0)"
    using assms by (intro rd_at_lt; linarith)+
  consider "n = 1" | "n > fin" "n \<noteq> 1" | "n \<le> fin" "n \<noteq> 1" by linarith
  then show "zend_memnstr hay needle n fin = Some (List.find ?P [0..<fin])"
  proof cases
    case 1
    have "List.find (\<lambda>i. hay ! i = needle ! 0) [0..<fin] = List.find ?P [0..<fin]"
      using assms 1 by (intro find_cong) (auto simp: take_Suc_conv_app_nth Suc_le_eq)
    with memchr_spec [of 0 fin hay "needle ! 0"] assms ne 1 show ?thesis by (simp add: zend_memnstr_def)
  next
    case 2
    then have "List.find ?P [0..<fin] = None" by (auto simp: find_upt_None)
    with 2 ne assms show ?thesis by (simp add: zend_memnstr_def)
  next
    case 3
    have "List.find (occurs_at hay needle n) [0..<Suc (fin - n)] = List.find ?P [0..<Suc (fin - n)]"
      using 3 assms by (intro find_cong) (auto simp: occurs_at_def)
    also have "\<dots> = List.find ?P [0..<fin]"
      using 3 assms by (intro find_upt_extend) auto
    finally show ?thesis
      using memnstr_loop_spec [OF assms(1,2) _ refl, of "fin - n" hay 0] 3 assms ne by (simp add: zend_memnstr_def del: upt_Suc)
  qed
  show "zend_memrchr hay c fin = Some (List.find (\<lambda>i. hay ! i = char_of c) (rev [0..<fin]))"
    using memrchr_loop_spec [of fin hay "char_of c"] assms by (cases fin) (simp_all add: zend_memrchr_def find_last_def)
qed

theorem string_search_exact_witness:
  "zend_memnstr ''abcabd'' ''abd'' 3 6 = Some (List.find (\<lambda>i. i + 3 \<le> 6 \<and> take 3 (drop i ''abcabd'') = take 3 ''abd'') [0..<6]) \<and>
   zend_memrchr ''abcabd'' 98 6 = Some (List.find (\<lambda>i. ''abcabd'' ! i = char_of (98 :: int)) (rev [0..<6]))"
  using string_search_exact [of 3 "''abd''" 6 "''abcabd''" 98] by simp

text \<open>
  C35. Comparing. On strings shorter than 2 GB that do not start at the same address the routines
  return 0 exactly for equal strings and a negative number exactly when the first string comes
  first in the lexicographic order of unsigned characters, of their lower-case forms in the
  routines that ignore case; the ones with a length limit compare the strings cut at the limit.
  A prefix comes first.
\<close>

theorem string_compare_lexicographic:
  assumes "unat len1 \<le> length s1" "unat len2 \<le> length s2" "len1 < 2 ^ 31" "len2 < 2 ^ 31" "a \<noteq> b"
  shows "(\<exists>d. zend_binary_strcmp (a, s1) len1 (b, s2) len2 = Some d \<and> orders d (take (unat len1) s1) (take (unat len2) s2)) \<and>
     (\<exists>d. zend_binary_strncmp (a, s1) len1 (b, s2) len2 len = Some d \<and>
        orders d (take (min (unat len) (unat len1)) s1) (take (min (unat len) (unat len2)) s2)) \<and>
     (\<exists>d. zend_binary_strcasecmp (a, s1) len1 (b, s2) len2 = Some d \<and>
        orders d (map ascii_lower (take (unat len1) s1)) (map ascii_lower (take (unat len2) s2))) \<and>
     (\<exists>d. zend_binary_strncasecmp (a, s1) len1 (b, s2) len2 len = Some d \<and>
        orders d (map ascii_lower (take (min (unat len) (unat len1)) s1)) (map ascii_lower (take (min (unat len) (unat len2)) s2))) \<and>
     (\<exists>d. zend_binary_strcasecmp_l lower (a, s1) len1 (b, s2) len2 = Some d \<and>
        orders d (map lower (take (unat len1) s1)) (map lower (take (unat len2) s2)))"
proof -
  have m: "unat (min len len1) \<le> length s1" "unat (min len len2) \<le> length s2" "min len len1 < 2 ^ 31" "min len len2 < 2 ^ 31"
    using assms by (auto simp: unat_min min_less_iff_disj)
  show ?thesis
    unfolding strncmp_is_strcmp casecmp_ascii strncasecmp_is_strcasecmp unat_min [symmetric]
    by (intro conjI strcmp_ok strcasecmp_ok assms m)
qed

theorem string_compare_lexicographic_witness:
  "(\<exists>d. zend_binary_strcmp (1, ''ab'') 2 (2, ''aBc'') 3 = Some d \<and> orders d ''ab'' ''aBc'') \<and>
   (\<exists>d. zend_binary_strcasecmp (1, ''ab'') 2 (2, ''aBc'') 3 = Some d \<and> orders d (map ascii_lower ''ab'') (map ascii_lower ''aBc''))"
  using string_compare_lexicographic [of 2 "''ab''" 3 "''aBc''" 1 2 1 ascii_lower] by simp

subsection \<open>The increment as an odometer\<close>

text \<open>
  A run of letters and digits is a number with one radix per position, given by the class of
  the character there.
\<close>

definition char_class :: "char \<Rightarrow> char_case option" where
  "char_class c = (let n = of_char c :: nat in
     if 97 \<le> n \<and> n \<le> 122 then Some LOWER_CASE else if 65 \<le> n \<and> n \<le> 90 then Some UPPER_CASE
     else if 48 \<le> n \<and> n \<le> 57 then Some NUMERIC else None)"

fun zero_char :: "char_case \<Rightarrow> char" where
  "zero_char NUMERIC = CHR ''0''"
| "zero_char UPPER_CASE = CHR ''A''"
| "zero_char LOWER_CASE = CHR ''a''"

fun radix :: "char_case \<Rightarrow> nat" where
  "radix NUMERIC = 10"
| "radix UPPER_CASE = 26"
| "radix LOWER_CASE = 26"

definition class_of :: "char \<Rightarrow> char_case" where
  "class_of c = the (char_class c)"

definition place :: "char \<Rightarrow> nat" where
  "place c = of_char c - of_char (zero_char (class_of c))"

fun odo_value :: "string \<Rightarrow> nat" where
  "odo_value [] = 0"
| "odo_value (c # cs) = place c * prod_list (map (radix \<circ> class_of) cs) + odo_value cs"

definition odo_size :: "string \<Rightarrow> nat" where
  "odo_size cs = prod_list (map (radix \<circ> class_of) cs)"

definition alnum :: "char \<Rightarrow> bool" where
  "alnum c \<longleftrightarrow> char_class c \<noteq> None"

lemma increment_char_None: "increment_char c = None \<longleftrightarrow> \<not> alnum c"
  by (simp add: increment_char_def alnum_def char_class_def Let_def)

lemma of_char_of_nat: "n < 256 \<Longrightarrow> of_char (char_of n :: char) = (n :: nat)"
  by (simp add: of_char_of)

lemma increment_char_alnum:
  assumes "alnum c"
  shows "increment_char c = Some (if place c + 1 = radix (class_of c) then (zero_char (class_of c), True, class_of c)
                                  else (char_of (of_char c + 1 :: nat), False, class_of c))"
  using assms
  by (auto simp: increment_char_def alnum_def char_class_def class_of_def place_def Let_def split: if_splits)

lemma next_char:
  assumes "alnum c" "place c + 1 \<noteq> radix (class_of c)"
  shows "char_class (char_of (of_char c + 1 :: nat)) = char_class c" "place (char_of (of_char c + 1 :: nat)) = place c + 1"
  using assms
  by (auto simp: alnum_def char_class_def class_of_def place_def Let_def of_char_of_nat split: if_splits)

lemma zero_char_class: "char_class (zero_char k) = Some k" "place (zero_char k) = 0"
  by (cases k; simp add: char_class_def place_def class_of_def)+

lemma place_less: "alnum c \<Longrightarrow> place c < radix (class_of c)"
  by (auto simp: alnum_def char_class_def class_of_def place_def Let_def split: if_splits)

lemma odo_value_less: "\<forall>c \<in> set cs. alnum c \<Longrightarrow> odo_value cs < odo_size cs"
proof (induction cs)
  case (Cons c cs)
  let ?p = "odo_size cs"
  have "odo_value (c # cs) < (place c + 1) * ?p" using Cons by (simp add: odo_size_def)
  also have "\<dots> \<le> radix (class_of c) * ?p" using place_less [of c] Cons.prems by (intro mult_right_mono) auto
  finally show ?case by (simp add: odo_size_def)
qed (simp add: odo_size_def)

definition zeros :: "string \<Rightarrow> string" where
  "zeros v = map (zero_char \<circ> class_of) v"

lemma odo_snoc: "odo_value (cs @ [c]) = odo_value cs * radix (class_of c) + place c" "odo_size (cs @ [c]) = odo_size cs * radix (class_of c)"
  by (induction cs) (simp_all add: odo_size_def algebra_simps)

lemma odo_carry:
  assumes "V < S" "p < r"
  shows "V * r + p + 1 = S * r \<longleftrightarrow> p + 1 = r \<and> V + 1 = (S :: nat)"
proof
  assume eq: "V * r + p + 1 = S * r"
  obtain k where k: "S = V + 1 + k" using assms(1) by (metis add.commute add.left_commute less_imp_add_positive Suc_eq_plus1 less_eqE Suc_leI)
  have "V * r + p + 1 = V * r + r + k * r" using eq k by (simp add: algebra_simps)
  then have "p + 1 = r + k * r" by linarith
  with assms(2) have "k * r = 0" "p + 1 = r" by linarith+
  with k assms(2) show "p + 1 = r \<and> V + 1 = S" by simp
qed (metis add.assoc distrib_right mult_1)

lemma increment_loop_step:
  "increment_loop (Suc (length x)) (x @ c # w) carry lst =
     (case increment_char c of None \<Rightarrow> Some (x @ c # w, False, lst)
      | Some (c', carry', l) \<Rightarrow> if carry' then increment_loop (length x) (x @ c' # w) True (Some l) else Some (x @ c' # w, False, Some l))"
  by (auto split: option.split)

lemma increment_loop_carry:
  assumes "\<forall>c \<in> set v. alnum c" "odo_value v + 1 = odo_size v"
  shows "increment_loop (length (u @ v)) (u @ v @ w) carry lst =
     increment_loop (length u) (u @ zeros v @ w) (if v = [] then carry else True) (if v = [] then lst else Some (class_of (hd v)))"
  using assms
proof (induction v arbitrary: w carry lst rule: rev_induct)
  case (snoc c v)
  have "odo_value v < odo_size v" "place c < radix (class_of c)" using snoc.prems odo_value_less place_less by auto
  with snoc.prems(2) have c: "place c + 1 = radix (class_of c)" "odo_value v + 1 = odo_size v"
    using odo_carry [of "odo_value v" "odo_size v" "place c" "radix (class_of c)"] by (auto simp: odo_snoc)
  with snoc increment_loop_step [of "u @ v" c w] increment_char_alnum [of c] show ?case
    by (auto simp: zeros_def hd_append)
qed (simp add: zeros_def)

lemma increment_loop_digit:
  assumes "\<forall>c \<in> set v. alnum c" "odo_value v + 1 < odo_size v"
  shows "\<exists>v' l. increment_loop (length (u @ v)) (u @ v @ w) carry lst = Some (u @ v' @ w, False, Some l) \<and>
     map char_class v' = map char_class v \<and> odo_value v' = odo_value v + 1"
  using assms
proof (induction v arbitrary: w carry lst rule: rev_induct)
  case Nil
  then show ?case by (simp add: odo_size_def)
next
  case (snoc c v)
  note step = increment_loop_step [of "u @ v" c w carry lst] increment_char_alnum [of c]
  show ?case
  proof (cases "place c + 1 = radix (class_of c)")
    case False
    let ?c = "char_of (of_char c + 1 :: nat) :: char"
    have n: "char_class ?c = char_class c" "place ?c = place c + 1" using next_char [of c] False snoc.prems by auto
    with step False snoc.prems show ?thesis
      by (intro exI [of _ "v @ [?c]"]) (auto simp: odo_snoc class_of_def)
  next
    case True
    then have "odo_value v + 1 < odo_size v"
      using snoc.prems(2) mult_less_cancel2 [of "odo_value v + 1" "radix (class_of c)" "odo_size v"] by (simp add: odo_snoc algebra_simps)
    with snoc.IH [of "zero_char (class_of c) # w" True "Some (class_of c)"] snoc.prems obtain v' l
      where v': "increment_loop (length (u @ v)) (u @ v @ zero_char (class_of c) # w) True (Some (class_of c)) = Some (u @ v' @ zero_char (class_of c) # w, False, Some l)"
        "map char_class v' = map char_class v" "odo_value v' = odo_value v + 1" by auto
    have k: "char_class (zero_char (class_of c)) = char_class c" "class_of (zero_char (class_of c)) = class_of c" "place (zero_char (class_of c)) = 0"
      using snoc.prems zero_char_class [of "class_of c"] by (auto simp: class_of_def alnum_def)
    with True v' step snoc.prems show ?thesis
      by (intro exI [of _ "v' @ [zero_char (class_of c)]"]) (auto simp: odo_snoc algebra_simps)
  qed
qed

lemma increment_loop_stop:
  assumes "u \<noteq> []" "\<not> alnum (last u)"
  shows "increment_loop (length u) (u @ w) carry lst = Some (u @ w, False, lst)"
proof -
  obtain x c where u: "u = x @ [c]" using assms(1) by (metis append_butlast_last_id)
  with assms increment_loop_step [of x c w carry lst] show ?thesis by (simp add: increment_char_None [symmetric])
qed

text \<open>
  C33. Incrementing a string. The trailing run of letters and digits is incremented as a number
  whose positions have the radix of their class; every character keeps its class. A run that is
  full becomes all zeros, and only when it is the whole string does it grow by a leading \<open>1\<close>,
  \<open>A\<close> or \<open>a\<close>. The empty string becomes \<open>1\<close>. An interned string is copied first.
\<close>

theorem string_increment:
  assumes z: "str_val z = u @ v @ [CHR 0x00]" "unat (str_len z) = length (u @ v)" "length (u @ v) < 2 ^ 31 - 1"
    and v: "\<forall>c \<in> set v. alnum c" and u: "u = [] \<or> \<not> alnum (last u)"
  shows "\<exists>z' r. increment_string fresh z = Some z' \<and> str_val z' = r @ [CHR 0x00] \<and> unat (str_len z') = length r \<and>
     (str_interned z \<longrightarrow> str_addr z' = fresh) \<and> \<not> str_interned z' \<and>
     (if u @ v = [] then r = ''1''
      else if odo_value v + 1 < odo_size v
           then \<exists>v'. r = u @ v' \<and> map char_class v' = map char_class v \<and> odo_value v' = odo_value v + 1
      else r = (if u = [] then [first_char (class_of (hd v))] else []) @ u @ zeros v)"
proof (cases "u @ v = []")
  case True
  with z(2) have "str_len z = 0" by (simp add: unat_eq_0)
  with True show ?thesis by (simp add: increment_string_def)
next
  case False
  have ne: "str_len z \<noteq> 0" using z(2) False by (metis length_0_conv unat_0)
  let ?z = "if str_interned z then z\<lparr>str_addr := fresh, str_val := u @ v @ [CHR 0x00], str_interned := False\<rparr> else z"
  have copy: "(if str_interned z then z\<lparr>str_addr := fresh, str_val := take (unat (str_len z)) (str_val z) @ [CHR 0x00], str_interned := False\<rparr> else z) = ?z"
    using z by simp
  have zs: "str_val ?z = u @ v @ [CHR 0x00]" "str_len ?z = str_len z" "\<not> str_interned ?z" "str_interned z \<longrightarrow> str_addr ?z = fresh"
    using z by simp_all
  note inc = increment_string_def [of fresh z, unfolded copy Let_def]
  consider "odo_value v + 1 < odo_size v" | "odo_value v + 1 = odo_size v" "u \<noteq> []" | "odo_value v + 1 = odo_size v" "u = []"
    using odo_value_less [OF v] by linarith
  then show ?thesis
  proof cases
    case 1
    from increment_loop_digit [OF v 1, of u "[CHR 0x00]" False None] obtain v' l
      where v': "increment_loop (length (u @ v)) (u @ v @ [CHR 0x00]) False None = Some (u @ v' @ [CHR 0x00], False, Some l)"
        "map char_class v' = map char_class v" "odo_value v' = odo_value v + 1" by blast
    moreover have "length v' = length v" using v'(2) by (metis length_map)
    ultimately show ?thesis using 1 zs z(2) ne False
      by (intro exI [of _ "?z\<lparr>str_val := u @ v' @ [CHR 0x00]\<rparr>"] exI [of _ "u @ v'"]) (auto simp: inc)
  next
    case 2
    with increment_loop_carry [OF v 2(1), of u "[CHR 0x00]" False None] increment_loop_stop [of u] u
    have "increment_loop (length (u @ v)) (u @ v @ [CHR 0x00]) False None =
        Some (u @ zeros v @ [CHR 0x00], False, if v = [] then None else Some (class_of (hd v)))" by simp
    with 2 zs z(2) ne show ?thesis
      by (intro exI [of _ "?z\<lparr>str_val := u @ zeros v @ [CHR 0x00]\<rparr>"] exI [of _ "u @ zeros v"]) (simp add: inc zeros_def)
  next
    case 3
    with False increment_loop_carry [OF v 3(1), of "[]" "[CHR 0x00]" False None]
    have l: "increment_loop (length (u @ v)) (u @ v @ [CHR 0x00]) False None = Some (zeros v @ [CHR 0x00], True, Some (class_of (hd v)))" by simp
    have len: "unat (str_len z + 1) = length v + 1" using z(2,3) 3 by (subst unat_Suc_uint) auto
    with 3 l zs z(2) ne False show ?thesis
      by (auto simp: inc zeros_def)
  qed
qed

theorem string_increment_witness:
  "\<exists>z' r. increment_string 9 \<lparr>str_addr = 4, str_val = ''Zz9'' @ [CHR 0x00], str_len = 3, str_interned = True\<rparr> = Some z' \<and>
     str_val z' = r @ [CHR 0x00] \<and> r = ''AAa0'' \<and> str_addr z' = 9"
  using string_increment [of "\<lparr>str_addr = 4, str_val = ''Zz9'' @ [CHR 0x00], str_len = 3, str_interned = True\<rparr>" "[]" "''Zz9''" 9]
  by (auto simp: alnum_def char_class_def odo_size_def place_def class_of_def zeros_def)

end
