(* ===== verification/Zend_Numeric.thy ===== *)
theory Zend_Numeric
  imports Zend_Strings
begin

text \<open>
  Numeric strings (\<^verbatim>\<open>is_numeric_string_ex\<close> of \<^verbatim>\<open>zend_operators.h\<close>) and the increment and decrement
  of a value that use it. A string is a buffer with its terminating NUL. Doubles are an abstract
  type: \<open>zend_strtod\<close> and \<open>zend_hex_strtod\<close> are parameters that return the number and the offset
  where they stopped.
\<close>

subsection \<open>Characters and the C library\<close>

definition long_min_digits :: string where
  "long_min_digits = ''9223372036854775808''"

definition ZEND_IS_XDIGIT :: "char \<Rightarrow> bool" where
  "ZEND_IS_XDIGIT c \<longleftrightarrow> (let n = of_char c :: nat in (65 \<le> n \<and> n \<le> 70) \<or> (97 \<le> n \<and> n \<le> 102))"

definition is_space :: "char \<Rightarrow> bool" where
  "is_space c \<longleftrightarrow> c \<in> {CHR '' '', CHR 0x09, CHR 0x0A, CHR 0x0D, CHR 0x0B, CHR 0x0C}"

definition is_sign :: "char \<Rightarrow> bool" where
  "is_sign c \<longleftrightarrow> c = CHR ''-'' \<or> c = CHR ''+''"

text \<open>\<^verbatim>\<open>strcmp\<close> of NUL-terminated strings.\<close>

fun strcmp :: "string \<Rightarrow> string \<Rightarrow> int option" where
  "strcmp (a # s) (b # t) = (if a \<noteq> b then Some (of_char a - of_char b) else if a = CHR 0x00 then Some 0 else strcmp s t)"
| "strcmp _ _ = None"

text \<open>
  \<^verbatim>\<open>strtol(str, NULL, base)\<close> for the bases 10 and 16: white space, a sign, \<^verbatim>\<open>0x\<close> before a
  hexadecimal digit, then digits; a value outside \<^verbatim>\<open>long\<close> is cut to its bounds.
\<close>

definition hex_val :: "char \<Rightarrow> nat" where
  "hex_val c = (let n = of_char c :: nat in if n \<le> 57 then n - 48 else if n \<le> 70 then n - 55 else n - 87)"

definition base_digit :: "nat \<Rightarrow> char \<Rightarrow> bool" where
  "base_digit b c \<longleftrightarrow> is_digit c \<or> (b = 16 \<and> ZEND_IS_XDIGIT c)"

definition base_value :: "nat \<Rightarrow> string \<Rightarrow> nat" where
  "base_value b ds = foldl (\<lambda>a c. a * b + hex_val c) 0 ds"

definition skip_prefix :: "nat \<Rightarrow> string \<Rightarrow> string" where
  "skip_prefix b s = (case s of c0 # x # c # cs \<Rightarrow>
     if b = 16 \<and> c0 = CHR ''0'' \<and> (x = CHR ''x'' \<or> x = CHR ''X'') \<and> base_digit 16 c then c # cs else s | _ \<Rightarrow> s)"

definition strtol :: "string \<Rightarrow> nat \<Rightarrow> int" where
  "strtol s b =
     (let t = dropWhile is_space s;
          neg = (t \<noteq> [] \<and> hd t = CHR ''-'');
          u = (if t \<noteq> [] \<and> is_sign (hd t) then tl t else t);
          v = int (base_value b (takeWhile (base_digit b) (skip_prefix b u)))
      in max (- (2 ^ 63)) (min (2 ^ 63 - 1) (if neg then - v else v)))"

subsection \<open>Numeric strings\<close>

datatype num_type = NOT_NUMERIC | IS_LONG | IS_DOUBLE

text \<open>
  What a call returns and writes: \<open>None\<close> where nothing is written through the pointer. The flag
  says whether the notice on a non well formed value was raised.
\<close>

record 'd num_result =
  nr_type :: num_type
  nr_lval :: "int option"
  nr_dval :: "'d option"
  nr_oflow :: "int option"
  nr_notice :: bool

definition num_result0 :: "num_type \<Rightarrow> 'd num_result" where
  "num_result0 t = \<lparr>nr_type = t, nr_lval = None, nr_dval = None, nr_oflow = None, nr_notice = False\<rparr>"

text \<open>The two loops that skip white space and leading zeros.\<close>

function skip_while :: "(char \<Rightarrow> bool) \<Rightarrow> string \<Rightarrow> nat \<Rightarrow> nat option" where
  "skip_while P s p = (case rd_at s p of None \<Rightarrow> None | Some c \<Rightarrow> if P c then skip_while P s (p + 1) else Some p)"
  by auto
termination
  by (relation "measure (\<lambda>(P, s, p). length s - p)") (auto simp: rd_at_def split: if_splits)

declare skip_while.simps [simp del]

text \<open>
  The body of the digit loop on one character: go on, leave the loop at an offset, or take the
  number for a double. A sign after an exponent character moves the offset to the sign, also
  when no digit follows it.
\<close>

datatype digit_action = Digit | Stop nat | To_double nat

definition scan_digit :: "string \<Rightarrow> nat \<Rightarrow> int \<Rightarrow> nat \<Rightarrow> digit_action option" where
  "scan_digit s base dp_or_e ptr = do {
     c \<leftarrow> rd_at s ptr;
     if is_digit c \<or> (base = 16 \<and> ZEND_IS_XDIGIT c) then Some Digit
     else if base = 10 \<and> c = CHR ''.'' \<and> dp_or_e < 1 then Some (To_double ptr)
     else if base = 10 \<and> (c = CHR ''e'' \<or> c = CHR ''E'') \<and> dp_or_e < 2 then do {
       e \<leftarrow> rd_at s (ptr + 1);
       let p = (if is_sign e then ptr + 1 else ptr);
       d \<leftarrow> rd_at s (p + 1);
       Some (if is_digit d then To_double p else Stop p) }
     else Some (Stop ptr) }"

text \<open>
  The loop, with the jump back into it from \<^verbatim>\<open>process_double\<close>. It ends by leaving the loop
  (offset, digits, whether a double was seen), or in \<^verbatim>\<open>process_double\<close> with a conversion to be
  done, or there with nothing more to check.
\<close>

datatype digits_end = Left_loop nat nat bool | Convert | Checked nat

function check_digits :: "string \<Rightarrow> nat \<Rightarrow> bool \<Rightarrow> int \<Rightarrow> nat \<Rightarrow> nat \<Rightarrow> int \<Rightarrow> bool \<Rightarrow> digits_end option" where
  "check_digits s base dval allow_errors ptr digits dp_or_e dbl =
     (case scan_digit s base dp_or_e ptr of
        None \<Rightarrow> None
      | Some Digit \<Rightarrow>
          if int digits + 1 \<ge> MAX_LENGTH_OF_LONG \<and> (dval \<or> allow_errors = 1) then Some (Left_loop (ptr + 1) (digits + 1) dbl)
          else check_digits s base dval allow_errors (ptr + 1) (digits + 1) dp_or_e dbl
      | Some (Stop p) \<Rightarrow> Some (Left_loop p digits dbl)
      | Some (To_double p) \<Rightarrow>
          if dval then Some Convert
          else if allow_errors \<noteq> 1
          then (case rd_at s p of None \<Rightarrow> None
                | Some c \<Rightarrow> check_digits s base dval allow_errors (p + 1) digits (if c = CHR ''.'' then 1 else 2) True)
          else Some (Checked p))"
  by auto
termination
  by (relation "measure (\<lambda>(s, base, dval, ae, ptr, digits, dp, dbl). length s - ptr)")
    (auto simp: scan_digit_def rd_at_def Let_def split: if_splits bind_splits)

declare check_digits.simps [simp del]

text \<open>The end of the function: the whole string must be used up, and a \<^verbatim>\<open>long\<close> must be in range.\<close>

definition finish_number ::
    "(string \<Rightarrow> nat \<Rightarrow> 'd \<times> nat) \<Rightarrow> string \<Rightarrow> nat \<Rightarrow> int \<Rightarrow> bool \<Rightarrow> bool \<Rightarrow> int \<Rightarrow> bool \<Rightarrow> nat \<Rightarrow>
     num_type \<Rightarrow> nat \<Rightarrow> nat \<Rightarrow> 'd option \<Rightarrow> int option \<Rightarrow> 'd num_result option" where
  "finish_number zend_strtod s str len lval dval allow_errors oflow_info base type digits ptr local_dval oflow =
     (if int ptr \<noteq> int str + len \<and> allow_errors = 0 then Some ((num_result0 NOT_NUMERIC)\<lparr>nr_oflow := oflow\<rparr>)
      else do {
        let notice = (int ptr \<noteq> int str + len \<and> allow_errors = - 1);
        if type = IS_LONG then do {
          sgn \<leftarrow> rd_at s str;
          cmp \<leftarrow> (if int digits = MAX_LENGTH_OF_LONG - 1 then strcmp (drop (ptr - digits) s) (long_min_digits @ [CHR 0x00]) else Some (- 1));
          if \<not> (cmp < 0 \<or> (cmp = 0 \<and> sgn = CHR ''-''))
          then Some \<lparr>nr_type = IS_DOUBLE, nr_lval = None, nr_dval = (if dval then Some (fst (zend_strtod s str)) else None),
                 nr_oflow = (if oflow_info then Some (if sgn = CHR ''-'' then - 1 else 1) else None), nr_notice = notice\<rparr>
          else Some \<lparr>nr_type = IS_LONG, nr_lval = (if lval then Some (strtol (drop str s) base) else None), nr_dval = None,
                 nr_oflow = oflow, nr_notice = notice\<rparr> }
        else Some \<lparr>nr_type = IS_DOUBLE, nr_lval = None, nr_dval = (if dval then local_dval else None), nr_oflow = oflow,
               nr_notice = notice\<rparr> })"

text \<open>
  The label \<^verbatim>\<open>process_double\<close> when it does not jump back into the loop: the conversion, if there is
  a place for its result.
\<close>

definition process_double ::
    "(string \<Rightarrow> nat \<Rightarrow> 'd \<times> nat) \<Rightarrow> string \<Rightarrow> nat \<Rightarrow> int \<Rightarrow> bool \<Rightarrow> bool \<Rightarrow> int \<Rightarrow> bool \<Rightarrow> nat \<Rightarrow> int option \<Rightarrow> 'd num_result option" where
  "process_double zend_strtod s str len lval dval allow_errors oflow_info ptr oflow =
     (let r = zend_strtod s str
      in finish_number zend_strtod s str len lval dval allow_errors oflow_info 10 IS_DOUBLE 0
           (if dval then snd r else ptr) (if dval then Some (fst r) else None) oflow)"

text \<open>After the digit loop. \<open>c0\<close> is the first character after the white space.\<close>

definition after_digits ::
    "(string \<Rightarrow> nat \<Rightarrow> 'd \<times> nat) \<Rightarrow> (string \<Rightarrow> nat \<Rightarrow> 'd \<times> nat) \<Rightarrow> string \<Rightarrow> nat \<Rightarrow> int \<Rightarrow> bool \<Rightarrow> bool \<Rightarrow> int \<Rightarrow> bool \<Rightarrow>
     char \<Rightarrow> nat \<Rightarrow> int option \<Rightarrow> digits_end \<Rightarrow> 'd num_result option" where
  "after_digits zend_strtod zend_hex_strtod s str len lval dval allow_errors oflow_info c0 base oflow r =
     (case r of
        Convert \<Rightarrow> process_double zend_strtod s str len lval dval allow_errors oflow_info 0 oflow
      | Checked p \<Rightarrow> process_double zend_strtod s str len lval dval allow_errors oflow_info p oflow
      | Left_loop p digits dbl \<Rightarrow>
          if base = 10 then
            (if int digits \<ge> MAX_LENGTH_OF_LONG
             then process_double zend_strtod s str len lval dval allow_errors oflow_info p
                    (if oflow_info then Some (if c0 = CHR ''-'' then - 1 else 1) else None)
             else finish_number zend_strtod s str len lval dval allow_errors oflow_info 10
                    (if dbl then IS_DOUBLE else IS_LONG) digits p None oflow)
          else do {
            h \<leftarrow> (if digits = 16 then rd_at s (p - digits) else Some (CHR ''0''));
            if \<not> (digits < 16 \<or> (digits = 16 \<and> h \<le> CHR ''7''))
            then (let r = zend_hex_strtod s str
                  in finish_number zend_strtod s str len lval dval allow_errors oflow_info 16 IS_DOUBLE digits
                       (if dval then snd r else p) (if dval then Some (fst r) else None) (if oflow_info then Some 1 else None))
            else finish_number zend_strtod s str len lval dval allow_errors oflow_info 16 IS_LONG digits p None oflow })"

text \<open>\<open>lval\<close>, \<open>dval\<close> and \<open>oflow_info\<close> say whether the pointers are not \<open>NULL\<close>.\<close>

definition is_numeric_string_ex ::
    "(string \<Rightarrow> nat \<Rightarrow> 'd \<times> nat) \<Rightarrow> (string \<Rightarrow> nat \<Rightarrow> 'd \<times> nat) \<Rightarrow> string \<Rightarrow> int \<Rightarrow> bool \<Rightarrow> bool \<Rightarrow> int \<Rightarrow> bool \<Rightarrow>
     'd num_result option" where
  "is_numeric_string_ex zend_strtod zend_hex_strtod s len lval dval allow_errors oflow_info =
     (if len = 0 then Some (num_result0 NOT_NUMERIC)
      else do {
        let oflow = (if oflow_info then Some 0 else None);
        str \<leftarrow> skip_while is_space s 0;
        let len = len - int str;
        c0 \<leftarrow> rd_at s str;
        let ptr = (if is_sign c0 then str + 1 else str);
        c \<leftarrow> rd_at s ptr;
        if is_digit c then do {
          x \<leftarrow> (if len > 2 \<and> c0 = CHR ''0'' then rd_at s (str + 1) else Some (CHR 0x00));
          let base = (if x = CHR ''x'' \<or> x = CHR ''X'' then 16 else 10);
          ptr \<leftarrow> skip_while (\<lambda>c. c = CHR ''0'') s (if base = 16 then ptr + 2 else ptr);
          r \<leftarrow> check_digits s base dval allow_errors ptr 0 0 False;
          after_digits zend_strtod zend_hex_strtod s str len lval dval allow_errors oflow_info c0 base oflow r }
        else if c = CHR ''.'' then do {
          d \<leftarrow> rd_at s (ptr + 1);
          if is_digit d
          then if dval \<or> allow_errors = 1
               then process_double zend_strtod s str len lval dval allow_errors oflow_info ptr oflow
               else do { r \<leftarrow> check_digits s 10 dval allow_errors (ptr + 1) 0 1 True;
                         after_digits zend_strtod zend_hex_strtod s str len lval dval allow_errors oflow_info c0 10 oflow r }
          else Some ((num_result0 NOT_NUMERIC)\<lparr>nr_oflow := oflow\<rparr>) }
        else Some ((num_result0 NOT_NUMERIC)\<lparr>nr_oflow := oflow\<rparr>) })"


subsection \<open>Scanning\<close>


lemma rd_at_append2: "n = length us \<Longrightarrow> rd_at (us @ c # r) n = Some c"
  by simp








subsection \<open>Values\<close>









lemma long_min_digits: "dec_value 0 long_min_digits = 2 ^ 63" "length long_min_digits = 19" "\<forall>c \<in> set long_min_digits. is_digit c"
  by (simp_all add: long_min_digits_def digit_val_def is_digit_def)








subsection \<open>Decimal strings\<close>













subsection \<open>No access outside the buffer\<close>









subsection \<open>Hexadecimal strings\<close>










subsection \<open>Which strings are integers\<close>

















text \<open>A conversion that stops at the end of the buffer.\<close>

definition strtod_all :: "string \<Rightarrow> nat \<Rightarrow> nat \<times> nat" where
  "strtod_all s str = (dec_value 0 (filter is_digit s), length s - 1)"


text \<open>
  With trailing garbage allowed, an exponent character followed by a sign and no digit moves the
  offset one character on, so that the 19 digits compared with the bound are the wrong ones: the
  number is taken for a \<^verbatim>\<open>long\<close> although it is not one, and \<^verbatim>\<open>strtol\<close> cuts it.
\<close>

lemma exponent_sign_misread:
  "map_option nr_type (is_numeric_string_ex strtod_all strtod_all (''9223372036854775808'' @ [CHR 0x00]) 19 True True 1 False) = Some IS_DOUBLE"
  "map_option (\<lambda>r. (nr_type r, nr_lval r)) (is_numeric_string_ex strtod_all strtod_all (''9223372036854775808e+'' @ [CHR 0x00]) 21 True True 1 False) =
     Some (IS_LONG, Some (2 ^ 63 - 1))"
  by (simp_all add: is_numeric_string_ex_def skip_while.simps check_digits.simps scan_digit_def after_digits_def finish_number_def rd_at_def
      is_digit_def is_space_def is_sign_def MAX_LENGTH_OF_LONG_def long_min_digits_def strtol_def base_digit_def base_value_def hex_val_def
      skip_prefix_def ZEND_IS_XDIGIT_def)

subsection \<open>Incrementing and decrementing a value\<close>


datatype 'd zval =
    Z_null
  | Z_long "64 word"
  | Z_double 'd
  | Z_bool bool
  | Z_string zstr
  | Z_array nat
  | Z_object nat
  | Z_resource nat













end
