(* ===== verification/Zend_Gc.thy ===== *)
theory Zend_Gc
  imports Zend_Prelude
begin

text \<open>
  The cycle collector (\<^verbatim>\<open>Zend/zend_gc.c\<close>, \<^verbatim>\<open>Zend/zend_gc.h\<close>): the buffer of possible roots, the three
  passes over the graph of values and objects that compute by trial deletion which of them are
  garbage, and the release of the garbage. Values (\<^verbatim>\<open>zval\<close>) live in a heap by address, objects in
  the object store by handle, arrays are named by their hash table and read as the list of their
  elements in list order. A dangling access is \<open>None\<close>.
\<close>

subsection \<open>Colours, buffers and values\<close>

datatype gc_colour = GC_BLACK | GC_WHITE | GC_GREY | GC_PURPLE

text \<open>A pointer to a root buffer: the head \<open>GC_G(roots)\<close> of the ring, or a slot of the array \<open>GC_G(buf)\<close>.\<close>

datatype rb_ptr = Roots | Slot nat

text \<open>
  The word behind a value: a root buffer (or \<open>NULL\<close>) with the colour in its two low bits, or the
  link of the list of values to free. Such a link has the colour black, and as an address it is
  outside the array of buffers; \<open>None\<close> is \<open>FREE_LIST_END\<close>.
\<close>

datatype gc_word = Buffered "rb_ptr option" gc_colour | Free_link "nat option"

fun GC_GET_COLOR :: "gc_word \<Rightarrow> gc_colour" where
  "GC_GET_COLOR (Buffered a c) = c"
| "GC_GET_COLOR (Free_link n) = GC_BLACK"

text \<open>Colouring a link is harmless for black only; setting the address of one would lose it.\<close>

fun GC_SET_COLOR :: "gc_colour \<Rightarrow> gc_word \<Rightarrow> gc_word option" where
  "GC_SET_COLOR c (Buffered a _) = Some (Buffered a c)"
| "GC_SET_COLOR c (Free_link n) = (if c = GC_BLACK then Some (Free_link n) else None)"

fun GC_SET_ADDRESS :: "rb_ptr option \<Rightarrow> gc_word \<Rightarrow> gc_word option" where
  "GC_SET_ADDRESS a (Buffered _ c) = Some (Buffered a c)"
| "GC_SET_ADDRESS a (Free_link n) = None"

fun is_free_link :: "gc_word \<Rightarrow> bool" where
  "is_free_link (Free_link n) = True"
| "is_free_link (Buffered a c) = False"

text \<open>What a value is: an array with its table, an object with its handle and handlers, or another type.\<close>

datatype zv_type = IS_ARRAY nat | IS_OBJECT nat nat | IS_OTHER | IS_NULL

record zval_gc_info =
  zv_type :: zv_type
  zv_refcount :: uint
  zv_u :: gc_word

record gc_object =
  so_valid :: bool
  so_destructor_called :: bool
  so_dtor :: bool
  so_refcount :: uint
  so_buffered :: gc_word

datatype rb_ref = Pz nat | Handlers nat

record gc_root_buffer =
  rb_prev :: "rb_ptr option"
  rb_next :: rb_ptr
  rb_handle :: nat
  rb_u :: rb_ref

record zend_gc_globals =
  zvals :: "zval_gc_info heap"
  objects :: "gc_object heap"
  object_buckets_on :: bool
  tables :: "nat \<Rightarrow> nat list"
  symbol_table :: nat
  gc_enabled :: bool
  gc_active :: bool
  gc_buf :: bool
  roots :: "rb_ptr \<times> rb_ptr"
  slots :: "gc_root_buffer heap"
  unused :: "rb_ptr option"
  first_unused :: nat
  last_unused :: nat
  zval_to_free :: "nat option option"
  gc_free_list :: "nat option option"
  next_to_free :: "nat option option"
  gc_runs :: uint
  gc_collected :: uint

text \<open>
  \<open>roots\<close> holds the pointers \<open>next\<close> and \<open>prev\<close> of the head. The three lists of values are \<open>None\<close> for
  \<open>NULL\<close>, \<open>Some None\<close> for \<open>FREE_LIST_END\<close>. The parameter \<open>get_gc\<close> of the passes gives, by handlers and
  handle, the properties of an object: a vector that may have \<open>NULL\<close> entries, and a hash table.
\<close>

type_synonym get_gc = "nat \<Rightarrow> nat \<Rightarrow> (nat option list \<times> nat option) option"

subsection \<open>Access\<close>

definition zv_upd :: "nat \<Rightarrow> (zval_gc_info \<Rightarrow> zval_gc_info option) \<Rightarrow> zend_gc_globals \<Rightarrow> zend_gc_globals option" where
  "zv_upd a f s = do { z \<leftarrow> zvals s a; z \<leftarrow> f z; Some (s\<lparr>zvals := (zvals s)(a \<mapsto> z)\<rparr>) }"

definition so_upd :: "nat \<Rightarrow> (gc_object \<Rightarrow> gc_object option) \<Rightarrow> zend_gc_globals \<Rightarrow> zend_gc_globals option" where
  "so_upd h f s = do { b \<leftarrow> objects s h; b \<leftarrow> f b; Some (s\<lparr>objects := (objects s)(h \<mapsto> b)\<rparr>) }"

definition GC_ZVAL_SET_COLOR :: "nat \<Rightarrow> gc_colour \<Rightarrow> zend_gc_globals \<Rightarrow> zend_gc_globals option" where
  "GC_ZVAL_SET_COLOR a c s = zv_upd a (\<lambda>z. do { w \<leftarrow> GC_SET_COLOR c (zv_u z); Some (z\<lparr>zv_u := w\<rparr>) }) s"

definition GC_ZVAL_SET_ADDRESS :: "nat \<Rightarrow> rb_ptr option \<Rightarrow> zend_gc_globals \<Rightarrow> zend_gc_globals option" where
  "GC_ZVAL_SET_ADDRESS a p s = zv_upd a (\<lambda>z. do { w \<leftarrow> GC_SET_ADDRESS p (zv_u z); Some (z\<lparr>zv_u := w\<rparr>) }) s"

definition obj_set_color :: "nat \<Rightarrow> gc_colour \<Rightarrow> zend_gc_globals \<Rightarrow> zend_gc_globals option" where
  "obj_set_color h c s = so_upd h (\<lambda>b. do { w \<leftarrow> GC_SET_COLOR c (so_buffered b); Some (b\<lparr>so_buffered := w\<rparr>) }) s"

definition obj_set_address :: "nat \<Rightarrow> rb_ptr option \<Rightarrow> zend_gc_globals \<Rightarrow> zend_gc_globals option" where
  "obj_set_address h p s = so_upd h (\<lambda>b. do { w \<leftarrow> GC_SET_ADDRESS p (so_buffered b); Some (b\<lparr>so_buffered := w\<rparr>) }) s"

definition obj_add_ref :: "nat \<Rightarrow> uint \<Rightarrow> zend_gc_globals \<Rightarrow> zend_gc_globals option" where
  "obj_add_ref h d s = so_upd h (\<lambda>b. Some (b\<lparr>so_refcount := so_refcount b + d\<rparr>)) s"

text \<open>\<^verbatim>\<open>if (Z_TYPE_P(pz) != IS_ARRAY || Z_ARRVAL_P(pz) != &EG(symbol_table)) pz->refcount__gc += d\<close>\<close>

definition zval_add_ref :: "nat \<Rightarrow> uint \<Rightarrow> zend_gc_globals \<Rightarrow> zend_gc_globals option" where
  "zval_add_ref a d s =
     zv_upd a (\<lambda>z. Some (if zv_type z = IS_ARRAY (symbol_table s) then z else z\<lparr>zv_refcount := zv_refcount z + d\<rparr>)) s"

text \<open>The children of an object that is valid and has a \<open>get_gc\<close> handler.\<close>

definition object_gc :: "get_gc \<Rightarrow> nat \<Rightarrow> nat \<Rightarrow> gc_object \<Rightarrow> (nat list \<times> nat option) option" where
  "object_gc get_gc ht h b =
     (if so_valid b then map_option (\<lambda>(table, props). (List.map_filter id table, props)) (get_gc ht h) else None)"

subsection \<open>The root buffer\<close>

definition GC_ROOT_BUFFER_MAX_ENTRIES :: nat where "GC_ROOT_BUFFER_MAX_ENTRIES = 10000"

fun rb_get_next :: "rb_ptr \<Rightarrow> zend_gc_globals \<Rightarrow> rb_ptr option" where
  "rb_get_next Roots s = Some (fst (roots s))"
| "rb_get_next (Slot i) s = map_option rb_next (slots s i)"

fun rb_set_next :: "rb_ptr \<Rightarrow> rb_ptr \<Rightarrow> zend_gc_globals \<Rightarrow> zend_gc_globals option" where
  "rb_set_next Roots p s = Some (s\<lparr>roots := (p, snd (roots s))\<rparr>)"
| "rb_set_next (Slot i) p s = do { r \<leftarrow> slots s i; Some (s\<lparr>slots := (slots s)(i \<mapsto> r\<lparr>rb_next := p\<rparr>)\<rparr>) }"

fun rb_set_prev :: "rb_ptr \<Rightarrow> rb_ptr option \<Rightarrow> zend_gc_globals \<Rightarrow> zend_gc_globals option" where
  "rb_set_prev Roots p s = do { q \<leftarrow> p; Some (s\<lparr>roots := (fst (roots s), q)\<rparr>) }"
| "rb_set_prev (Slot i) p s = do { r \<leftarrow> slots s i; Some (s\<lparr>slots := (slots s)(i \<mapsto> r\<lparr>rb_prev := p\<rparr>)\<rparr>) }"

definition gc_remove_from_buffer :: "nat \<Rightarrow> zend_gc_globals \<Rightarrow> zend_gc_globals option" where
  "gc_remove_from_buffer i s = do {
     r \<leftarrow> slots s i;
     s \<leftarrow> rb_set_prev (rb_next r) (rb_prev r) s;
     p \<leftarrow> rb_prev r;
     s \<leftarrow> rb_set_next p (rb_next r) s;
     s \<leftarrow> rb_set_prev (Slot i) (unused s) s;
     Some (s\<lparr>unused := Some (Slot i)\<rparr>) }"

definition gc_globals_ctor_ex :: "zend_gc_globals \<Rightarrow> zend_gc_globals" where
  "gc_globals_ctor_ex s = s\<lparr>gc_enabled := False, gc_active := False, gc_buf := False, roots := (Roots, Roots), unused := None,
     zval_to_free := None, gc_free_list := None, next_to_free := None, gc_runs := 0, gc_collected := 0\<rparr>"

definition root_buffer_dtor :: "zend_gc_globals \<Rightarrow> zend_gc_globals" where
  "root_buffer_dtor s = (if gc_buf s then s\<lparr>gc_buf := False, slots := Map.empty\<rparr> else s)"

definition gc_reset :: "zend_gc_globals \<Rightarrow> zend_gc_globals" where
  "gc_reset s =
     (let s = s\<lparr>gc_runs := 0, gc_collected := 0, roots := (Roots, Roots)\<rparr>
      in if gc_buf s then s\<lparr>unused := None, first_unused := 0, zval_to_free := None\<rparr>
         else s\<lparr>unused := None, first_unused := 0, last_unused := 0\<rparr>)"

definition gc_init :: "zend_gc_globals \<Rightarrow> zend_gc_globals" where
  "gc_init s = (if \<not> gc_buf s \<and> gc_enabled s
     then gc_reset (s\<lparr>gc_buf := True, slots := Map.empty, last_unused := GC_ROOT_BUFFER_MAX_ENTRIES\<rparr>) else s)"

text \<open>
  A free slot: from the list of unused ones, or the next one never used, or, when the buffer is
  full, one that a collection frees. The function \<open>collect\<close> stands for \<open>gc_collect_cycles\<close>, called with
  an additional reference to the value. The result \<open>Some (None, s)\<close> is an early return.
\<close>

definition take_slot :: "(zend_gc_globals \<Rightarrow> (nat \<times> zend_gc_globals) option) \<Rightarrow> nat \<Rightarrow> zend_gc_globals \<Rightarrow>
    (nat option \<times> zend_gc_globals) option" where
  "take_slot collect zv s =
     (case unused s of
        Some (Slot i) \<Rightarrow> do { r \<leftarrow> slots s i; Some (Some i, s\<lparr>unused := rb_prev r\<rparr>) }
      | Some Roots \<Rightarrow> None
      | None \<Rightarrow>
          if first_unused s \<noteq> last_unused s then Some (Some (first_unused s), s\<lparr>first_unused := first_unused s + 1\<rparr>)
          else if \<not> gc_enabled s then Some (None, s)
          else do {
            s \<leftarrow> zv_upd zv (\<lambda>z. Some (z\<lparr>zv_refcount := zv_refcount z + 1\<rparr>)) s;
            (_, s) \<leftarrow> collect s;
            s \<leftarrow> zv_upd zv (\<lambda>z. Some (z\<lparr>zv_refcount := zv_refcount z - 1\<rparr>)) s;
            (case unused s of
               Some (Slot i) \<Rightarrow> do { r \<leftarrow> slots s i; Some (Some i, s\<lparr>unused := rb_prev r\<rparr>) }
             | Some Roots \<Rightarrow> None
             | None \<Rightarrow> Some (None, s)) })"

text \<open>The new slot becomes the first of the ring.\<close>

definition link_root :: "nat \<Rightarrow> nat \<Rightarrow> rb_ref \<Rightarrow> zend_gc_globals \<Rightarrow> zend_gc_globals option" where
  "link_root i handle u s = do {
     let s = s\<lparr>slots := (slots s)(i \<mapsto> \<lparr>rb_prev = Some Roots, rb_next = fst (roots s), rb_handle = handle, rb_u = u\<rparr>)\<rparr>;
     s \<leftarrow> rb_set_prev (fst (roots s)) (Some (Slot i)) s;
     rb_set_next Roots (Slot i) s }"

definition gc_zobj_possible_root ::
    "get_gc \<Rightarrow> (zend_gc_globals \<Rightarrow> (nat \<times> zend_gc_globals) option) \<Rightarrow> nat \<Rightarrow> zend_gc_globals \<Rightarrow> zend_gc_globals option" where
  "gc_zobj_possible_root get_gc collect zv s = do {
     z \<leftarrow> zvals s zv;
     (case zv_type z of
        IS_OBJECT h ht \<Rightarrow>
          if get_gc ht h = None \<or> \<not> object_buckets_on s then Some s
          else do {
            b \<leftarrow> objects s h;
            if GC_GET_COLOR (so_buffered b) = GC_PURPLE then Some s
            else (case so_buffered b of
                    Buffered None _ \<Rightarrow> do {
                      (slot, s) \<leftarrow> take_slot collect zv s;
                      (case slot of None \<Rightarrow> Some s
                       | Some i \<Rightarrow> do {
                           s \<leftarrow> obj_set_color h GC_PURPLE s;
                           s \<leftarrow> link_root i h (Handlers ht) s;
                           obj_set_address h (Some (Slot i)) s }) }
                  | _ \<Rightarrow> Some s) }
      | _ \<Rightarrow> None) }"

text \<open>
  The value is garbage of the collection that is running when it is on the list to free; it is
  left alone.
\<close>

definition gc_zval_possible_root ::
    "get_gc \<Rightarrow> (zend_gc_globals \<Rightarrow> (nat \<times> zend_gc_globals) option) \<Rightarrow> nat \<Rightarrow> zend_gc_globals \<Rightarrow> zend_gc_globals option" where
  "gc_zval_possible_root get_gc collect zv s = do {
     z \<leftarrow> zvals s zv;
     if gc_free_list s \<noteq> None \<and> is_free_link (zv_u z) then Some s
     else (case zv_type z of
        IS_OBJECT h _ \<Rightarrow>
          if object_buckets_on s
          then do { b \<leftarrow> objects s h; if so_valid b then gc_zobj_possible_root get_gc collect zv s else Some s }
          else Some s
      | _ \<Rightarrow>
          if GC_GET_COLOR (zv_u z) = GC_PURPLE then Some s
          else (case zv_u z of
                  Buffered None _ \<Rightarrow> do {
                    (slot, s) \<leftarrow> take_slot collect zv s;
                    (case slot of None \<Rightarrow> Some s
                     | Some i \<Rightarrow> do {
                         s \<leftarrow> GC_ZVAL_SET_COLOR zv GC_PURPLE s;
                         s \<leftarrow> link_root i 0 (Pz zv) s;
                         GC_ZVAL_SET_ADDRESS zv (Some (Slot i)) s }) }
                | _ \<Rightarrow> Some s)) }"

definition gc_zval_check_possible_root ::
    "get_gc \<Rightarrow> (zend_gc_globals \<Rightarrow> (nat \<times> zend_gc_globals) option) \<Rightarrow> nat \<Rightarrow> zend_gc_globals \<Rightarrow> zend_gc_globals option" where
  "gc_zval_check_possible_root get_gc collect zv s = do {
     z \<leftarrow> zvals s zv;
     (case zv_type z of
        IS_ARRAY _ \<Rightarrow> gc_zval_possible_root get_gc collect zv s
      | IS_OBJECT _ _ \<Rightarrow> gc_zval_possible_root get_gc collect zv s
      | _ \<Rightarrow> Some s) }"

definition gc_remove_zval_from_buffer :: "nat \<Rightarrow> zend_gc_globals \<Rightarrow> zend_gc_globals option" where
  "gc_remove_zval_from_buffer zv s = do {
     z \<leftarrow> zvals s zv;
     (case zv_u z of
        Free_link n \<Rightarrow>
          if gc_free_list s \<noteq> None
          then Some (if next_to_free s = Some (Some zv) then s\<lparr>next_to_free := Some n\<rparr> else s)
          else None
      | Buffered (Some (Slot i)) _ \<Rightarrow> do {
          s \<leftarrow> gc_remove_from_buffer i s;
          zv_upd zv (\<lambda>z. Some (z\<lparr>zv_u := Buffered None GC_BLACK\<rparr>)) s }
      | _ \<Rightarrow> None) }"

subsection \<open>The passes\<close>

text \<open>
  A pass is a recursion over values. A call is on one value, or it is the rest of a loop over
  values. A jump to \<^verbatim>\<open>tail_call\<close> on the last child does what the call on it would do, and is that call.
\<close>

datatype gc_call = Zval nat | Zvals "nat list"

text \<open>Undo the scan: a value in use from outside makes everything below it black again.\<close>

partial_function (option) scan_black :: "get_gc \<Rightarrow> gc_call \<Rightarrow> zend_gc_globals \<Rightarrow> zend_gc_globals option" where
  "scan_black get_gc call s =
     (case call of
        Zval pz \<Rightarrow> do {
          z \<leftarrow> zvals s pz;
          s \<leftarrow> GC_ZVAL_SET_COLOR pz GC_BLACK s;
          (case zv_type z of
             IS_OBJECT h ht \<Rightarrow>
               if \<not> object_buckets_on s then Some s
               else do {
                 s \<leftarrow> obj_add_ref h 1 s;
                 b \<leftarrow> objects s h;
                 if GC_GET_COLOR (so_buffered b) = GC_BLACK then Some s
                 else do {
                   s \<leftarrow> obj_set_color h GC_BLACK s;
                   (case object_gc get_gc ht h b of
                      None \<Rightarrow> Some s
                    | Some (table, props) \<Rightarrow> do {
                        s \<leftarrow> scan_black get_gc (Zvals table) s;
                        (case props of None \<Rightarrow> Some s | Some t \<Rightarrow> scan_black get_gc (Zvals (tables s t)) s) }) } }
           | IS_ARRAY t \<Rightarrow> if t = symbol_table s then Some s else scan_black get_gc (Zvals (tables s t)) s
           | _ \<Rightarrow> Some s) }
      | Zvals [] \<Rightarrow> Some s
      | Zvals (pz # ps) \<Rightarrow> do {
          s \<leftarrow> zval_add_ref pz 1 s;
          z \<leftarrow> zvals s pz;
          s \<leftarrow> (if GC_GET_COLOR (zv_u z) = GC_BLACK then Some s else scan_black get_gc (Zval pz) s);
          scan_black get_gc (Zvals ps) s })"

definition zval_scan_black :: "get_gc \<Rightarrow> nat \<Rightarrow> zend_gc_globals \<Rightarrow> zend_gc_globals option" where
  "zval_scan_black get_gc pz s = scan_black get_gc (Zval pz) s"

definition zobj_scan_black :: "get_gc \<Rightarrow> nat \<Rightarrow> nat \<Rightarrow> zend_gc_globals \<Rightarrow> zend_gc_globals option" where
  "zobj_scan_black get_gc ht h s = do {
     b \<leftarrow> objects s h;
     s \<leftarrow> obj_set_color h GC_BLACK s;
     (case object_gc get_gc ht h b of
        None \<Rightarrow> Some s
      | Some (table, props) \<Rightarrow> do {
          s \<leftarrow> scan_black get_gc (Zvals table) s;
          (case props of None \<Rightarrow> Some s | Some t \<Rightarrow> scan_black get_gc (Zvals (tables s t)) s) }) }"

text \<open>Trial deletion: take away every reference from inside.\<close>

partial_function (option) mark_grey :: "get_gc \<Rightarrow> gc_call \<Rightarrow> zend_gc_globals \<Rightarrow> zend_gc_globals option" where
  "mark_grey get_gc call s =
     (case call of
        Zval pz \<Rightarrow> do {
          z \<leftarrow> zvals s pz;
          if GC_GET_COLOR (zv_u z) = GC_GREY then Some s
          else do {
            s \<leftarrow> GC_ZVAL_SET_COLOR pz GC_GREY s;
            (case zv_type z of
               IS_OBJECT h ht \<Rightarrow>
                 if \<not> object_buckets_on s then Some s
                 else do {
                   s \<leftarrow> obj_add_ref h (- 1) s;
                   b \<leftarrow> objects s h;
                   if GC_GET_COLOR (so_buffered b) = GC_GREY then Some s
                   else do {
                     s \<leftarrow> obj_set_color h GC_GREY s;
                     (case object_gc get_gc ht h b of
                        None \<Rightarrow> Some s
                      | Some (table, props) \<Rightarrow> do {
                          s \<leftarrow> mark_grey get_gc (Zvals table) s;
                          (case props of None \<Rightarrow> Some s | Some t \<Rightarrow> mark_grey get_gc (Zvals (tables s t)) s) }) } }
             | IS_ARRAY t \<Rightarrow>
                 if t = symbol_table s then GC_ZVAL_SET_COLOR pz GC_BLACK s else mark_grey get_gc (Zvals (tables s t)) s
             | _ \<Rightarrow> Some s) } }
      | Zvals [] \<Rightarrow> Some s
      | Zvals (pz # ps) \<Rightarrow> do {
          s \<leftarrow> zval_add_ref pz (- 1) s;
          s \<leftarrow> mark_grey get_gc (Zval pz) s;
          mark_grey get_gc (Zvals ps) s })"

definition zval_mark_grey :: "get_gc \<Rightarrow> nat \<Rightarrow> zend_gc_globals \<Rightarrow> zend_gc_globals option" where
  "zval_mark_grey get_gc pz s = mark_grey get_gc (Zval pz) s"

definition zobj_mark_grey :: "get_gc \<Rightarrow> nat \<Rightarrow> nat \<Rightarrow> zend_gc_globals \<Rightarrow> zend_gc_globals option" where
  "zobj_mark_grey get_gc ht h s = do {
     b \<leftarrow> objects s h;
     if GC_GET_COLOR (so_buffered b) = GC_GREY then Some s
     else do {
       s \<leftarrow> obj_set_color h GC_GREY s;
       (case object_gc get_gc ht h b of
          None \<Rightarrow> Some s
        | Some (table, props) \<Rightarrow> do {
            s \<leftarrow> mark_grey get_gc (Zvals table) s;
            (case props of None \<Rightarrow> Some s | Some t \<Rightarrow> mark_grey get_gc (Zvals (tables s t)) s) }) } }"

text \<open>
  The roots that are still purple are marked; the others leave the buffer. The successor of a root
  is read after it has left.
\<close>

definition mark_root :: "get_gc \<Rightarrow> nat \<Rightarrow> zend_gc_globals \<Rightarrow> zend_gc_globals option" where
  "mark_root get_gc i s = do {
     r \<leftarrow> slots s i;
     if rb_handle r \<noteq> 0 then
       (if \<not> object_buckets_on s then Some s
        else do {
          b \<leftarrow> objects s (rb_handle r);
          if GC_GET_COLOR (so_buffered b) = GC_PURPLE
          then (case rb_u r of Handlers ht \<Rightarrow> zobj_mark_grey get_gc ht (rb_handle r) s | Pz _ \<Rightarrow> None)
          else do { s \<leftarrow> obj_set_address (rb_handle r) None s; gc_remove_from_buffer i s } })
     else (case rb_u r of
             Pz pz \<Rightarrow> do {
               z \<leftarrow> zvals s pz;
               if GC_GET_COLOR (zv_u z) = GC_PURPLE then zval_mark_grey get_gc pz s
               else do { s \<leftarrow> GC_ZVAL_SET_ADDRESS pz None s; gc_remove_from_buffer i s } }
           | Handlers _ \<Rightarrow> None) }"

partial_function (option) root_loop :: "(nat \<Rightarrow> zend_gc_globals \<Rightarrow> zend_gc_globals option) \<Rightarrow> rb_ptr \<Rightarrow> zend_gc_globals \<Rightarrow> zend_gc_globals option" where
  "root_loop body current s =
     (case current of
        Roots \<Rightarrow> Some s
      | Slot i \<Rightarrow> do {
          s \<leftarrow> body i s;
          n \<leftarrow> rb_get_next current s;
          root_loop body n s })"

definition gc_mark_roots :: "get_gc \<Rightarrow> zend_gc_globals \<Rightarrow> zend_gc_globals option" where
  "gc_mark_roots get_gc s = root_loop (mark_root get_gc) (fst (roots s)) s"

text \<open>Grey values that are still referenced go back to black, the others become white.\<close>

partial_function (option) scan :: "get_gc \<Rightarrow> gc_call \<Rightarrow> zend_gc_globals \<Rightarrow> zend_gc_globals option" where
  "scan get_gc call s =
     (case call of
        Zval pz \<Rightarrow> do {
          z \<leftarrow> zvals s pz;
          if GC_GET_COLOR (zv_u z) \<noteq> GC_GREY then Some s
          else if zv_refcount z > 0 then zval_scan_black get_gc pz s
          else do {
            s \<leftarrow> GC_ZVAL_SET_COLOR pz GC_WHITE s;
            (case zv_type z of
               IS_OBJECT h ht \<Rightarrow>
                 if \<not> object_buckets_on s then Some s
                 else do {
                   b \<leftarrow> objects s h;
                   if GC_GET_COLOR (so_buffered b) \<noteq> GC_GREY then Some s
                   else if so_refcount b > 0 then zobj_scan_black get_gc ht h s
                   else do {
                     s \<leftarrow> obj_set_color h GC_WHITE s;
                     (case object_gc get_gc ht h b of
                        None \<Rightarrow> Some s
                      | Some (table, props) \<Rightarrow> do {
                          s \<leftarrow> scan get_gc (Zvals table) s;
                          (case props of None \<Rightarrow> Some s | Some t \<Rightarrow> scan get_gc (Zvals (tables s t)) s) }) } }
             | IS_ARRAY t \<Rightarrow>
                 if t = symbol_table s then GC_ZVAL_SET_COLOR pz GC_BLACK s else scan get_gc (Zvals (tables s t)) s
             | _ \<Rightarrow> Some s) } }
      | Zvals [] \<Rightarrow> Some s
      | Zvals (pz # ps) \<Rightarrow> do { s \<leftarrow> scan get_gc (Zval pz) s; scan get_gc (Zvals ps) s })"

definition zval_scan :: "get_gc \<Rightarrow> nat \<Rightarrow> zend_gc_globals \<Rightarrow> zend_gc_globals option" where
  "zval_scan get_gc pz s = scan get_gc (Zval pz) s"

definition zobj_scan :: "get_gc \<Rightarrow> nat \<Rightarrow> nat \<Rightarrow> zend_gc_globals \<Rightarrow> zend_gc_globals option" where
  "zobj_scan get_gc ht h s =
     (if \<not> object_buckets_on s then Some s
      else do {
        b \<leftarrow> objects s h;
        if GC_GET_COLOR (so_buffered b) \<noteq> GC_GREY then Some s
        else if so_refcount b > 0 then zobj_scan_black get_gc ht h s
        else do {
          s \<leftarrow> obj_set_color h GC_WHITE s;
          (case object_gc get_gc ht h b of
             None \<Rightarrow> Some s
           | Some (table, props) \<Rightarrow> do {
               s \<leftarrow> scan get_gc (Zvals table) s;
               (case props of None \<Rightarrow> Some s | Some t \<Rightarrow> scan get_gc (Zvals (tables s t)) s) }) } })"

definition scan_root :: "get_gc \<Rightarrow> nat \<Rightarrow> zend_gc_globals \<Rightarrow> zend_gc_globals option" where
  "scan_root get_gc i s = do {
     r \<leftarrow> slots s i;
     if rb_handle r \<noteq> 0
     then (case rb_u r of Handlers ht \<Rightarrow> zobj_scan get_gc ht (rb_handle r) s | Pz _ \<Rightarrow> None)
     else (case rb_u r of Pz pz \<Rightarrow> zval_scan get_gc pz s | Handlers _ \<Rightarrow> None) }"

definition gc_scan_roots :: "get_gc \<Rightarrow> zend_gc_globals \<Rightarrow> zend_gc_globals option" where
  "gc_scan_roots get_gc s = root_loop (scan_root get_gc) (fst (roots s)) s"

text \<open>Restore the reference count and put the value on the list to free.\<close>

definition enlist :: "nat \<Rightarrow> zend_gc_globals \<Rightarrow> zend_gc_globals option" where
  "enlist pz s = do {
     n \<leftarrow> zval_to_free s;
     s \<leftarrow> zv_upd pz (\<lambda>z. Some (z\<lparr>zv_refcount := zv_refcount z + 1, zv_u := Free_link n\<rparr>)) s;
     Some (s\<lparr>zval_to_free := Some (Some pz)\<rparr>) }"

text \<open>
  White values that are not in the buffer go on the list; references to their children are
  restored. White objects become purple, so that they are not buffered while the garbage is
  destroyed; their counts stay 0.
\<close>

partial_function (option) collect_white :: "get_gc \<Rightarrow> gc_call \<Rightarrow> zend_gc_globals \<Rightarrow> zend_gc_globals option" where
  "collect_white get_gc call s =
     (case call of
        Zval pz \<Rightarrow> do {
          z \<leftarrow> zvals s pz;
          if zv_u z \<noteq> Buffered None GC_WHITE then Some s
          else do {
            s \<leftarrow> GC_ZVAL_SET_COLOR pz GC_BLACK s;
            (case zv_type z of
               IS_OBJECT h ht \<Rightarrow>
                 if \<not> object_buckets_on s then enlist pz s
                 else do {
                   b \<leftarrow> objects s h;
                   if so_buffered b \<noteq> Buffered None GC_WHITE then enlist pz s
                   else do {
                     s \<leftarrow> obj_set_color h GC_PURPLE s;
                     (case object_gc get_gc ht h b of
                        None \<Rightarrow> enlist pz s
                      | Some (table, None) \<Rightarrow> do { s \<leftarrow> enlist pz s; collect_white get_gc (Zvals table) s }
                      | Some (table, Some t) \<Rightarrow> do {
                          s \<leftarrow> collect_white get_gc (Zvals table) s;
                          s \<leftarrow> enlist pz s;
                          collect_white get_gc (Zvals (tables s t)) s }) } }
             | IS_ARRAY t \<Rightarrow> do { s \<leftarrow> enlist pz s; collect_white get_gc (Zvals (tables s t)) s }
             | _ \<Rightarrow> enlist pz s) } }
      | Zvals [] \<Rightarrow> Some s
      | Zvals (pz # ps) \<Rightarrow> do {
          s \<leftarrow> zval_add_ref pz 1 s;
          s \<leftarrow> collect_white get_gc (Zval pz) s;
          collect_white get_gc (Zvals ps) s })"

definition zval_collect_white :: "get_gc \<Rightarrow> nat \<Rightarrow> zend_gc_globals \<Rightarrow> zend_gc_globals option" where
  "zval_collect_white get_gc pz s = collect_white get_gc (Zval pz) s"

definition zobj_collect_white :: "get_gc \<Rightarrow> nat \<Rightarrow> nat \<Rightarrow> zend_gc_globals \<Rightarrow> zend_gc_globals option" where
  "zobj_collect_white get_gc ht h s =
     (if \<not> object_buckets_on s then Some s
      else do {
        b \<leftarrow> objects s h;
        if so_buffered b \<noteq> Buffered None GC_WHITE then Some s
        else do {
          s \<leftarrow> obj_set_color h GC_PURPLE s;
          (case object_gc get_gc ht h b of
             None \<Rightarrow> Some s
           | Some (table, props) \<Rightarrow> do {
               s \<leftarrow> collect_white get_gc (Zvals table) s;
               (case props of None \<Rightarrow> Some s | Some t \<Rightarrow> collect_white get_gc (Zvals (tables s t)) s) }) } })"

definition collect_root :: "get_gc \<Rightarrow> nat \<Rightarrow> zend_gc_globals \<Rightarrow> zend_gc_globals option" where
  "collect_root get_gc i s = do {
     r \<leftarrow> slots s i;
     s \<leftarrow> (if rb_handle r \<noteq> 0 then
             (if \<not> object_buckets_on s then Some s
              else do {
                s \<leftarrow> obj_set_address (rb_handle r) None s;
                (case rb_u r of Handlers ht \<Rightarrow> zobj_collect_white get_gc ht (rb_handle r) s | Pz _ \<Rightarrow> None) })
           else (case rb_u r of
                   Pz pz \<Rightarrow> do { s \<leftarrow> GC_ZVAL_SET_ADDRESS pz None s; zval_collect_white get_gc pz s }
                 | Handlers _ \<Rightarrow> None));
     gc_remove_from_buffer i s }"

definition gc_collect_roots :: "get_gc \<Rightarrow> zend_gc_globals \<Rightarrow> zend_gc_globals option" where
  "gc_collect_roots get_gc s = root_loop (collect_root get_gc) (fst (roots s)) s"

subsection \<open>A collection\<close>

text \<open>
  The code that destroys values is a parameter: the destructor of an object, the release of an
  object's last reference, the destruction of an array and of any other value. Each may change
  everything, also through the functions above.
\<close>

record gc_callbacks =
  cb_dtor :: "nat \<Rightarrow> zend_gc_globals \<Rightarrow> zend_gc_globals option"
  cb_del_ref :: "nat \<Rightarrow> nat \<Rightarrow> zend_gc_globals \<Rightarrow> zend_gc_globals option"
  cb_hash_destroy :: "nat \<Rightarrow> zend_gc_globals \<Rightarrow> zend_gc_globals option"
  cb_zval_dtor :: "nat \<Rightarrow> zend_gc_globals \<Rightarrow> zend_gc_globals option"

definition next_free :: "nat \<Rightarrow> zend_gc_globals \<Rightarrow> nat option option" where
  "next_free p s = do { z \<leftarrow> zvals s p; (case zv_u z of Free_link n \<Rightarrow> Some n | Buffered _ _ \<Rightarrow> None) }"

text \<open>The destructor of an object of which no reference is left, under a count of 1.\<close>

definition garbage_dtor :: "gc_callbacks \<Rightarrow> nat \<Rightarrow> zend_gc_globals \<Rightarrow> zend_gc_globals option" where
  "garbage_dtor cb p s = do {
     z \<leftarrow> zvals s p;
     (case zv_type z of
        IS_OBJECT h ht \<Rightarrow>
          if \<not> object_buckets_on s then Some s
          else do {
            b \<leftarrow> objects s h;
            if so_valid b \<and> so_refcount b = 0 \<and> so_dtor b \<and> \<not> so_destructor_called b then do {
              s \<leftarrow> so_upd h (\<lambda>b. Some (b\<lparr>so_destructor_called := True, so_refcount := so_refcount b + 1\<rparr>)) s;
              s \<leftarrow> cb_dtor cb h s;
              so_upd h (\<lambda>b. Some (b\<lparr>so_refcount := so_refcount b - 1\<rparr>)) s }
            else Some s }
      | _ \<Rightarrow> Some s) }"

partial_function (option) gc_destructor_loop :: "gc_callbacks \<Rightarrow> nat option \<Rightarrow> nat \<Rightarrow> zend_gc_globals \<Rightarrow> (nat \<times> zend_gc_globals) option" where
  "gc_destructor_loop cb p cnt s =
     (case p of None \<Rightarrow> Some (cnt, s)
      | Some a \<Rightarrow> do {
          s \<leftarrow> garbage_dtor cb a s;
          n \<leftarrow> next_free a s;
          gc_destructor_loop cb n (cnt + 1) s })"

definition destroy_garbage :: "gc_callbacks \<Rightarrow> nat \<Rightarrow> zend_gc_globals \<Rightarrow> zend_gc_globals option" where
  "destroy_garbage cb p s = do {
     z \<leftarrow> zvals s p;
     (case zv_type z of
        IS_OBJECT h ht \<Rightarrow>
          if \<not> object_buckets_on s then Some s
          else do {
            b \<leftarrow> objects s h;
            if so_valid b \<and> so_refcount b = 0 then do {
              s \<leftarrow> so_upd h (\<lambda>b. Some (b\<lparr>so_refcount := 1\<rparr>)) s;
              s \<leftarrow> zv_upd p (\<lambda>z. Some (z\<lparr>zv_type := IS_NULL\<rparr>)) s;
              cb_del_ref cb h ht s }
            else Some s }
      | IS_ARRAY t \<Rightarrow> do { s \<leftarrow> zv_upd p (\<lambda>z. Some (z\<lparr>zv_type := IS_NULL\<rparr>)) s; cb_hash_destroy cb t s }
      | _ \<Rightarrow> do { s \<leftarrow> cb_zval_dtor cb p s; zv_upd p (\<lambda>z. Some (z\<lparr>zv_type := IS_NULL\<rparr>)) s }) }"

text \<open>
  The next value to destroy is kept in \<open>next_to_free\<close>, where \<open>gc_remove_zval_from_buffer\<close> moves it on
  if the value it names goes away.
\<close>

partial_function (option) gc_destroy_loop :: "gc_callbacks \<Rightarrow> nat option \<Rightarrow> zend_gc_globals \<Rightarrow> zend_gc_globals option" where
  "gc_destroy_loop cb p s =
     (case p of None \<Rightarrow> Some s
      | Some a \<Rightarrow> do {
          n \<leftarrow> next_free a s;
          s \<leftarrow> destroy_garbage cb a (s\<lparr>next_to_free := Some n\<rparr>);
          n \<leftarrow> next_to_free s;
          gc_destroy_loop cb n s })"

partial_function (option) gc_free_loop :: "nat option \<Rightarrow> zend_gc_globals \<Rightarrow> zend_gc_globals option" where
  "gc_free_loop p s =
     (case p of None \<Rightarrow> Some s
      | Some a \<Rightarrow> do {
          n \<leftarrow> next_free a s;
          gc_free_loop n (s\<lparr>zvals := (zvals s)(a := None)\<rparr>) })"

text \<open>The three passes, as they follow each other.\<close>

definition gc_passes :: "get_gc \<Rightarrow> zend_gc_globals \<Rightarrow> zend_gc_globals option" where
  "gc_passes get_gc s = do {
     s \<leftarrow> gc_mark_roots get_gc s;
     s \<leftarrow> gc_scan_roots get_gc s;
     gc_collect_roots get_gc s }"

definition gc_collect_cycles :: "get_gc \<Rightarrow> gc_callbacks \<Rightarrow> zend_gc_globals \<Rightarrow> (nat \<times> zend_gc_globals) option" where
  "gc_collect_cycles get_gc cb s =
     (if fst (roots s) = Roots \<or> gc_active s then Some (0, s)
      else do {
        s \<leftarrow> gc_passes get_gc (s\<lparr>gc_runs := gc_runs s + 1, zval_to_free := Some None, gc_active := True\<rparr>);
        let orig_free_list = gc_free_list s;
        let orig_next_to_free = next_to_free s;
        p \<leftarrow> zval_to_free s;
        let s = s\<lparr>gc_free_list := Some p, zval_to_free := None, gc_active := False\<rparr>;
        (cnt, s) \<leftarrow> gc_destructor_loop cb p 0 s;
        p \<leftarrow> gc_free_list s;
        s \<leftarrow> gc_destroy_loop cb p s;
        p \<leftarrow> gc_free_list s;
        s \<leftarrow> gc_free_loop p s;
        Some (cnt, s\<lparr>gc_collected := gc_collected s + of_nat cnt, gc_free_list := orig_free_list, next_to_free := orig_next_to_free\<rparr>) })"

end
