(* ===== verification/Zend_Gc_Graph.thy ===== *)
theory Zend_Gc_Graph
  imports Zend_Gc
begin

text \<open>
  The memory the cycle collector works on as a graph. Its nodes are values and objects, each with
  a colour, a reference count and the address part of its collector word; the edges are the
  references between them. Every function of the passes is rewritten to a visit of a node and a
  run over a list of edges, so that the passes can be reasoned about node by node.
\<close>

named_theorems gc_simps \<open>reading the graph after an update\<close>

datatype gnode = Zv nat | Ob nat

fun gnode_word :: "zend_gc_globals \<Rightarrow> gnode \<Rightarrow> gc_word option" where
  "gnode_word s (Zv a) = map_option zv_u (zvals s a)"
| "gnode_word s (Ob h) = map_option so_buffered (objects s h)"

definition col :: "zend_gc_globals \<Rightarrow> gnode \<Rightarrow> gc_colour" where
  "col s n = (case gnode_word s n of Some w \<Rightarrow> GC_GET_COLOR w | None \<Rightarrow> GC_BLACK)"

definition addr :: "zend_gc_globals \<Rightarrow> gnode \<Rightarrow> rb_ptr option" where
  "addr s n = (case gnode_word s n of Some (Buffered a c) \<Rightarrow> a | _ \<Rightarrow> None)"

fun rc :: "zend_gc_globals \<Rightarrow> gnode \<Rightarrow> uint" where
  "rc s (Zv a) = (case zvals s a of Some z \<Rightarrow> zv_refcount z | None \<Rightarrow> 0)"
| "rc s (Ob h) = (case objects s h of Some b \<Rightarrow> so_refcount b | None \<Rightarrow> 0)"

definition nodes :: "zend_gc_globals \<Rightarrow> gnode set" where
  "nodes s = {n. gnode_word s n \<noteq> None}"

text \<open>The nodes whose references are not counted: the array that is the symbol table.\<close>

definition uncounted :: "zend_gc_globals \<Rightarrow> gnode set" where
  "uncounted s = {Zv a |a z. zvals s a = Some z \<and> zv_type z = IS_ARRAY (symbol_table s)}"

fun kids :: "get_gc \<Rightarrow> (nat \<Rightarrow> nat) \<Rightarrow> zend_gc_globals \<Rightarrow> gnode \<Rightarrow> gnode list" where
  "kids get_gc hnd s (Zv a) =
     (case zvals s a of None \<Rightarrow> []
      | Some z \<Rightarrow> (case zv_type z of
            IS_OBJECT h _ \<Rightarrow> if object_buckets_on s then [Ob h] else []
          | IS_ARRAY t \<Rightarrow> if t = symbol_table s then [] else map Zv (tables s t)
          | _ \<Rightarrow> []))"
| "kids get_gc hnd s (Ob h) =
     (case objects s h of None \<Rightarrow> []
      | Some b \<Rightarrow> (case object_gc get_gc (hnd h) h b of
            None \<Rightarrow> []
          | Some (table, props) \<Rightarrow> map Zv (table @ (case props of None \<Rightarrow> [] | Some t \<Rightarrow> tables s t))))"

definition gc_wf :: "get_gc \<Rightarrow> (nat \<Rightarrow> nat) \<Rightarrow> zend_gc_globals \<Rightarrow> bool" where
  "gc_wf get_gc hnd s \<longleftrightarrow> finite (nodes s) \<and> (\<forall>h b. objects s h = Some b \<longrightarrow> object_buckets_on s) \<and> (\<forall>n \<in> nodes s. set (kids get_gc hnd s n) \<subseteq> nodes s) \<and>
     (\<forall>a z h ht. zvals s a = Some z \<and> zv_type z = IS_OBJECT h ht \<longrightarrow> ht = hnd h) \<and>
     (\<forall>n w. gnode_word s n = Some w \<longrightarrow> \<not> is_free_link w) \<and>
     (\<forall>n \<in> uncounted s. col s n \<noteq> GC_GREY \<and> col s n \<noteq> GC_WHITE)"

subsection \<open>Updates\<close>

fun set_col :: "gnode \<Rightarrow> gc_colour \<Rightarrow> zend_gc_globals \<Rightarrow> zend_gc_globals" where
  "set_col (Zv a) c s = s\<lparr>zvals := (zvals s)(a := map_option (\<lambda>z. z\<lparr>zv_u := Buffered (addr s (Zv a)) c\<rparr>) (zvals s a))\<rparr>"
| "set_col (Ob h) c s = s\<lparr>objects := (objects s)(h := map_option (\<lambda>b. b\<lparr>so_buffered := Buffered (addr s (Ob h)) c\<rparr>) (objects s h))\<rparr>"

fun add_rc :: "gnode \<Rightarrow> uint \<Rightarrow> zend_gc_globals \<Rightarrow> zend_gc_globals" where
  "add_rc (Zv a) d s = s\<lparr>zvals := (zvals s)(a := map_option (\<lambda>z. z\<lparr>zv_refcount := zv_refcount z + d\<rparr>) (zvals s a))\<rparr>"
| "add_rc (Ob h) d s = s\<lparr>objects := (objects s)(h := map_option (\<lambda>b. b\<lparr>so_refcount := so_refcount b + d\<rparr>) (objects s h))\<rparr>"

text \<open>Everything the passes leave alone.\<close>

definition zv_rest :: "zval_gc_info \<Rightarrow> zv_type" where
  "zv_rest z = zv_type z"

definition so_rest :: "gc_object \<Rightarrow> bool \<times> bool \<times> bool" where
  "so_rest b = (so_valid b, so_destructor_called b, so_dtor b)"

definition gsame :: "zend_gc_globals \<Rightarrow> zend_gc_globals \<Rightarrow> bool" where
  "gsame s s' \<longleftrightarrow> object_buckets_on s' = object_buckets_on s \<and> tables s' = tables s \<and> symbol_table s' = symbol_table s \<and>
     (\<forall>a. map_option zv_rest (zvals s' a) = map_option zv_rest (zvals s a)) \<and>
     (\<forall>h. map_option so_rest (objects s' h) = map_option so_rest (objects s h))"

text \<open>The marking passes make no links, and the symbol table keeps its colour or becomes black.\<close>

definition frame :: "zend_gc_globals \<Rightarrow> zend_gc_globals \<Rightarrow> bool" where
  "frame s s' \<longleftrightarrow> gsame s s' \<and>
     (\<forall>n w. gnode_word s' n = Some w \<longrightarrow> is_free_link w \<longrightarrow> (\<exists>w. gnode_word s n = Some w \<and> is_free_link w)) \<and>
     (\<forall>n \<in> uncounted s. col s' n = col s n \<or> col s' n = GC_BLACK)"

text \<open>The buffer of roots is left alone too.\<close>

definition bframe :: "zend_gc_globals \<Rightarrow> zend_gc_globals \<Rightarrow> bool" where
  "bframe s s' \<longleftrightarrow> s'\<lparr>zvals := Map.empty, objects := Map.empty\<rparr> = s\<lparr>zvals := Map.empty, objects := Map.empty\<rparr> \<and> addr s' = addr s"

lemma bframe_refl [simp]: "bframe s s"
  by (simp add: bframe_def)

lemma bframe_trans: "bframe s s' \<Longrightarrow> bframe s' s'' \<Longrightarrow> bframe s s''"
  by (simp add: bframe_def)

lemma bframe_fields:
  assumes "bframe s s'"
  shows "object_buckets_on s' = object_buckets_on s" "tables s' = tables s" "symbol_table s' = symbol_table s"
    "roots s' = roots s" "slots s' = slots s" "unused s' = unused s" "zval_to_free s' = zval_to_free s"
    "gc_free_list s' = gc_free_list s" "next_to_free s' = next_to_free s" "first_unused s' = first_unused s" "last_unused s' = last_unused s"
    "addr s' = addr s"
proof -
  have "s'\<lparr>zvals := Map.empty, objects := Map.empty\<rparr> = s\<lparr>zvals := Map.empty, objects := Map.empty\<rparr>"
    using assms by (simp add: bframe_def)
  then show "object_buckets_on s' = object_buckets_on s" "tables s' = tables s" "symbol_table s' = symbol_table s"
    "roots s' = roots s" "slots s' = slots s" "unused s' = unused s" "zval_to_free s' = zval_to_free s"
    "gc_free_list s' = gc_free_list s" "next_to_free s' = next_to_free s" "first_unused s' = first_unused s" "last_unused s' = last_unused s"
    by (cases s; cases s'; simp)+
  show "addr s' = addr s" using assms by (simp add: bframe_def)
qed

lemma gsame_fields:
  assumes "gsame s s'"
  shows "object_buckets_on s' = object_buckets_on s" "tables s' = tables s" "symbol_table s' = symbol_table s"
  using assms by (simp_all add: gsame_def)

lemma gsame_zv:
  assumes "gsame s s'"
  shows "zvals s' a = None \<longleftrightarrow> zvals s a = None" "zvals s' a = Some z' \<Longrightarrow> \<exists>z. zvals s a = Some z \<and> zv_type z' = zv_type z"
proof -
  have "map_option zv_rest (zvals s' a) = map_option zv_rest (zvals s a)" using assms by (simp add: gsame_def)
  then show "zvals s' a = None \<longleftrightarrow> zvals s a = None" "zvals s' a = Some z' \<Longrightarrow> \<exists>z. zvals s a = Some z \<and> zv_type z' = zv_type z"
    by (cases "zvals s a"; cases "zvals s' a"; simp add: zv_rest_def)+
qed

lemma gsame_so:
  assumes "gsame s s'"
  shows "objects s' h = None \<longleftrightarrow> objects s h = None" "objects s' h = Some b' \<Longrightarrow> \<exists>b. objects s h = Some b \<and> so_rest b' = so_rest b"
proof -
  have "map_option so_rest (objects s' h) = map_option so_rest (objects s h)" using assms by (simp add: gsame_def)
  then show "objects s' h = None \<longleftrightarrow> objects s h = None" "objects s' h = Some b' \<Longrightarrow> \<exists>b. objects s h = Some b \<and> so_rest b' = so_rest b"
    by (cases "objects s h"; cases "objects s' h"; simp)+
qed

lemma gsame_nodes: "gsame s s' \<Longrightarrow> nodes s' = nodes s"
proof -
  assume f: "gsame s s'"
  have "gnode_word s' n = None \<longleftrightarrow> gnode_word s n = None" for n
    using gsame_zv(1) [OF f] gsame_so(1) [OF f] by (cases n) auto
  then show ?thesis by (auto simp: nodes_def)
qed

lemma gsame_uncounted: "gsame s s' \<Longrightarrow> uncounted s' = uncounted s"
proof -
  assume f: "gsame s s'"
  have "(\<exists>z. zvals s' a = Some z \<and> zv_type z = T) \<longleftrightarrow> (\<exists>z. zvals s a = Some z \<and> zv_type z = T)" for a T
    using gsame_zv [OF f, of a] by (cases "zvals s a"; cases "zvals s' a") auto
  then show ?thesis unfolding uncounted_def gsame_fields(3) [OF f] by auto
qed

lemma object_gc_rest: "so_rest b' = so_rest b \<Longrightarrow> object_gc get_gc ht h b' = object_gc get_gc ht h b"
  by (simp add: object_gc_def so_rest_def)

lemma gsame_kids: "gsame s s' \<Longrightarrow> kids get_gc hnd s' n = kids get_gc hnd s n"
proof -
  assume f: "gsame s s'"
  show ?thesis
  proof (cases n)
    case (Zv a)
    then show ?thesis using gsame_zv [OF f, of a] gsame_fields [OF f]
      by (cases "zvals s a"; cases "zvals s' a") (auto split: zv_type.split)
  next
    case (Ob h)
    have "(case objects s' h of None \<Rightarrow> None | Some b \<Rightarrow> object_gc get_gc (hnd h) h b) =
        (case objects s h of None \<Rightarrow> None | Some b \<Rightarrow> object_gc get_gc (hnd h) h b)"
      using gsame_so [OF f, of h] by (cases "objects s h"; cases "objects s' h") (auto intro: object_gc_rest)
    with Ob show ?thesis using gsame_fields(2) [OF f]
      by (cases "objects s h"; cases "objects s' h") (simp_all split: option.split)
  qed
qed

lemma frame_gsame: "frame s s' \<Longrightarrow> gsame s s'"
  by (simp add: frame_def)

lemmas frame_fields = gsame_fields [OF frame_gsame] and frame_zv = gsame_zv [OF frame_gsame] and frame_so = gsame_so [OF frame_gsame]
  and frame_nodes = gsame_nodes [OF frame_gsame] and frame_uncounted = gsame_uncounted [OF frame_gsame] and frame_kids = gsame_kids [OF frame_gsame]

lemma gsame_refl [simp]: "gsame s s"
  by (simp add: gsame_def)

lemma gsame_trans: "gsame s s' \<Longrightarrow> gsame s' s'' \<Longrightarrow> gsame s s''"
  by (simp add: gsame_def)

lemma frame_refl [simp]: "frame s s"
  by (simp add: frame_def)

lemma frame_trans: "frame s s' \<Longrightarrow> frame s' s'' \<Longrightarrow> frame s s''"
proof -
  assume f: "frame s s'" and g: "frame s' s''"
  have u: "uncounted s' = uncounted s" by (rule frame_uncounted [OF f])
  show ?thesis using f g unfolding frame_def u by (elim conjE, intro conjI) (rule gsame_trans, assumption+, blast, metis)
qed

lemma frame_wf: "frame s s' \<Longrightarrow> gc_wf get_gc hnd s \<Longrightarrow> gc_wf get_gc hnd s'"
proof -
  assume f: "frame s s'" and w: "gc_wf get_gc hnd s"
  have 1: "ht = hnd h" if "zvals s' a = Some z" "zv_type z = IS_OBJECT h ht" for a z h ht
    using frame_zv(2) [OF f that(1)] that(2) w by (auto simp: gc_wf_def)
  have 2: "\<not> is_free_link w'" if "gnode_word s' n = Some w'" for n w'
    using f w that unfolding frame_def gc_wf_def by blast
  have 3: "col s' n \<noteq> GC_GREY \<and> col s' n \<noteq> GC_WHITE" if "n \<in> uncounted s" for n
  proof -
    have "col s' n = col s n \<or> col s' n = GC_BLACK" using f that unfolding frame_def by blast
    moreover have "col s n \<noteq> GC_GREY \<and> col s n \<noteq> GC_WHITE" using w that unfolding gc_wf_def by blast
    ultimately show ?thesis by (elim disjE) simp_all
  qed
  have 4: "object_buckets_on s'" if "objects s' h = Some b" for h b
    using frame_so(2) [OF f that] w unfolding frame_fields(1) [OF f] gc_wf_def by blast
  show ?thesis using w 1 2 3 4 unfolding gc_wf_def frame_nodes [OF f] frame_kids [OF f] frame_uncounted [OF f] by blast
qed

subsection \<open>Reading after an update\<close>

lemma wf_word: "gc_wf get_gc hnd s \<Longrightarrow> n \<in> nodes s \<Longrightarrow> gnode_word s n = Some (Buffered (addr s n) (col s n))"
proof -
  assume w: "gc_wf get_gc hnd s" and n: "n \<in> nodes s"
  then obtain x where x: "gnode_word s n = Some x" by (auto simp: nodes_def)
  then have "\<not> is_free_link x" using w unfolding gc_wf_def by blast
  with x show ?thesis by (cases x) (auto simp: addr_def col_def)
qed

lemma word_set_col: "gnode_word (set_col n c s) m = (if m = n \<and> n \<in> nodes s then Some (Buffered (addr s n) c) else gnode_word s m)"
  by (cases n; cases m) (auto simp: nodes_def split: option.split)

lemma word_add_rc [gc_simps]: "gnode_word (add_rc n d s) m = gnode_word s m"
  by (cases n; cases m) (auto split: option.split simp: option.map_comp comp_def)

lemma col_set_col [gc_simps]: "n \<in> nodes s \<Longrightarrow> col (set_col n c s) = (col s)(n := c)"
  by (auto simp: col_def word_set_col)

lemma addr_set_col [gc_simps]: "addr (set_col n c s) = addr s"
  by (auto simp: addr_def word_set_col fun_eq_iff)

lemma rc_set_col [gc_simps]: "rc (set_col n c s) = rc s"
proof
  fix m show "rc (set_col n c s) m = rc s m" by (cases n; cases m) (auto split: option.split)
qed

lemma rc_add_rc [gc_simps]: "n \<in> nodes s \<Longrightarrow> rc (add_rc n d s) = (rc s)(n := rc s n + d)"
proof
  fix m assume "n \<in> nodes s" then show "rc (add_rc n d s) m = ((rc s)(n := rc s n + d)) m"
    by (cases n; cases m) (auto simp: nodes_def split: option.split)
qed

lemma col_add_rc [gc_simps]: "col (add_rc n d s) = col s" "addr (add_rc n d s) = addr s"
  by (auto simp: col_def addr_def word_add_rc fun_eq_iff)

lemma frame_set_col: "(n \<in> uncounted s \<Longrightarrow> c = GC_BLACK) \<Longrightarrow> frame s (set_col n c s)"
proof -
  assume c: "n \<in> uncounted s \<Longrightarrow> c = GC_BLACK"
  have "map_option zv_rest (map_option (\<lambda>z. z\<lparr>zv_u := w\<rparr>) x) = map_option zv_rest x" for x w
    by (cases x) (simp_all add: zv_rest_def)
  moreover have "map_option so_rest (map_option (\<lambda>b. b\<lparr>so_buffered := w\<rparr>) x) = map_option so_rest x" for x w
    by (cases x) (simp_all add: so_rest_def)
  moreover have "col (set_col n c s) m = col s m \<or> col (set_col n c s) m = GC_BLACK" if "m \<in> uncounted s" for m
    using c that by (auto simp: col_def word_set_col)
  ultimately show ?thesis unfolding frame_def gsame_def word_set_col by (cases n) (auto split: if_splits)
qed

lemma frame_add_rc: "frame s (add_rc n d s)"
proof -
  have "map_option zv_rest (map_option (\<lambda>z. z\<lparr>zv_refcount := zv_refcount z + d\<rparr>) x) = map_option zv_rest x" for x
    by (cases x) (simp_all add: zv_rest_def)
  moreover have "map_option so_rest (map_option (\<lambda>b. b\<lparr>so_refcount := so_refcount b + d\<rparr>) x) = map_option so_rest x" for x
    by (cases x) (simp_all add: so_rest_def)
  ultimately show ?thesis unfolding frame_def gsame_def word_add_rc col_add_rc by (cases n) auto
qed

lemma bframe_set_col: "bframe s (set_col n c s)"
  unfolding bframe_def addr_set_col by (cases n) simp_all

lemma bframe_add_rc: "bframe s (add_rc n d s)"
  unfolding bframe_def col_add_rc by (cases n) simp_all

end
