(* ===== verification/Zend_Gc_Trace.thy ===== *)
theory Zend_Gc_Trace
  imports Zend_Gc_Graph
begin

text \<open>
  The two passes that colour a graph, \<open>mark_grey\<close> and \<open>scan_black\<close>, as visits of nodes and runs over
  edges, and what a run of such a pass does: it ends, it colours exactly what it reaches through
  nodes that did not have the colour, and it changes the count of a node by the number of edges it
  passed into it.
\<close>

subsection \<open>Nodes and edges\<close>

fun add_ref :: "uint \<Rightarrow> gnode \<Rightarrow> zend_gc_globals \<Rightarrow> zend_gc_globals option" where
  "add_ref d (Zv a) s = zval_add_ref a d s"
| "add_ref d (Ob h) s = obj_add_ref h d s"

text \<open>A run over a list of edges.\<close>

primrec edges :: "uint \<Rightarrow> (gnode \<Rightarrow> zend_gc_globals \<Rightarrow> zend_gc_globals option) \<Rightarrow> gnode list \<Rightarrow> zend_gc_globals \<Rightarrow> zend_gc_globals option" where
  "edges d visit [] s = Some s"
| "edges d visit (n # ns) s = do { s \<leftarrow> add_ref d n s; s \<leftarrow> visit n s; edges d visit ns s }"

lemma edges_append: "edges d visit (xs @ ys) s = do { s \<leftarrow> edges d visit xs s; edges d visit ys s }"
  by (induction xs arbitrary: s) (simp_all add: Option.bind_assoc)

lemma edges_Nil [simp]: "edges d visit [] = Some"
  by (rule ext) simp

fun mark_node :: "get_gc \<Rightarrow> (nat \<Rightarrow> nat) \<Rightarrow> gnode \<Rightarrow> zend_gc_globals \<Rightarrow> zend_gc_globals option" where
  "mark_node get_gc hnd (Zv a) s = zval_mark_grey get_gc a s"
| "mark_node get_gc hnd (Ob h) s = zobj_mark_grey get_gc (hnd h) h s"

text \<open>The loops of \<open>zval_scan_black\<close> leave out the children that are black.\<close>

fun black_node :: "get_gc \<Rightarrow> (nat \<Rightarrow> nat) \<Rightarrow> gnode \<Rightarrow> zend_gc_globals \<Rightarrow> zend_gc_globals option" where
  "black_node get_gc hnd (Zv a) s = do { z \<leftarrow> zvals s a; if GC_GET_COLOR (zv_u z) = GC_BLACK then Some s else zval_scan_black get_gc a s }"
| "black_node get_gc hnd (Ob h) s =
     do { b \<leftarrow> objects s h; if GC_GET_COLOR (so_buffered b) = GC_BLACK then Some s else zobj_scan_black get_gc (hnd h) h s }"

lemma mark_grey_edges: "mark_grey get_gc (Zvals ps) s = edges (- 1) (mark_node get_gc hnd) (map Zv ps) s"
proof (induction ps arbitrary: s)
  case (Cons p ps)
  have "mark_grey get_gc (Zvals ps) = edges (- 1) (mark_node get_gc hnd) (map Zv ps)" by (rule ext) (rule Cons)
  then show ?case by (subst mark_grey.simps) (simp add: zval_mark_grey_def)
qed (simp add: mark_grey.simps)

lemma scan_black_edges: "scan_black get_gc (Zvals ps) s = edges 1 (black_node get_gc hnd) (map Zv ps) s"
proof (induction ps arbitrary: s)
  case (Cons p ps)
  have "scan_black get_gc (Zvals ps) = edges 1 (black_node get_gc hnd) (map Zv ps)" by (rule ext) (rule Cons)
  then show ?case unfolding list.map edges.simps black_node.simps zval_scan_black_def
    by (subst scan_black.simps) (simp add: Option.bind_assoc)
qed (simp add: scan_black.simps)

subsection \<open>The tables are only read\<close>

text \<open>A computation that ends with the given tables; the rules follow the structure of the functions.\<close>

definition keeps :: "(nat \<Rightarrow> nat list) \<Rightarrow> zend_gc_globals option \<Rightarrow> bool" where
  "keeps t m \<longleftrightarrow> (\<forall>s. m = Some s \<longrightarrow> tables s = t)"

lemma keeps_Some: "tables s = t \<Longrightarrow> keeps t (Some s)"
  by (simp add: keeps_def)

lemma keeps_None: "keeps t None"
  by (simp add: keeps_def)

lemma keeps_state: "keeps t m \<Longrightarrow> (\<And>s. tables s = t \<Longrightarrow> keeps t (f s)) \<Longrightarrow> keeps t (m \<bind> f)"
  unfolding keeps_def bind_eq_Some_conv by blast

lemma keeps_bind: "(\<And>x. keeps t (f x)) \<Longrightarrow> keeps t (m \<bind> f)"
  by (cases m) (auto simp: keeps_def)

lemma keeps_if: "(b \<Longrightarrow> keeps t m) \<Longrightarrow> (\<not> b \<Longrightarrow> keeps t m') \<Longrightarrow> keeps t (if b then m else m')"
  by simp

lemma keeps_option: "keeps t m \<Longrightarrow> (\<And>x. keeps t (f x)) \<Longrightarrow> keeps t (case y of None \<Rightarrow> m | Some x \<Rightarrow> f x)"
  by (cases y) simp_all

lemma keeps_prod: "(\<And>x y. keeps t (f x y)) \<Longrightarrow> keeps t (case p of (x, y) \<Rightarrow> f x y)"
  by (cases p) simp

lemma keeps_list: "keeps t m \<Longrightarrow> (\<And>x xs. keeps t (f x xs)) \<Longrightarrow> keeps t (case l of [] \<Rightarrow> m | x # xs \<Rightarrow> f x xs)"
  by (cases l) simp_all

lemma keeps_call: "(\<And>x. keeps t (f x)) \<Longrightarrow> (\<And>xs. keeps t (g xs)) \<Longrightarrow> keeps t (case c of Zval x \<Rightarrow> f x | Zvals xs \<Rightarrow> g xs)"
  by (cases c) simp_all

lemma keeps_type:
  "(\<And>x. keeps t (f x)) \<Longrightarrow> (\<And>h k. keeps t (g h k)) \<Longrightarrow> keeps t m \<Longrightarrow> keeps t m' \<Longrightarrow>
   keeps t (case y of IS_ARRAY x \<Rightarrow> f x | IS_OBJECT h k \<Rightarrow> g h k | IS_OTHER \<Rightarrow> m | IS_NULL \<Rightarrow> m')"
  by (cases y) simp_all

lemma keeps_upd: "tables s = t \<Longrightarrow> keeps t (zv_upd a f s)" "tables s = t \<Longrightarrow> keeps t (so_upd h g s)"
  by (auto simp: keeps_def zv_upd_def so_upd_def bind_eq_Some_conv)

lemma keeps_set:
  "tables s = t \<Longrightarrow> keeps t (GC_ZVAL_SET_COLOR a c s)" "tables s = t \<Longrightarrow> keeps t (obj_set_color h c s)"
  "tables s = t \<Longrightarrow> keeps t (obj_add_ref h d s)" "tables s = t \<Longrightarrow> keeps t (zval_add_ref a d s)"
  by (simp_all add: GC_ZVAL_SET_COLOR_def obj_set_color_def obj_add_ref_def zval_add_ref_def keeps_upd)

lemmas keeps_intros = keeps_upd keeps_set keeps_Some keeps_None keeps_state keeps_bind keeps_if keeps_option keeps_prod keeps_list keeps_call keeps_type

lemma keepsD: "keeps t m \<Longrightarrow> m = Some s \<Longrightarrow> tables s = t"
  by (simp add: keeps_def)

lemma mark_grey_tables: "mark_grey get_gc call s = Some s' \<Longrightarrow> tables s' = tables s"
proof (rule mark_grey.raw_induct [where P = "\<lambda>_ _ s s'. tables s' = tables s"], goal_cases)
  case (1 f get_gc call s s')
  have f: "keeps t (f get_gc call s)" if "tables s = t" for get_gc call s t using 1(2) that by (auto simp: keeps_def)
  show ?case by (rule keepsD [OF _ 1(3)]) (intro f keeps_intros; simp)
qed

lemma scan_black_tables: "scan_black get_gc call s = Some s' \<Longrightarrow> tables s' = tables s"
proof (rule scan_black.raw_induct [where P = "\<lambda>_ _ s s'. tables s' = tables s"], goal_cases)
  case (1 f get_gc call s s')
  have f: "keeps t (f get_gc call s)" if "tables s = t" for get_gc call s t using 1(2) that by (auto simp: keeps_def)
  show ?case by (rule keepsD [OF _ 1(3)]) (intro f keeps_intros; simp)
qed

text \<open>The two runs of a pass over the vector and the table of an object's properties.\<close>

lemma mark_grey_object:
  "(case x of None \<Rightarrow> Some s | Some (table, props) \<Rightarrow> do {
      s \<leftarrow> mark_grey get_gc (Zvals table) s;
      (case props of None \<Rightarrow> Some s | Some t \<Rightarrow> mark_grey get_gc (Zvals (tables s t)) s) }) =
   edges (- 1) (mark_node get_gc hnd)
     (case x of None \<Rightarrow> [] | Some (table, props) \<Rightarrow> map Zv (table @ (case props of None \<Rightarrow> [] | Some t \<Rightarrow> tables s t))) s"
proof -
  have "(do { s' \<leftarrow> mark_grey get_gc (Zvals table) s; mark_grey get_gc (Zvals (tables s' t)) s' }) =
        (do { s' \<leftarrow> mark_grey get_gc (Zvals table) s; mark_grey get_gc (Zvals (tables s t)) s' })" for table t
    by (cases "mark_grey get_gc (Zvals table) s") (simp_all add: mark_grey_tables)
  then show ?thesis by (simp add: edges_append mark_grey_edges [where hnd = hnd] split: option.split)
qed

lemma scan_black_object:
  "(case x of None \<Rightarrow> Some s | Some (table, props) \<Rightarrow> do {
      s \<leftarrow> scan_black get_gc (Zvals table) s;
      (case props of None \<Rightarrow> Some s | Some t \<Rightarrow> scan_black get_gc (Zvals (tables s t)) s) }) =
   edges 1 (black_node get_gc hnd)
     (case x of None \<Rightarrow> [] | Some (table, props) \<Rightarrow> map Zv (table @ (case props of None \<Rightarrow> [] | Some t \<Rightarrow> tables s t))) s"
proof -
  have "(do { s' \<leftarrow> scan_black get_gc (Zvals table) s; scan_black get_gc (Zvals (tables s' t)) s' }) =
        (do { s' \<leftarrow> scan_black get_gc (Zvals table) s; scan_black get_gc (Zvals (tables s t)) s' })" for table t
    by (cases "scan_black get_gc (Zvals table) s") (simp_all add: scan_black_tables)
  then show ?thesis by (simp add: edges_append scan_black_edges [where hnd = hnd] split: option.split)
qed

subsection \<open>A visit\<close>

lemma set_color_node:
  assumes "gc_wf get_gc hnd s"
  shows "Zv a \<in> nodes s \<Longrightarrow> GC_ZVAL_SET_COLOR a c s = Some (set_col (Zv a) c s)"
    and "Ob h \<in> nodes s \<Longrightarrow> obj_set_color h c s = Some (set_col (Ob h) c s)"
proof -
  assume n: "Zv a \<in> nodes s"
  then show "GC_ZVAL_SET_COLOR a c s = Some (set_col (Zv a) c s)"
    using wf_word [OF assms n] by (auto simp: GC_ZVAL_SET_COLOR_def zv_upd_def nodes_def)
next
  assume n: "Ob h \<in> nodes s"
  then show "obj_set_color h c s = Some (set_col (Ob h) c s)"
    using wf_word [OF assms n] by (auto simp: obj_set_color_def so_upd_def nodes_def)
qed

lemma add_ref_node: "n \<in> nodes s \<Longrightarrow> add_ref d n s = Some (if n \<in> uncounted s then s else add_rc n d s)"
  by (cases n) (auto simp: zval_add_ref_def obj_add_ref_def zv_upd_def so_upd_def nodes_def uncounted_def fun_upd_idem)

lemma set_col_same: "gc_wf get_gc hnd s \<Longrightarrow> n \<in> nodes s \<Longrightarrow> col s n = c \<Longrightarrow> set_col n c s = s"
  using wf_word [of get_gc hnd s n] by (cases n) (auto simp: nodes_def fun_upd_idem)

lemma set_col_twice: "set_col n c' (set_col n c s) = set_col n c' s"
  using addr_set_col [of n c s] by (cases n) (simp_all add: option.map_comp comp_def)

text \<open>The colour that a pass to the colour \<open>c\<close> leaves at a node: the symbol table stays black.\<close>

definition fin :: "gc_colour \<Rightarrow> zend_gc_globals \<Rightarrow> gnode \<Rightarrow> gc_colour" where
  "fin c s n = (if n \<in> uncounted s then GC_BLACK else c)"

lemma frame_fin: "frame s s' \<Longrightarrow> fin c s' = fin c s"
  by (simp add: fin_def frame_uncounted fun_eq_iff)

lemma frame_fin_col: "frame s (set_col n (fin c s n) s)"
  by (rule frame_set_col) (simp add: fin_def)

lemma node_zv: "gc_wf get_gc hnd s \<Longrightarrow> Zv a \<in> nodes s \<Longrightarrow>
    \<exists>z. zvals s a = Some z \<and> zv_u z = Buffered (addr s (Zv a)) (col s (Zv a)) \<and> (Zv a \<in> uncounted s \<longleftrightarrow> zv_type z = IS_ARRAY (symbol_table s))"
  using wf_word [of get_gc hnd s "Zv a"] by (auto simp: uncounted_def)

lemma node_ob: "gc_wf get_gc hnd s \<Longrightarrow> Ob h \<in> nodes s \<Longrightarrow>
    \<exists>b. objects s h = Some b \<and> so_buffered b = Buffered (addr s (Ob h)) (col s (Ob h)) \<and> Ob h \<notin> uncounted s"
  using wf_word [of get_gc hnd s "Ob h"] by (auto simp: uncounted_def)

lemma mark_node_step:
  assumes w: "gc_wf get_gc hnd s" and n: "n \<in> nodes s"
  shows "mark_node get_gc hnd n s =
    (if col s n = fin GC_GREY s n then Some s
     else edges (- 1) (mark_node get_gc hnd) (kids get_gc hnd s n) (set_col n (fin GC_GREY s n) s))"
proof (cases n)
  case (Zv a)
  obtain z where z: "zvals s a = Some z" "zv_u z = Buffered (addr s (Zv a)) (col s (Zv a))"
      "Zv a \<in> uncounted s \<longleftrightarrow> zv_type z = IS_ARRAY (symbol_table s)"
    using node_zv [OF w] n Zv by blast
  have g: "col s (Zv a) = GC_GREY \<Longrightarrow> Zv a \<notin> uncounted s" using w unfolding gc_wf_def by blast
  let ?s = "set_col (Zv a) GC_GREY s"
  have c: "GC_ZVAL_SET_COLOR a GC_GREY s = Some ?s" using set_color_node(1) [OF w] n Zv by simp
  have b: "zv_type z = IS_ARRAY (symbol_table s) \<Longrightarrow> GC_ZVAL_SET_COLOR a GC_BLACK ?s = Some (set_col (Zv a) GC_BLACK s)"
    using z(1) by (simp add: GC_ZVAL_SET_COLOR_def zv_upd_def)
  have h: "zv_type z = IS_OBJECT k ht \<Longrightarrow> ht = hnd k" for k ht using w z(1) unfolding gc_wf_def by blast
  have same: "col s (Zv a) = GC_BLACK \<Longrightarrow> set_col (Zv a) GC_BLACK s = s" using set_col_same [OF w n] Zv by simp
  show ?thesis
  proof (cases "zv_type z")
    case (IS_ARRAY t)
    show ?thesis
    proof (cases "t = symbol_table s")
      case True
      then have "col s (Zv a) \<noteq> GC_GREY" using g z(3) IS_ARRAY by auto
      then have "mark_node get_gc hnd (Zv a) s = Some (set_col (Zv a) GC_BLACK s)"
        unfolding mark_node.simps zval_mark_grey_def using z IS_ARRAY True b c by (subst mark_grey.simps) simp
      moreover have "kids get_gc hnd s (Zv a) = []" "fin GC_GREY s (Zv a) = GC_BLACK" using z IS_ARRAY True by (simp_all add: fin_def)
      ultimately show ?thesis using same by (simp only: Zv edges.simps split: if_split) blast
    next
      case False
      then show ?thesis unfolding Zv mark_node.simps zval_mark_grey_def fin_def using z IS_ARRAY c
        by (subst mark_grey.simps) (simp add: mark_grey_edges [where hnd = hnd])
    qed
  next
    case (IS_OBJECT k ht)
    show ?thesis unfolding Zv mark_node.simps zval_mark_grey_def fin_def using z IS_OBJECT h [OF IS_OBJECT] c
      by (subst mark_grey.simps) (simp add: zobj_mark_grey_def)
  next
    case IS_OTHER
    then show ?thesis unfolding Zv mark_node.simps zval_mark_grey_def fin_def using z c by (subst mark_grey.simps) simp
  next
    case IS_NULL
    then show ?thesis unfolding Zv mark_node.simps zval_mark_grey_def fin_def using z c by (subst mark_grey.simps) simp
  qed
next
  case (Ob h)
  obtain b where b: "objects s h = Some b" "so_buffered b = Buffered (addr s (Ob h)) (col s (Ob h))" "Ob h \<notin> uncounted s"
    using node_ob [OF w] n Ob by blast
  have c: "obj_set_color h GC_GREY s = Some (set_col (Ob h) GC_GREY s)" using set_color_node(2) [OF w] n Ob by simp
  show ?thesis unfolding Ob mark_node.simps zobj_mark_grey_def fin_def mark_grey_object [where hnd = hnd]
    using b c by (simp split: option.split)
qed

lemma black_node_step:
  assumes w: "gc_wf get_gc hnd s" and n: "n \<in> nodes s"
  shows "black_node get_gc hnd n s =
    (if col s n = fin GC_BLACK s n then Some s
     else edges 1 (black_node get_gc hnd) (kids get_gc hnd s n) (set_col n (fin GC_BLACK s n) s))"
proof (cases n)
  case (Zv a)
  obtain z where z: "zvals s a = Some z" "zv_u z = Buffered (addr s (Zv a)) (col s (Zv a))"
      "Zv a \<in> uncounted s \<longleftrightarrow> zv_type z = IS_ARRAY (symbol_table s)"
    using node_zv [OF w] n Zv by blast
  have c: "GC_ZVAL_SET_COLOR a GC_BLACK s = Some (set_col (Zv a) GC_BLACK s)" using set_color_node(1) [OF w] n Zv by simp
  have h: "zv_type z = IS_OBJECT k ht \<Longrightarrow> ht = hnd k" for k ht using w z(1) unfolding gc_wf_def by blast
  have f: "fin GC_BLACK s (Zv a) = GC_BLACK" by (simp add: fin_def)
  have "scan_black get_gc (Zval a) s = edges 1 (black_node get_gc hnd) (kids get_gc hnd s (Zv a)) (set_col (Zv a) GC_BLACK s)"
  proof (cases "zv_type z")
    case (IS_ARRAY t)
    then show ?thesis using z c by (subst scan_black.simps) (simp add: scan_black_edges [where hnd = hnd])
  next
    case (IS_OBJECT k ht)
    have ob: "black_node get_gc hnd (Ob k) s' =
        do { b \<leftarrow> objects s' k; if GC_GET_COLOR (so_buffered b) = GC_BLACK then Some s' else do {
          s' \<leftarrow> obj_set_color k GC_BLACK s';
          (case object_gc get_gc ht k b of None \<Rightarrow> Some s' | Some (table, props) \<Rightarrow> do {
             s' \<leftarrow> scan_black get_gc (Zvals table) s';
             (case props of None \<Rightarrow> Some s' | Some t \<Rightarrow> scan_black get_gc (Zvals (tables s' t)) s') }) } }" for s'
      by (cases "objects s' k") (simp_all add: zobj_scan_black_def h [OF IS_OBJECT])
    show ?thesis using z IS_OBJECT c by (subst scan_black.simps) (simp add: ob del: black_node.simps)
  qed (subst scan_black.simps, use z c in simp)+
  then show ?thesis using z c by (simp add: Zv f zval_scan_black_def)
next
  case (Ob h)
  obtain b where b: "objects s h = Some b" "so_buffered b = Buffered (addr s (Ob h)) (col s (Ob h))" "Ob h \<notin> uncounted s"
    using node_ob [OF w] n Ob by blast
  have c: "obj_set_color h GC_BLACK s = Some (set_col (Ob h) GC_BLACK s)" using set_color_node(2) [OF w] n Ob by simp
  show ?thesis unfolding Ob black_node.simps zobj_scan_black_def fin_def scan_black_object [where hnd = hnd]
    using b c by (simp split: option.split)
qed


subsection \<open>What a colouring pass does\<close>

definition edge_rel :: "get_gc \<Rightarrow> (nat \<Rightarrow> nat) \<Rightarrow> zend_gc_globals \<Rightarrow> (gnode \<times> gnode) set" where
  "edge_rel get_gc hnd s = {(x, y). y \<in> set (kids get_gc hnd s x)}"

text \<open>The nodes reached from a set, and the number of edges from a set into a node.\<close>

definition reach :: "get_gc \<Rightarrow> (nat \<Rightarrow> nat) \<Rightarrow> zend_gc_globals \<Rightarrow> gnode set \<Rightarrow> gnode set" where
  "reach get_gc hnd s X = (edge_rel get_gc hnd s)\<^sup>* `` X"

definition crossing :: "get_gc \<Rightarrow> (nat \<Rightarrow> nat) \<Rightarrow> zend_gc_globals \<Rightarrow> gnode set \<Rightarrow> gnode \<Rightarrow> nat" where
  "crossing get_gc hnd s A x = (\<Sum>n\<in>A. count_list (kids get_gc hnd s n) x)"

definition painted :: "gc_colour \<Rightarrow> zend_gc_globals \<Rightarrow> zend_gc_globals \<Rightarrow> gnode set" where
  "painted c s s' = {n \<in> nodes s. col s n \<noteq> fin c s n \<and> col s' n = fin c s n}"

text \<open>
  From \<open>s\<close> to \<open>s'\<close> a pass with the colour \<open>c\<close> and the step \<open>d\<close> of the counts has visited the nodes \<open>X\<close>
  and counted the edges to \<open>Y\<close>.
\<close>

definition traced :: "get_gc \<Rightarrow> (nat \<Rightarrow> nat) \<Rightarrow> gc_colour \<Rightarrow> uint \<Rightarrow> gnode list \<Rightarrow> gnode list \<Rightarrow> zend_gc_globals \<Rightarrow> zend_gc_globals \<Rightarrow> bool" where
  "traced get_gc hnd c d X Y s s' \<longleftrightarrow> frame s s' \<and>
     (\<forall>n. col s' n = col s n \<or> col s' n = fin c s n) \<and>
     (\<forall>x \<in> set X. col s' x = fin c s x) \<and>
     (\<forall>n \<in> painted c s s'. \<forall>k \<in> set (kids get_gc hnd s n). col s' k = fin c s k) \<and>
     painted c s s' \<subseteq> reach get_gc hnd s (set X) \<and>
     (\<forall>x. rc s' x = rc s x + (if x \<in> uncounted s \<or> x \<notin> nodes s then 0
        else d * of_nat (count_list Y x + crossing get_gc hnd s (painted c s s') x)))"

lemma reach_mono: "X \<subseteq> Y \<Longrightarrow> reach get_gc hnd s X \<subseteq> reach get_gc hnd s Y"
  unfolding reach_def by blast

lemma reach_self: "X \<subseteq> reach get_gc hnd s X"
  unfolding reach_def by blast

lemma reach_kids: "n \<in> reach get_gc hnd s X \<Longrightarrow> k \<in> set (kids get_gc hnd s n) \<Longrightarrow> k \<in> reach get_gc hnd s X"
  unfolding reach_def edge_rel_def by (auto intro: rtrancl_into_rtrancl)

lemma reach_of_kids: "reach get_gc hnd s (set (kids get_gc hnd s n)) \<subseteq> reach get_gc hnd s {n}"
  unfolding reach_def edge_rel_def by (auto intro: converse_rtrancl_into_rtrancl)

lemma reach_closed:
  assumes "X \<subseteq> A" "\<And>n k. n \<in> A \<Longrightarrow> k \<in> set (kids get_gc hnd s n) \<Longrightarrow> k \<in> A"
  shows "reach get_gc hnd s X \<subseteq> A"
proof
  fix y assume "y \<in> reach get_gc hnd s X"
  then obtain x where "x \<in> X" "(x, y) \<in> (edge_rel get_gc hnd s)\<^sup>*" unfolding reach_def by blast
  from this(2,1) show "y \<in> A" by (induction) (use assms in \<open>auto simp: edge_rel_def\<close>)
qed

lemma reach_nodes: "gc_wf get_gc hnd s \<Longrightarrow> X \<subseteq> nodes s \<Longrightarrow> reach get_gc hnd s X \<subseteq> nodes s"
  by (rule reach_closed) (auto simp: gc_wf_def)

lemma gsame_reach: "gsame s s' \<Longrightarrow> reach get_gc hnd s' X = reach get_gc hnd s X"
  by (simp add: reach_def edge_rel_def gsame_kids)

lemma gsame_crossing: "gsame s s' \<Longrightarrow> crossing get_gc hnd s' = crossing get_gc hnd s"
  by (simp add: crossing_def gsame_kids fun_eq_iff)

lemmas frame_reach = gsame_reach [OF frame_gsame] and frame_crossing = gsame_crossing [OF frame_gsame]

lemma crossing_Un: "finite A \<Longrightarrow> finite B \<Longrightarrow> A \<inter> B = {} \<Longrightarrow> crossing get_gc hnd s (A \<union> B) x = crossing get_gc hnd s A x + crossing get_gc hnd s B x"
  by (simp add: crossing_def sum.union_disjoint)

lemma crossing_insert: "finite A \<Longrightarrow> n \<notin> A \<Longrightarrow> crossing get_gc hnd s (insert n A) x = count_list (kids get_gc hnd s n) x + crossing get_gc hnd s A x"
  by (simp add: crossing_def)

lemma finite_painted: "gc_wf get_gc hnd s \<Longrightarrow> finite (painted c s s')"
  by (simp add: painted_def gc_wf_def)

lemma traced_none: "\<forall>x \<in> set X. col s x = fin c s x \<Longrightarrow> traced get_gc hnd c d X [] s s"
  by (simp add: traced_def painted_def crossing_def)

lemma traced_add_ref: "n \<in> nodes s \<Longrightarrow> add_ref d n s = Some s' \<Longrightarrow> traced get_gc hnd c d [] [n] s s'"
  by (auto simp: add_ref_node traced_def painted_def crossing_def gc_simps frame_add_rc split: if_splits)

lemma traced_append:
  assumes w: "gc_wf get_gc hnd s" and t: "traced get_gc hnd c d X Y s s'" and t': "traced get_gc hnd c d X' Y' s' s''"
  shows "traced get_gc hnd c d (X @ X') (Y @ Y') s s''"
proof -
  have f: "frame s s'" and f': "frame s' s''" using t t' by (simp_all add: traced_def)
  note eqs = frame_fin [OF f] frame_nodes [OF f] frame_reach [OF f] frame_crossing [OF f] frame_uncounted [OF f] frame_kids [OF f]
  have t1: "\<forall>n. col s' n = col s n \<or> col s' n = fin c s n" "\<forall>x \<in> set X. col s' x = fin c s x"
      "\<forall>n \<in> painted c s s'. \<forall>k \<in> set (kids get_gc hnd s n). col s' k = fin c s k"
      "painted c s s' \<subseteq> reach get_gc hnd s (set X)"
      "\<forall>x. rc s' x = rc s x + (if x \<in> uncounted s \<or> x \<notin> nodes s then 0 else d * of_nat (count_list Y x + crossing get_gc hnd s (painted c s s') x))"
    using t unfolding traced_def by blast+
  have t2: "\<forall>n. col s'' n = col s' n \<or> col s'' n = fin c s n" "\<forall>x \<in> set X'. col s'' x = fin c s x"
      "\<forall>n \<in> painted c s' s''. \<forall>k \<in> set (kids get_gc hnd s n). col s'' k = fin c s k"
      "painted c s' s'' \<subseteq> reach get_gc hnd s (set X')"
      "\<forall>x. rc s'' x = rc s' x + (if x \<in> uncounted s \<or> x \<notin> nodes s then 0 else d * of_nat (count_list Y' x + crossing get_gc hnd s (painted c s' s'') x))"
    using t' unfolding traced_def eqs by blast+
  have P: "painted c s s'' = painted c s s' \<union> painted c s' s''" "painted c s s' \<inter> painted c s' s'' = {}"
    using t1(1) t2(1) unfolding painted_def eqs by auto metis+
  have fin: "finite (painted c s s')" "finite (painted c s' s'')"
    using finite_painted [OF w] finite_painted [OF frame_wf [OF f w]] by auto
  have m: "col s' x = fin c s x \<Longrightarrow> col s'' x = fin c s x" for x using t2(1) by metis
  show ?thesis unfolding traced_def P(1) crossing_Un [OF fin P(2)]
  proof (intro conjI)
    show "\<forall>n. col s'' n = col s n \<or> col s'' n = fin c s n" using t1(1) t2(1) by metis
    show "\<forall>x \<in> set (X @ X'). col s'' x = fin c s x" using t1(2) t2(2) m by auto
    show "\<forall>n\<in>painted c s s' \<union> painted c s' s''. \<forall>k\<in>set (kids get_gc hnd s n). col s'' k = fin c s k" using t1(3) t2(3) m by blast
    show "painted c s s' \<union> painted c s' s'' \<subseteq> reach get_gc hnd s (set (X @ X'))"
      using t1(4) t2(4) reach_mono [of "set X" "set (X @ X')"] reach_mono [of "set X'" "set (X @ X')"] by fastforce
    show "\<forall>x. rc s'' x = rc s x + (if x \<in> uncounted s \<or> x \<notin> nodes s then 0 else d * of_nat (count_list (Y @ Y') x +
        (crossing get_gc hnd s (painted c s s') x + crossing get_gc hnd s (painted c s' s'') x)))"
      using t1(5) t2(5) by (simp add: distrib_left)
  qed (use f f' in \<open>rule frame_trans\<close>)
qed

lemma traced_paint:
  assumes w: "gc_wf get_gc hnd s" and n: "n \<in> nodes s" "col s n \<noteq> fin c s n"
    and t: "traced get_gc hnd c d (kids get_gc hnd s n) (kids get_gc hnd s n) (set_col n (fin c s n) s) s'"
  shows "traced get_gc hnd c d [n] [] s s'"
proof -
  let ?s = "set_col n (fin c s n) s" and ?K = "kids get_gc hnd s n"
  have f: "frame s ?s" by (rule frame_fin_col)
  note eqs = frame_fin [OF f] frame_nodes [OF f] frame_reach [OF f] frame_crossing [OF f] frame_uncounted [OF f] frame_kids [OF f]
  have c: "col ?s = (col s)(n := fin c s n)" and r: "rc ?s = rc s" using n by (simp_all add: gc_simps)
  have f': "frame ?s s'" using t by (simp add: traced_def)
  have t': "\<forall>m. col s' m = col ?s m \<or> col s' m = fin c s m" "\<forall>x \<in> set ?K. col s' x = fin c s x"
      "\<forall>n \<in> painted c ?s s'. \<forall>k \<in> set (kids get_gc hnd s n). col s' k = fin c s k"
      "painted c ?s s' \<subseteq> reach get_gc hnd s (set ?K)"
      "\<forall>x. rc s' x = rc s x + (if x \<in> uncounted s \<or> x \<notin> nodes s then 0 else d * of_nat (count_list ?K x + crossing get_gc hnd s (painted c ?s s') x))"
    using t unfolding traced_def eqs r by blast+
  have cn: "col s' n = fin c s n" using t'(1) [rule_format, of n] unfolding c by auto
  have P: "painted c s s' = insert n (painted c ?s s')" "n \<notin> painted c ?s s'"
    using cn n by (auto simp: painted_def eqs c)
  have fin: "finite (painted c ?s s')" using finite_painted [OF frame_wf [OF f w]] .
  show ?thesis unfolding traced_def P(1) crossing_insert [OF fin P(2)]
  proof (intro conjI)
    show "\<forall>m. col s' m = col s m \<or> col s' m = fin c s m" using t'(1) cn unfolding c by (metis fun_upd_other)
    show "\<forall>x \<in> set [n]. col s' x = fin c s x" using cn by simp
    show "\<forall>m \<in> insert n (painted c ?s s'). \<forall>k\<in>set (kids get_gc hnd s m). col s' k = fin c s k" using t'(2,3) by blast
    show "insert n (painted c ?s s') \<subseteq> reach get_gc hnd s (set [n])"
      using t'(4) reach_of_kids [of get_gc hnd s n] reach_self [of "{n}"] by fastforce
  qed (use f f' frame_trans t'(5) in auto)
qed

definition uncoloured :: "gc_colour \<Rightarrow> zend_gc_globals \<Rightarrow> gnode set" where
  "uncoloured c s = {n \<in> nodes s. col s n \<noteq> fin c s n}"

lemma uncoloured_traced: "traced get_gc hnd c d X Y s s' \<Longrightarrow> uncoloured c s' \<subseteq> uncoloured c s"
proof -
  assume t: "traced get_gc hnd c d X Y s s'"
  then have f: "frame s s'" and m: "\<forall>n. col s' n = col s n \<or> col s' n = fin c s n" by (simp_all add: traced_def)
  show ?thesis
  proof
    fix n assume "n \<in> uncoloured c s'"
    then have n: "n \<in> nodes s" "col s' n \<noteq> fin c s n" by (simp_all add: uncoloured_def frame_nodes [OF f] frame_fin [OF f])
    then have "col s' n = col s n" using m by blast
    with n show "n \<in> uncoloured c s" by (simp add: uncoloured_def)
  qed
qed

lemma uncoloured_paint: "n \<in> nodes s \<Longrightarrow> uncoloured c (set_col n (fin c s n) s) = uncoloured c s - {n}"
  using frame_nodes [OF frame_fin_col] frame_fin [OF frame_fin_col] by (auto simp: uncoloured_def gc_simps)

text \<open>A pass that colours a node and runs over its edges, unless the node has the colour.\<close>

locale colouring_pass =
  fixes visit :: "get_gc \<Rightarrow> (nat \<Rightarrow> nat) \<Rightarrow> gnode \<Rightarrow> zend_gc_globals \<Rightarrow> zend_gc_globals option"
    and c :: gc_colour
    and d :: uint
  assumes visit_step: "gc_wf get_gc hnd s \<Longrightarrow> n \<in> nodes s \<Longrightarrow>
    visit get_gc hnd n s =
      (if col s n = fin c s n then Some s
       else edges d (visit get_gc hnd) (kids get_gc hnd s n) (set_col n (fin c s n) s))"
begin

lemma visit_if_edges:
  assumes w: "gc_wf get_gc hnd s" and n: "n \<in> nodes s"
    and IH: "\<And>X s'. gc_wf get_gc hnd s' \<Longrightarrow> set X \<subseteq> nodes s' \<Longrightarrow> uncoloured c s' \<subset> uncoloured c s \<Longrightarrow>
      \<exists>s''. edges d (visit get_gc hnd) X s' = Some s'' \<and> traced get_gc hnd c d X X s' s'' \<and> bframe s' s''"
  shows "\<exists>s'. visit get_gc hnd n s = Some s' \<and> traced get_gc hnd c d [n] [] s s' \<and> bframe s s'"
proof (cases "col s n = fin c s n")
  case True
  then show ?thesis using visit_step [OF w n] traced_none [of "[n]"] by simp
next
  case False
  let ?s = "set_col n (fin c s n) s" and ?K = "kids get_gc hnd s n"
  have f: "frame s ?s" by (rule frame_fin_col)
  have K: "set ?K \<subseteq> nodes ?s" using w n unfolding frame_nodes [OF f] by (simp add: gc_wf_def)
  have "uncoloured c ?s \<subset> uncoloured c s" using uncoloured_paint [OF n] n False by (auto simp: uncoloured_def)
  then obtain s' where s': "edges d (visit get_gc hnd) ?K ?s = Some s'" "traced get_gc hnd c d ?K ?K ?s s'" "bframe ?s s'"
    using IH [OF frame_wf [OF f w] K] by blast
  from s'(1) have "visit get_gc hnd n s = Some s'" using visit_step [OF w n] False by simp
  then show ?thesis using traced_paint [OF w n False s'(2)] bframe_trans [OF bframe_set_col s'(3)] by blast
qed

theorem edges_traced:
  assumes "gc_wf get_gc hnd s" "set X \<subseteq> nodes s"
  shows "\<exists>s'. edges d (visit get_gc hnd) X s = Some s' \<and> traced get_gc hnd c d X X s s' \<and> bframe s s'"
  using assms
proof (induction "card (uncoloured c s)" arbitrary: s X rule: less_induct)
  case less
  have IH: "\<exists>s''. edges d (visit get_gc hnd) X s' = Some s'' \<and> traced get_gc hnd c d X X s' s'' \<and> bframe s' s''"
    if "gc_wf get_gc hnd s'" "set X \<subseteq> nodes s'" "uncoloured c s' \<subset> uncoloured c s" for X s'
    using less.hyps [OF _ that(1,2)] psubset_card_mono [OF _ that(3)] less.prems(1) by (simp add: gc_wf_def uncoloured_def)
  have "\<exists>s''. edges d (visit get_gc hnd) X s' = Some s'' \<and> traced get_gc hnd c d X X s' s'' \<and> bframe s' s''"
    if "gc_wf get_gc hnd s'" "set X \<subseteq> nodes s'" "uncoloured c s' \<subseteq> uncoloured c s" for s'
    using that
  proof (induction X arbitrary: s')
    case Nil
    then show ?case using traced_none [of "[]"] by simp
  next
    case (Cons n X)
    have n: "n \<in> nodes s'" using Cons.prems(2) by simp
    obtain s1 where s1: "add_ref d n s' = Some s1" using add_ref_node [OF n] by blast
    have t1: "traced get_gc hnd c d [] [n] s' s1" by (rule traced_add_ref [OF n s1])
    then have f1: "frame s' s1" by (simp add: traced_def)
    have b1: "bframe s' s1" using s1 add_ref_node [OF n] bframe_add_rc by (auto split: if_splits)
    have w1: "gc_wf get_gc hnd s1" by (rule frame_wf [OF f1 Cons.prems(1)])
    have u1: "uncoloured c s1 \<subseteq> uncoloured c s" using uncoloured_traced [OF t1] Cons.prems(3) by blast
    obtain s2 where s2: "visit get_gc hnd n s1 = Some s2" and t2: "traced get_gc hnd c d [n] [] s1 s2" and b2: "bframe s1 s2"
      using visit_if_edges [OF w1, of n] n frame_nodes [OF f1] IH u1 by (metis order_less_le_trans)
    then have f2: "frame s1 s2" by (simp add: traced_def)
    have f: "frame s' s2" by (rule frame_trans [OF f1 f2])
    have u2: "uncoloured c s2 \<subseteq> uncoloured c s" using uncoloured_traced [OF t2] u1 by blast
    obtain s3 where s3: "edges d (visit get_gc hnd) X s2 = Some s3" and t3: "traced get_gc hnd c d X X s2 s3" and b3: "bframe s2 s3"
      using Cons.IH [OF frame_wf [OF f Cons.prems(1)] _ u2] Cons.prems(2) frame_nodes [OF f] by auto
    have "traced get_gc hnd c d ([] @ [n] @ X) ([n] @ [] @ X) s' s3"
      by (rule traced_append [OF Cons.prems(1) t1 traced_append [OF w1 t2 t3]])
    then show ?case using s1 s2 s3 bframe_trans [OF b1 bframe_trans [OF b2 b3]] by simp
  qed
  then show ?case using less.prems by blast
qed

theorem visit_traced:
  assumes "gc_wf get_gc hnd s" "n \<in> nodes s"
  shows "\<exists>s'. visit get_gc hnd n s = Some s' \<and> traced get_gc hnd c d [n] [] s s' \<and> bframe s s'"
  by (rule visit_if_edges [OF assms edges_traced])

end

interpretation mk: colouring_pass mark_node GC_GREY "- 1"
  by unfold_locales (rule mark_node_step)

interpretation bk: colouring_pass black_node GC_BLACK 1
  by unfold_locales (rule black_node_step)

end
