(* ===== verification/Zend_Gc_Scan.thy ===== *)
theory Zend_Gc_Scan
  imports Zend_Gc_Trace
begin

text \<open>
  The pass that decides: after the references from inside the marked part have been taken away,
  \<open>scan\<close> finds the nodes that are referenced from outside it or from what is kept. The others are
  white when it ends.
\<close>

subsection \<open>The pass over nodes\<close>

primrec visits :: "(gnode \<Rightarrow> zend_gc_globals \<Rightarrow> zend_gc_globals option) \<Rightarrow> gnode list \<Rightarrow> zend_gc_globals \<Rightarrow> zend_gc_globals option" where
  "visits visit [] s = Some s"
| "visits visit (n # ns) s = do { s \<leftarrow> visit n s; visits visit ns s }"

lemma visits_Nil [simp]: "visits visit [] = Some"
  by (rule ext) simp

lemma visits_append: "visits visit (xs @ ys) s = do { s \<leftarrow> visits visit xs s; visits visit ys s }"
  by (induction xs arbitrary: s) (simp_all add: Option.bind_assoc)

fun scan_node :: "get_gc \<Rightarrow> (nat \<Rightarrow> nat) \<Rightarrow> gnode \<Rightarrow> zend_gc_globals \<Rightarrow> zend_gc_globals option" where
  "scan_node get_gc hnd (Zv a) s = zval_scan get_gc a s"
| "scan_node get_gc hnd (Ob h) s = zobj_scan get_gc (hnd h) h s"

lemma scan_visits: "scan get_gc (Zvals ps) s = visits (scan_node get_gc hnd) (map Zv ps) s"
proof (induction ps arbitrary: s)
  case (Cons p ps)
  have "scan get_gc (Zvals ps) = visits (scan_node get_gc hnd) (map Zv ps)" by (rule ext) (rule Cons)
  then show ?case by (subst scan.simps) (simp add: zval_scan_def)
qed (simp add: scan.simps)

lemma keeps_scan_black: "tables s = t \<Longrightarrow> keeps t (scan_black get_gc call s)"
  using scan_black_tables by (auto simp: keeps_def)

lemma scan_tables: "scan get_gc call s = Some s' \<Longrightarrow> tables s' = tables s"
proof (rule scan.raw_induct [where P = "\<lambda>_ _ s s'. tables s' = tables s"], goal_cases)
  case (1 f get_gc call s s')
  have f: "keeps t (f get_gc call s)" if "tables s = t" for get_gc call s t using 1(2) that by (auto simp: keeps_def)
  show ?case
    by (rule keepsD [OF _ 1(3)])
      (unfold zval_scan_black_def zobj_scan_black_def, intro f keeps_intros keeps_scan_black; simp)
qed

lemma scan_object:
  "(case x of None \<Rightarrow> Some s | Some (table, props) \<Rightarrow> do {
      s \<leftarrow> scan get_gc (Zvals table) s;
      (case props of None \<Rightarrow> Some s | Some t \<Rightarrow> scan get_gc (Zvals (tables s t)) s) }) =
   visits (scan_node get_gc hnd)
     (case x of None \<Rightarrow> [] | Some (table, props) \<Rightarrow> map Zv (table @ (case props of None \<Rightarrow> [] | Some t \<Rightarrow> tables s t))) s"
proof -
  have "(do { s' \<leftarrow> scan get_gc (Zvals table) s; scan get_gc (Zvals (tables s' t)) s' }) =
        (do { s' \<leftarrow> scan get_gc (Zvals table) s; scan get_gc (Zvals (tables s t)) s' })" for table t
    by (cases "scan get_gc (Zvals table) s") (simp_all add: scan_tables)
  then show ?thesis by (simp add: visits_append scan_visits [where hnd = hnd] split: option.split)
qed

lemma scan_node_step:
  assumes w: "gc_wf get_gc hnd s" and n: "n \<in> nodes s"
  shows "scan_node get_gc hnd n s =
    (if col s n \<noteq> GC_GREY then Some s else if rc s n > 0 then black_node get_gc hnd n s
     else visits (scan_node get_gc hnd) (kids get_gc hnd s n) (set_col n GC_WHITE s))"
proof (cases n)
  case (Zv a)
  obtain z where z: "zvals s a = Some z" "zv_u z = Buffered (addr s (Zv a)) (col s (Zv a))"
      "Zv a \<in> uncounted s \<longleftrightarrow> zv_type z = IS_ARRAY (symbol_table s)"
    using node_zv [OF w] n Zv by blast
  have c: "GC_ZVAL_SET_COLOR a GC_WHITE s = Some (set_col (Zv a) GC_WHITE s)" using set_color_node(1) [OF w] n Zv by simp
  have h: "zv_type z = IS_OBJECT k ht \<Longrightarrow> ht = hnd k" for k ht using w z(1) unfolding gc_wf_def by blast
  have "scan get_gc (Zval a) s = visits (scan_node get_gc hnd) (kids get_gc hnd s (Zv a)) (set_col (Zv a) GC_WHITE s)"
    if g: "col s (Zv a) = GC_GREY" "zv_refcount z = 0"
  proof (cases "zv_type z")
    case (IS_ARRAY t)
    have "Zv a \<notin> uncounted s" using w g(1) unfolding gc_wf_def by blast
    then show ?thesis using z c g IS_ARRAY by (subst scan.simps) (simp add: scan_visits [where hnd = hnd])
  next
    case (IS_OBJECT k ht)
    show ?thesis using z IS_OBJECT c g by (subst scan.simps) (simp add: zobj_scan_def h [OF IS_OBJECT])
  qed (subst scan.simps, use z c g in simp)+
  moreover have "scan get_gc (Zval a) s = Some s" if "col s (Zv a) \<noteq> GC_GREY"
    using z that by (subst scan.simps) simp
  moreover have "scan get_gc (Zval a) s = zval_scan_black get_gc a s" if "col s (Zv a) = GC_GREY" "zv_refcount z > 0"
    using z that by (subst scan.simps) simp
  ultimately show ?thesis using z by (auto simp: Zv zval_scan_def word_greater_zero_iff)
next
  case (Ob h)
  obtain b where b: "objects s h = Some b" "so_buffered b = Buffered (addr s (Ob h)) (col s (Ob h))" "Ob h \<notin> uncounted s"
    using node_ob [OF w] n Ob by blast
  have c: "obj_set_color h GC_WHITE s = Some (set_col (Ob h) GC_WHITE s)" using set_color_node(2) [OF w] n Ob by simp
  have on: "object_buckets_on s" using w b(1) unfolding gc_wf_def by blast
  show ?thesis unfolding Ob scan_node.simps zobj_scan_def scan_object [where hnd = hnd]
    using b c on by (simp split: option.split)
qed


subsection \<open>What the pass keeps\<close>

definition grey :: "zend_gc_globals \<Rightarrow> gnode set" where
  "grey s = {n. col s n = GC_GREY}"

text \<open>The state the first pass leaves: the grey part is closed, the rest is black, and no count can overflow.\<close>

definition marked :: "get_gc \<Rightarrow> (nat \<Rightarrow> nat) \<Rightarrow> zend_gc_globals \<Rightarrow> bool" where
  "marked get_gc hnd s \<longleftrightarrow> gc_wf get_gc hnd s \<and> (\<forall>n. col s n = GC_GREY \<or> col s n = GC_BLACK) \<and>
     (\<forall>n \<in> grey s. \<forall>k \<in> set (kids get_gc hnd s n). col s k = fin GC_GREY s k) \<and>
     (\<forall>x \<in> grey s. unat (rc s x) + crossing get_gc hnd s (grey s) x < 2 ^ 32)"

definition kept :: "zend_gc_globals \<Rightarrow> zend_gc_globals \<Rightarrow> gnode set" where
  "kept s1 s = {n \<in> grey s1. col s n = GC_BLACK}"

definition scanned :: "get_gc \<Rightarrow> (nat \<Rightarrow> nat) \<Rightarrow> zend_gc_globals \<Rightarrow> zend_gc_globals \<Rightarrow> bool" where
  "scanned get_gc hnd s1 s \<longleftrightarrow> frame s1 s \<and>
     (\<forall>n. n \<notin> grey s1 \<longrightarrow> col s n = GC_BLACK) \<and> (\<forall>n. col s n \<noteq> GC_PURPLE) \<and>
     (\<forall>n \<in> kept s1 s. \<forall>k \<in> set (kids get_gc hnd s1 n). col s k = GC_BLACK) \<and>
     (\<forall>x. rc s x = rc s1 x + (if x \<in> uncounted s1 \<or> x \<notin> nodes s1 then 0 else of_nat (crossing get_gc hnd s1 (kept s1 s) x))) \<and>
     (\<forall>n. col s n = GC_WHITE \<longrightarrow> rc s1 n = 0) \<and>
     kept s1 s \<subseteq> reach get_gc hnd s1 {n \<in> grey s1. rc s1 n \<noteq> 0}"

definition scan_post :: "get_gc \<Rightarrow> (nat \<Rightarrow> nat) \<Rightarrow> zend_gc_globals \<Rightarrow> gnode list \<Rightarrow> zend_gc_globals \<Rightarrow> zend_gc_globals \<Rightarrow> bool" where
  "scan_post get_gc hnd s1 X s s' \<longleftrightarrow> scanned get_gc hnd s1 s' \<and> bframe s s' \<and> grey s' \<subseteq> grey s \<and> (\<forall>x \<in> set X. x \<notin> grey s') \<and>
     (\<forall>n. col s' n = GC_WHITE \<longrightarrow> col s n = GC_WHITE \<or> (\<forall>k \<in> set (kids get_gc hnd s1 n). k \<notin> grey s'))"

lemma scanned_rc:
  "scanned get_gc hnd s1 s \<Longrightarrow>
   rc s x = rc s1 x + (if x \<in> uncounted s1 \<or> x \<notin> nodes s1 then 0 else of_nat (crossing get_gc hnd s1 (kept s1 s) x))"
  by (simp add: scanned_def)

lemma grey_nodes: "grey s \<subseteq> nodes s"
  by (auto simp: grey_def nodes_def col_def split: option.splits)

lemma grey_counted: "gc_wf get_gc hnd s \<Longrightarrow> grey s \<inter> uncounted s = {}"
  unfolding gc_wf_def grey_def by blast

lemma finite_grey: "gc_wf get_gc hnd s \<Longrightarrow> finite (grey s)"
  using grey_nodes [of s] finite_subset unfolding gc_wf_def by blast

lemma scanned_refl: "marked get_gc hnd s \<Longrightarrow> scanned get_gc hnd s s"
proof -
  assume m: "marked get_gc hnd s"
  then have c: "col s n = GC_GREY \<or> col s n = GC_BLACK" for n by (simp add: marked_def)
  then have k: "kept s s = {}" by (auto simp: kept_def grey_def)
  have "col s n \<noteq> GC_WHITE" "col s n \<noteq> GC_PURPLE" for n using c [of n] by auto
  then show ?thesis unfolding scanned_def k crossing_def using c by (auto simp: grey_def)
qed

lemma scan_post_refl: "scanned get_gc hnd s1 s \<Longrightarrow> set X \<inter> grey s = {} \<Longrightarrow> scan_post get_gc hnd s1 X s s"
  unfolding scan_post_def using bframe_refl by blast

lemma scan_post_append:
  "scan_post get_gc hnd s1 X s s' \<Longrightarrow> scan_post get_gc hnd s1 X' s' s'' \<Longrightarrow> scan_post get_gc hnd s1 (X @ X') s s''"
  unfolding scan_post_def set_append by (elim conjE, intro conjI; blast intro: bframe_trans)

lemma marked_closed:
  assumes m: "marked get_gc hnd s1" and n: "n \<in> grey s1"
  shows "reach get_gc hnd s1 {n} \<subseteq> grey s1 \<union> uncounted s1"
proof (rule reach_closed)
  fix n k assume n: "n \<in> grey s1 \<union> uncounted s1" and k: "k \<in> set (kids get_gc hnd s1 n)"
  then have "n \<in> grey s1" by (auto simp: uncounted_def)
  then have "col s1 k = fin GC_GREY s1 k" using m k unfolding marked_def by blast
  then show "k \<in> grey s1 \<union> uncounted s1" by (auto simp: fin_def grey_def split: if_splits)
qed (use n in auto)

lemma crossing_edge: "crossing get_gc hnd s A x \<noteq> 0 \<Longrightarrow> \<exists>m \<in> A. x \<in> set (kids get_gc hnd s m)"
proof -
  assume "crossing get_gc hnd s A x \<noteq> 0"
  then obtain m where "m \<in> A" "count_list (kids get_gc hnd s m) x \<noteq> 0" unfolding crossing_def by (meson sum.neutral)
  then show ?thesis by (auto simp: count_list_0_iff)
qed

lemma crossing_mono: "finite B \<Longrightarrow> A \<subseteq> B \<Longrightarrow> crossing get_gc hnd s A x \<le> crossing get_gc hnd s B x"
  unfolding crossing_def by (rule sum_mono2) auto

lemma no_wrap_sum: "r + of_nat k = (0 :: uint) \<Longrightarrow> k \<le> m \<Longrightarrow> unat r + m < 2 ^ 32 \<Longrightarrow> r = 0"
proof -
  assume s: "r + of_nat k = (0 :: uint)" and "k \<le> m" "unat r + m < 2 ^ 32"
  then have "unat r + k < 2 ^ 32" by simp
  then have "unat (r + of_nat k) = unat r + k" by (simp add: unat_word_ariths unat_of_nat)
  then show ?thesis using s by (simp add: unat_eq_0)
qed

lemma reach_trans: "n \<in> reach get_gc hnd s X \<Longrightarrow> reach get_gc hnd s {n} \<subseteq> reach get_gc hnd s X"
  by (rule reach_closed) (auto intro: reach_kids)

lemma referenced_reached:
  assumes i: "scanned get_gc hnd s1 s" and n: "n \<in> grey s" "rc s n > 0"
  shows "n \<in> reach get_gc hnd s1 {n \<in> grey s1. rc s1 n \<noteq> 0}"
proof (cases "rc s1 n = 0")
  case True
  then have "of_nat (crossing get_gc hnd s1 (kept s1 s) n) \<noteq> (0 :: uint)"
    using n(2) scanned_rc [OF i, of n] by (auto split: if_splits)
  then have "crossing get_gc hnd s1 (kept s1 s) n \<noteq> 0" by (intro notI) simp
  then obtain m where "m \<in> kept s1 s" "n \<in> set (kids get_gc hnd s1 m)" using crossing_edge by blast
  then show ?thesis using i reach_kids unfolding scanned_def by blast
next
  case False
  moreover have "n \<in> grey s1" using i n(1) by (auto simp: scanned_def grey_def)
  ultimately show ?thesis using reach_self [of "{n \<in> grey s1. rc s1 n \<noteq> 0}"] by blast
qed

lemma scan_keep:
  assumes m: "marked get_gc hnd s1" and i: "scanned get_gc hnd s1 s" and n: "n \<in> grey s" "rc s n > 0"
  shows "\<exists>s'. black_node get_gc hnd n s = Some s' \<and> scan_post get_gc hnd s1 [n] s s'"
proof -
  have f: "frame s1 s" using i by (simp add: scanned_def)
  have w1: "gc_wf get_gc hnd s1" using m by (simp add: marked_def)
  have w: "gc_wf get_gc hnd s" by (rule frame_wf [OF f w1])
  have n1: "n \<in> nodes s" using n(1) grey_nodes by blast
  obtain s' where s': "black_node get_gc hnd n s = Some s'" and t: "traced get_gc hnd GC_BLACK 1 [n] [] s s'" and bf: "bframe s s'"
    using bk.visit_traced [OF w n1] by blast
  note eqs = frame_nodes [OF f] frame_reach [OF f] frame_crossing [OF f] frame_uncounted [OF f] frame_kids [OF f]
  have fb: "fin GC_BLACK s = (\<lambda>_. GC_BLACK)" by (simp add: fin_def fun_eq_iff)
  let ?P = "painted GC_BLACK s s'"
  have t': "frame s s'" "\<forall>m. col s' m = col s m \<or> col s' m = GC_BLACK" "col s' n = GC_BLACK"
      "\<forall>m \<in> ?P. \<forall>k \<in> set (kids get_gc hnd s1 m). col s' k = GC_BLACK" "?P \<subseteq> reach get_gc hnd s1 {n}"
      "\<forall>x. rc s' x = rc s x + (if x \<in> uncounted s1 \<or> x \<notin> nodes s1 then 0 else of_nat (crossing get_gc hnd s1 ?P x))"
    using t unfolding traced_def fb eqs by simp_all
  have Pb: "?P = {m \<in> nodes s1. col s m \<noteq> GC_BLACK \<and> col s' m = GC_BLACK}" unfolding painted_def fb eqs ..
  have i': "\<forall>n. n \<notin> grey s1 \<longrightarrow> col s n = GC_BLACK" "\<forall>n. col s n \<noteq> GC_PURPLE"
     "\<forall>n \<in> kept s1 s. \<forall>k \<in> set (kids get_gc hnd s1 n). col s k = GC_BLACK"
     "\<forall>x. rc s x = rc s1 x + (if x \<in> uncounted s1 \<or> x \<notin> nodes s1 then 0 else of_nat (crossing get_gc hnd s1 (kept s1 s) x))"
     "\<forall>n. col s n = GC_WHITE \<longrightarrow> rc s1 n = 0" "kept s1 s \<subseteq> reach get_gc hnd s1 {n \<in> grey s1. rc s1 n \<noteq> 0}"
    using i unfolding scanned_def by blast+
  have Pg: "?P \<subseteq> grey s1" using i'(1) unfolding Pb by blast
  have K: "kept s1 s' = kept s1 s \<union> ?P" "kept s1 s \<inter> ?P = {}"
    using Pg t'(2) grey_nodes [of s1] unfolding Pb kept_def by (auto, metis)
  have fin: "finite (kept s1 s)" "finite ?P" using finite_grey [OF w1] Pg finite_subset unfolding kept_def by auto
  have R: "reach get_gc hnd s1 {n} \<subseteq> reach get_gc hnd s1 {n \<in> grey s1. rc s1 n \<noteq> 0}"
    by (rule reach_trans) (rule referenced_reached [OF i n])
  have "scanned get_gc hnd s1 s'" unfolding scanned_def K(1) crossing_Un [OF fin K(2)]
  proof (intro conjI)
    show "frame s1 s'" by (rule frame_trans [OF f t'(1)])
    show "\<forall>n. n \<notin> grey s1 \<longrightarrow> col s' n = GC_BLACK" using i'(1) t'(2) by metis
    show "\<forall>n. col s' n \<noteq> GC_PURPLE" using i'(2) t'(2) by (metis gc_colour.distinct(5))
    show "\<forall>n\<in>kept s1 s \<union> ?P. \<forall>k\<in>set (kids get_gc hnd s1 n). col s' k = GC_BLACK" using i'(3) t'(2,4) by (metis Un_iff)
    show "\<forall>n. col s' n = GC_WHITE \<longrightarrow> rc s1 n = 0" using i'(5) t'(2) by (metis gc_colour.distinct(1))
    show "kept s1 s \<union> ?P \<subseteq> reach get_gc hnd s1 {n \<in> grey s1. rc s1 n \<noteq> 0}" using i'(6) t'(5) R by blast
  qed (use i'(4) t'(6) in simp)
  moreover have "grey s' \<subseteq> grey s" "n \<notin> grey s'" using t'(2,3) by (auto simp: grey_def) (metis gc_colour.distinct(3))
  moreover have "col s' m = GC_WHITE \<Longrightarrow> col s m = GC_WHITE" for m using t'(2) by (metis gc_colour.distinct(1))
  ultimately show ?thesis using s' bf unfolding scan_post_def by auto
qed

lemma scan_drop:
  assumes m: "marked get_gc hnd s1" and i: "scanned get_gc hnd s1 s" and n: "n \<in> grey s" "rc s n = 0"
  shows "scanned get_gc hnd s1 (set_col n GC_WHITE s)"
proof -
  let ?s = "set_col n GC_WHITE s"
  have f: "frame s1 s" using i by (simp add: scanned_def)
  have w1: "gc_wf get_gc hnd s1" using m by (simp add: marked_def)
  have w: "gc_wf get_gc hnd s" by (rule frame_wf [OF f w1])
  have nn: "n \<in> nodes s" and nu: "n \<notin> uncounted s" using n(1) grey_nodes grey_counted [OF w] by blast+
  have gn: "n \<in> grey s1" using i n(1) by (auto simp: scanned_def grey_def)
  have f': "frame s ?s" by (rule frame_set_col) (use nu in simp)
  have c: "col ?s = (col s)(n := GC_WHITE)" and r: "rc ?s = rc s" using nn by (simp_all add: gc_simps)
  have K: "kept s1 ?s = kept s1 s" using n(1) by (auto simp: kept_def c grey_def)
  let ?k = "crossing get_gc hnd s1 (kept s1 s) n"
  have "rc s1 n + of_nat ?k = 0"
    using scanned_rc [OF i, of n] n(2) nn nu unfolding frame_nodes [OF f] frame_uncounted [OF f] by simp
  moreover have "?k \<le> crossing get_gc hnd s1 (grey s1) n" by (rule crossing_mono [OF finite_grey [OF w1]]) (auto simp: kept_def)
  moreover have "unat (rc s1 n) + crossing get_gc hnd s1 (grey s1) n < 2 ^ 32" using m gn by (simp add: marked_def)
  ultimately have r0: "rc s1 n = 0" by (rule no_wrap_sum)
  have k: "m \<in> kept s1 s \<Longrightarrow> k \<in> set (kids get_gc hnd s1 m) \<Longrightarrow> col ?s k = GC_BLACK" for m k
    using i n(1) unfolding c scanned_def grey_def by (metis (mono_tags) fun_upd_other gc_colour.distinct(3) mem_Collect_eq)
  show ?thesis unfolding scanned_def K r
  proof (intro conjI)
    show "frame s1 ?s" by (rule frame_trans [OF f f'])
    show "\<forall>n. n \<notin> grey s1 \<longrightarrow> col ?s n = GC_BLACK" using i gn unfolding c scanned_def by auto
    show "\<forall>n. col ?s n \<noteq> GC_PURPLE" using i unfolding c scanned_def by auto
    show "\<forall>n. col ?s n = GC_WHITE \<longrightarrow> rc s1 n = 0" using i r0 unfolding c scanned_def by auto
  qed (use i k in \<open>simp_all add: scanned_def\<close>)
qed

subsection \<open>The run\<close>

lemma scanned_nodes: "scanned get_gc hnd s1 s \<Longrightarrow> nodes s = nodes s1"
  by (simp add: scanned_def frame_nodes)

lemma marked_colour: "marked get_gc hnd s \<Longrightarrow> col s n = GC_GREY \<or> col s n = GC_BLACK"
  by (simp add: marked_def)

lemma scan_visit:
  assumes m: "marked get_gc hnd s1" and i: "scanned get_gc hnd s1 s" and n: "n \<in> nodes s"
    and IH: "\<And>X s'. scanned get_gc hnd s1 s' \<Longrightarrow> set X \<subseteq> nodes s' \<Longrightarrow> grey s' \<subset> grey s \<Longrightarrow>
      \<exists>s''. visits (scan_node get_gc hnd) X s' = Some s'' \<and> scan_post get_gc hnd s1 X s' s''"
  shows "\<exists>s'. scan_node get_gc hnd n s = Some s' \<and> scan_post get_gc hnd s1 [n] s s'"
proof -
  have f: "frame s1 s" using i by (simp add: scanned_def)
  have w: "gc_wf get_gc hnd s" using frame_wf [OF f] m by (simp add: marked_def)
  note step = scan_node_step [OF w n]
  consider "n \<notin> grey s" | "n \<in> grey s" "rc s n > 0" | "n \<in> grey s" "rc s n = 0" using word_greater_zero_iff by blast
  then show ?thesis
  proof cases
    case 1
    then show ?thesis using step scan_post_refl [OF i, of "[n]"] by (simp add: grey_def)
  next
    case 2
    then show ?thesis using step scan_keep [OF m i 2] by (simp add: grey_def)
  next
    case 3
    let ?s = "set_col n GC_WHITE s" and ?K = "kids get_gc hnd s n"
    have i': "scanned get_gc hnd s1 ?s" by (rule scan_drop [OF m i 3])
    have c: "col ?s = (col s)(n := GC_WHITE)" using n by (simp add: gc_simps)
    have f': "frame s ?s" using grey_counted [OF w] 3(1) by (intro frame_set_col) blast
    have K: "set ?K \<subseteq> nodes ?s" using w n unfolding frame_nodes [OF f'] gc_wf_def by blast
    have "grey ?s \<subset> grey s" using 3(1) unfolding grey_def c by auto
    then obtain s' where s': "visits (scan_node get_gc hnd) ?K ?s = Some s'" and p: "scan_post get_gc hnd s1 ?K ?s s'"
      using IH [OF i' K] by blast
    have "scan_post get_gc hnd s1 [n] s s'" using p bframe_trans [OF bframe_set_col] \<open>grey ?s \<subset> grey s\<close>
      unfolding scan_post_def frame_kids [OF f] by (auto simp: c grey_def split: if_splits)
    then show ?thesis using step s' 3 by (simp add: grey_def)
  qed
qed

theorem scan_run:
  assumes m: "marked get_gc hnd s1" and "scanned get_gc hnd s1 s" "set X \<subseteq> nodes s"
  shows "\<exists>s'. visits (scan_node get_gc hnd) X s = Some s' \<and> scan_post get_gc hnd s1 X s s'"
  using assms(2,3)
proof (induction "card (grey s)" arbitrary: s X rule: less_induct)
  case less
  have w1: "gc_wf get_gc hnd s1" using m by (simp add: marked_def)
  have fin: "finite (grey s)"
    using less.prems(1) frame_wf [OF _ w1] finite_grey by (auto simp: scanned_def)
  have IH: "\<exists>s''. visits (scan_node get_gc hnd) X s' = Some s'' \<and> scan_post get_gc hnd s1 X s' s''"
    if "scanned get_gc hnd s1 s'" "set X \<subseteq> nodes s'" "grey s' \<subset> grey s" for X s'
    using less.hyps [OF _ that(1,2)] psubset_card_mono [OF fin that(3)] by blast
  have "\<exists>s''. visits (scan_node get_gc hnd) X s' = Some s'' \<and> scan_post get_gc hnd s1 X s' s''"
    if "scanned get_gc hnd s1 s'" "set X \<subseteq> nodes s'" "grey s' \<subseteq> grey s" for s'
    using that
  proof (induction X arbitrary: s')
    case Nil
    then show ?case using scan_post_refl [of get_gc hnd s1 s' "[]"] by simp
  next
    case (Cons n X)
    have n: "n \<in> nodes s'" using Cons.prems(2) by simp
    obtain s2 where s2: "scan_node get_gc hnd n s' = Some s2" and p2: "scan_post get_gc hnd s1 [n] s' s2"
      using scan_visit [OF m Cons.prems(1) n] IH Cons.prems(3) by (metis order_less_le_trans)
    then have i2: "scanned get_gc hnd s1 s2" and g2: "grey s2 \<subseteq> grey s" using Cons.prems(3) by (auto simp: scan_post_def)
    have "nodes s2 = nodes s'" using scanned_nodes [OF i2] scanned_nodes [OF Cons.prems(1)] by simp
    then obtain s3 where s3: "visits (scan_node get_gc hnd) X s2 = Some s3" and p3: "scan_post get_gc hnd s1 X s2 s3"
      using Cons.IH [OF i2 _ g2] Cons.prems(2) by auto
    show ?case using s2 s3 scan_post_append [OF p2 p3] by simp
  qed
  then show ?case using less.prems by blast
qed

lemma scan_end:
  assumes m: "marked get_gc hnd s1" and R: "set R \<subseteq> grey s1 \<union> uncounted s1" "grey s1 \<subseteq> reach get_gc hnd s1 (set R)"
    and p: "scan_post get_gc hnd s1 R s1 s2"
  shows "grey s2 = {}" "kept s1 s2 = reach get_gc hnd s1 {n \<in> grey s1. rc s1 n \<noteq> 0} \<inter> grey s1"
proof -
  have i: "scanned get_gc hnd s1 s2" using p by (simp add: scan_post_def)
  have w1: "gc_wf get_gc hnd s1" using m by (simp add: marked_def)
  have w2: "col s1 n \<noteq> GC_WHITE" for n using marked_colour [OF m, of n] by auto
  let ?A = "{n. n \<notin> grey s2 \<and> n \<in> grey s1 \<union> uncounted s1}"
  have "reach get_gc hnd s1 (set R) \<subseteq> ?A"
  proof (rule reach_closed)
    show "set R \<subseteq> ?A" using p R(1) by (auto simp: scan_post_def)
  next
    fix n k assume n: "n \<in> ?A" and k: "k \<in> set (kids get_gc hnd s1 n)"
    then have ng: "n \<in> grey s1" by (auto simp: uncounted_def)
    then have "k \<in> grey s1 \<union> uncounted s1" using marked_closed [OF m ng] k reach_kids reach_self by blast
    moreover have "k \<notin> grey s2"
    proof (cases "col s2 n")
      case GC_BLACK
      then have "col s2 k = GC_BLACK" using i ng k by (auto simp: scanned_def kept_def)
      then show ?thesis by (simp add: grey_def)
    next
      case GC_WHITE
      then show ?thesis using p w2 k unfolding scan_post_def by blast
    qed (use n i in \<open>auto simp: grey_def scanned_def\<close>)
    ultimately show "k \<in> ?A" by blast
  qed
  moreover have "grey s2 \<subseteq> grey s1" using p by (simp add: scan_post_def)
  ultimately show g: "grey s2 = {}" using R(2) by blast
  have c: "col s2 n = GC_BLACK \<or> col s2 n = GC_WHITE" for n
    using g i by (cases "col s2 n") (auto simp: grey_def scanned_def)
  have "reach get_gc hnd s1 {n \<in> grey s1. rc s1 n \<noteq> 0} \<subseteq> kept s1 s2 \<union> uncounted s1"
  proof (rule reach_closed)
    show "{n \<in> grey s1. rc s1 n \<noteq> 0} \<subseteq> kept s1 s2 \<union> uncounted s1"
      using i c unfolding kept_def scanned_def by blast
  next
    fix n k assume n: "n \<in> kept s1 s2 \<union> uncounted s1" and k: "k \<in> set (kids get_gc hnd s1 n)"
    then have n: "n \<in> kept s1 s2" by (auto simp: uncounted_def)
    then have "col s2 k = GC_BLACK" using i k by (auto simp: scanned_def)
    moreover have "k \<in> grey s1 \<union> uncounted s1" using marked_closed [OF m] n k reach_kids reach_self unfolding kept_def by blast
    ultimately show "k \<in> kept s1 s2 \<union> uncounted s1" by (auto simp: kept_def)
  qed
  then show "kept s1 s2 = reach get_gc hnd s1 {n \<in> grey s1. rc s1 n \<noteq> 0} \<inter> grey s1"
    using i grey_counted [OF w1] unfolding scanned_def kept_def by blast
qed

end
