(* ===== verification/Zend_Gc_Roots.thy ===== *)
theory Zend_Gc_Roots
  imports Zend_Gc_Scan
begin

text \<open>
  The buffer of possible roots: the ring of the buffered roots and the list of unused slots, what
  the functions that add and remove roots keep of them, and the loops of the passes over the ring.
\<close>

subsection \<open>The ring\<close>

fun rb_get_prev :: "rb_ptr \<Rightarrow> zend_gc_globals \<Rightarrow> rb_ptr option option" where
  "rb_get_prev Roots s = Some (Some (snd (roots s)))"
| "rb_get_prev (Slot i) s = map_option rb_prev (slots s i)"

definition link :: "zend_gc_globals \<Rightarrow> rb_ptr \<Rightarrow> rb_ptr \<Rightarrow> bool" where
  "link s p q \<longleftrightarrow> rb_get_next p s = Some q \<and> rb_get_prev q s = Some (Some p)"

primrec links :: "zend_gc_globals \<Rightarrow> rb_ptr \<Rightarrow> rb_ptr list \<Rightarrow> bool" where
  "links s p [] \<longleftrightarrow> True"
| "links s p (q # qs) \<longleftrightarrow> link s p q \<and> links s q qs"

definition ring :: "zend_gc_globals \<Rightarrow> nat list \<Rightarrow> bool" where
  "ring s is \<longleftrightarrow> links s Roots (map Slot is @ [Roots])"

primrec unused_list :: "zend_gc_globals \<Rightarrow> rb_ptr option \<Rightarrow> nat list \<Rightarrow> bool" where
  "unused_list s p [] \<longleftrightarrow> p = None"
| "unused_list s p (i # us) \<longleftrightarrow> p = Some (Slot i) \<and> (\<exists>r. slots s i = Some r \<and> unused_list s (rb_prev r) us)"

text \<open>The slots below \<open>first_unused\<close> are in the ring or on the list of unused ones, each once.\<close>

definition buffer :: "zend_gc_globals \<Rightarrow> nat list \<Rightarrow> nat list \<Rightarrow> bool" where
  "buffer s is us \<longleftrightarrow> ring s is \<and> unused_list s (unused s) us \<and> distinct (is @ us) \<and>
     set (is @ us) = {..<first_unused s} \<and> first_unused s \<le> last_unused s"

lemma links_append: "links s p (xs @ ys) \<longleftrightarrow> links s p xs \<and> links s (last (p # xs)) ys"
  by (induction xs arbitrary: p) auto

lemma links_cong:
  "\<forall>x \<in> set (butlast (p # xs)). rb_get_next x s' = rb_get_next x s \<Longrightarrow> \<forall>x \<in> set xs. rb_get_prev x s' = rb_get_prev x s \<Longrightarrow>
   links s' p xs = links s p xs"
  by (induction xs arbitrary: p) (auto simp: link_def split: if_splits)

lemma unused_list_cong: "\<forall>i \<in> set us. slots s' i = slots s i \<Longrightarrow> unused_list s' p us = unused_list s p us"
  by (induction us arbitrary: p) auto

lemma bframe_buffer: "bframe s s' \<Longrightarrow> buffer s' is us = buffer s is us"
proof -
  assume b: "bframe s s'"
  have n: "rb_get_next p s' = rb_get_next p s" "rb_get_prev p s' = rb_get_prev p s" for p
    using bframe_fields(4,5) [OF b] by (cases p; simp)+
  have "links s' p xs = links s p xs" for p xs by (rule links_cong) (simp_all add: n)
  moreover have "unused_list s' p us = unused_list s p us" for p by (rule unused_list_cong) (simp add: bframe_fields(5) [OF b])
  ultimately show ?thesis by (simp add: buffer_def ring_def bframe_fields [OF b])
qed

lemma next_set_next: "rb_set_next p q s = Some s' \<Longrightarrow>
    rb_get_next x s' = (if x = p then Some q else rb_get_next x s) \<and> rb_get_prev x s' = rb_get_prev x s"
  by (cases p; cases x) (auto simp: bind_eq_Some_conv)

lemma next_set_prev: "rb_set_prev p q s = Some s' \<Longrightarrow>
    rb_get_next x s' = rb_get_next x s \<and> rb_get_prev x s' = (if x = p then Some q else rb_get_prev x s)"
  by (cases p; cases x) (auto simp: bind_eq_Some_conv)

lemma set_next_total: "rb_get_next p s = Some x \<Longrightarrow> \<exists>s'. rb_set_next p q s = Some s'"
  by (cases p) auto

lemma set_prev_total: "rb_get_prev p s = Some x \<Longrightarrow> \<exists>s'. rb_set_prev p (Some q) s = Some s'"
  by (cases p) auto

text \<open>Everything but the pointers of the slots.\<close>

definition no_ptrs :: "zend_gc_globals \<Rightarrow> zend_gc_globals" where
  "no_ptrs s = s\<lparr>slots := Map.empty, roots := (Roots, Roots), unused := None\<rparr>"

definition refs :: "zend_gc_globals \<Rightarrow> nat \<Rightarrow> (nat \<times> rb_ref) option" where
  "refs s i = map_option (\<lambda>r. (rb_handle r, rb_u r)) (slots s i)"

lemma set_ptr_rest:
  "rb_set_next p q s = Some s' \<Longrightarrow> no_ptrs s' = no_ptrs s \<and> refs s' = refs s \<and> unused s' = unused s \<and> (\<forall>i. p \<noteq> Slot i \<longrightarrow> slots s' i = slots s i)"
  "rb_set_prev p q' s = Some s' \<Longrightarrow> no_ptrs s' = no_ptrs s \<and> refs s' = refs s \<and> unused s' = unused s \<and> (\<forall>i. p \<noteq> Slot i \<longrightarrow> slots s' i = slots s i)"
  by (cases p; auto simp: bind_eq_Some_conv no_ptrs_def refs_def fun_eq_iff)+

lemma ptrs_unused: "rb_get_next x (s\<lparr>unused := u\<rparr>) = rb_get_next x s" "rb_get_prev x (s\<lparr>unused := u\<rparr>) = rb_get_prev x s"
  by (cases x; simp)+

lemma no_ptrs_fields: "no_ptrs s' = no_ptrs s \<Longrightarrow> first_unused s' = first_unused s \<and> last_unused s' = last_unused s \<and> zvals s' = zvals s \<and> objects s' = objects s"
  by (cases s; cases s'; simp add: no_ptrs_def)

lemma last_notin_butlast: "distinct xs \<Longrightarrow> xs \<noteq> [] \<Longrightarrow> last xs \<notin> set (butlast xs)"
  by (induction xs) (auto split: if_splits)

lemma links_unlink:
  assumes l: "links s Roots (X @ y # q # Y)" and d: "distinct (X @ y # q # Y)" "Roots \<notin> set X" "Roots \<notin> set (butlast (q # Y))"
    and nx: "\<And>x. rb_get_next x s' = (if x = last (Roots # X) then Some q else rb_get_next x s)"
    and pv: "\<And>x. x \<noteq> y \<Longrightarrow> rb_get_prev x s' = (if x = q then Some (Some (last (Roots # X))) else rb_get_prev x s)"
  shows "links s' Roots (X @ q # Y)"
proof -
  let ?p = "last (Roots # X)"
  have p: "?p \<in> insert Roots (set X)" by simp
  have pX: "?p \<notin> set (butlast (Roots # X))" using last_notin_butlast [of "Roots # X"] d by auto
  have pY: "?p \<notin> set (butlast (q # Y))" using p d in_set_butlastD [of _ "q # Y"] by fastforce
  have pv': "\<forall>x \<in> set X \<union> set Y. rb_get_prev x s' = rb_get_prev x s"
  proof
    fix x assume "x \<in> set X \<union> set Y"
    then have "x \<noteq> y" "x \<noteq> q" using d(1) by auto
    then show "rb_get_prev x s' = rb_get_prev x s" using pv [of x] by simp
  qed
  have "links s' Roots X = links s Roots X" using pX pv' by (intro links_cong) (auto simp: nx)
  moreover have "links s' q Y = links s q Y" using pY pv' by (intro links_cong) (auto simp: nx)
  moreover have "link s' ?p q" using d(1) by (auto simp: link_def nx pv)
  ultimately show ?thesis using l unfolding links_append by simp
qed

lemma remove_buffer:
  assumes b: "buffer s (xs @ i # ys) us"
  shows "\<exists>s'. gc_remove_from_buffer i s = Some s' \<and> buffer s' (xs @ ys) (i # us) \<and> refs s' = refs s \<and> no_ptrs s' = no_ptrs s \<and>
    rb_get_next (Slot i) s' = Some (hd (map Slot ys @ [Roots]))"
proof -
  let ?X = "map Slot xs" and ?p = "last (Roots # map Slot xs)"
  define q where "q = hd (map Slot ys @ [Roots])"
  obtain Y where Y: "map Slot ys @ [Roots] = q # Y" by (cases ys) (simp_all add: q_def)
  have l: "links s Roots (?X @ Slot i # q # Y)" using b unfolding buffer_def ring_def by (simp add: Y)
  then have lp: "link s ?p (Slot i)" and lq: "link s (Slot i) q" unfolding links_append by simp_all
  obtain r where r: "slots s i = Some r" "rb_next r = q" "rb_prev r = Some ?p"
    using lp lq by (cases "slots s i") (auto simp: link_def)
  have d: "distinct (xs @ i # ys)" "set us \<inter> set (xs @ i # ys) = {}" "unused_list s (unused s) us"
    using b unfolding buffer_def by auto
  have p: "?p \<in> insert Roots (set ?X)" using last_in_set [of "Roots # ?X"] by simp
  have q: "q \<in> set (map Slot ys @ [Roots])" unfolding Y by simp
  have ne: "Slot i \<noteq> ?p" "Slot i \<noteq> q" using d(1) p q by auto
  have d': "distinct (?X @ Slot i # q # Y)" "Roots \<notin> set (butlast (q # Y))"
    using d(1) unfolding Y [symmetric] by (auto simp: distinct_map inj_on_def)
  obtain s1 where s1: "rb_set_prev q (Some ?p) s = Some s1" using set_prev_total lq unfolding link_def by blast
  obtain s2 where s2: "rb_set_next ?p q s1 = Some s2"
    using set_next_total [of ?p s1] lp next_set_prev [OF s1, of ?p] unfolding link_def by metis
  have "slots s2 i = Some r"
    using r(1) set_ptr_rest(1) [OF s2] set_ptr_rest(2) [OF s1] ne by auto
  then obtain s3 where s3: "rb_set_prev (Slot i) (unused s2) s2 = Some s3" by auto
  note ptrs = set_ptr_rest(2) [OF s1] set_ptr_rest(1) [OF s2] set_ptr_rest(2) [OF s3]
  define s' where "s' = s3\<lparr>unused := Some (Slot i)\<rparr>"
  have run: "gc_remove_from_buffer i s = Some s'"
    using s1 s2 s3 by (simp add: gc_remove_from_buffer_def r s'_def del: rb_set_prev.simps)
  have nx: "rb_get_next x s' = (if x = ?p then Some q else rb_get_next x s)"
    and pv: "rb_get_prev x s' = (if x = Slot i then Some (unused s) else if x = q then Some (Some ?p) else rb_get_prev x s)" for x
    using next_set_prev [OF s1, of x] next_set_next [OF s2, of x] next_set_prev [OF s3, of x] ptrs unfolding s'_def ptrs_unused by auto
  have rest: "no_ptrs s' = no_ptrs s" "refs s' = refs s" using ptrs by (simp_all add: s'_def no_ptrs_def refs_def fun_eq_iff)
  have "links s' Roots (?X @ q # Y)" by (rule links_unlink [OF l d'(1) _ d'(2)]) (auto simp: nx pv)
  then have ring: "ring s' (xs @ ys)" unfolding ring_def by (simp add: Y)
  have us: "slots s' j = slots s j" if j: "j \<in> set us" for j
  proof -
    have "Slot j \<notin> insert Roots (set ?X)" "Slot j \<notin> set (map Slot ys @ [Roots])" "i \<noteq> j" using j d(2) by auto
    then have "?p \<noteq> Slot j" "q \<noteq> Slot j" "Slot i \<noteq> Slot j" using p q by (metis, metis, simp)
    then show ?thesis using ptrs unfolding s'_def by (simp del: last.simps)
  qed
  then have "unused_list s' (unused s) us" using unused_list_cong [of us s' s] d(3) by simp
  moreover have "map_option rb_prev (slots s' i) = Some (unused s)" using pv [of "Slot i"] by simp
  ultimately have "unused_list s' (unused s') (i # us)" by (auto simp: s'_def)
  then have "buffer s' (xs @ ys) (i # us)" using b ring no_ptrs_fields [OF rest(1)] unfolding buffer_def by auto
  moreover have "rb_get_next (Slot i) s' = Some q" using lq ne(1) by (simp add: nx link_def)
  ultimately show ?thesis using run rest unfolding q_def by blast
qed


subsection \<open>Roots and nodes\<close>

text \<open>The node a slot stands for; the handlers of an object are those of every value that refers to it.\<close>

definition root_node :: "(nat \<Rightarrow> nat) \<Rightarrow> zend_gc_globals \<Rightarrow> nat \<Rightarrow> gnode option" where
  "root_node hnd s i = (case refs s i of None \<Rightarrow> None
     | Some (h, u) \<Rightarrow> if h \<noteq> 0 then (if u = Handlers (hnd h) then Some (Ob h) else None)
         else (case u of Pz a \<Rightarrow> Some (Zv a) | Handlers _ \<Rightarrow> None))"

text \<open>The slots of the ring and the nodes with an address name each other.\<close>

definition rooted :: "(nat \<Rightarrow> nat) \<Rightarrow> zend_gc_globals \<Rightarrow> nat list \<Rightarrow> bool" where
  "rooted hnd s is \<longleftrightarrow> (\<forall>i \<in> set is. \<exists>n \<in> nodes s. root_node hnd s i = Some n \<and> addr s n = Some (Slot i)) \<and>
     (\<forall>n p. addr s n = Some p \<longrightarrow> (\<exists>i \<in> set is. p = Slot i \<and> root_node hnd s i = Some n))"

fun set_addr :: "gnode \<Rightarrow> rb_ptr option \<Rightarrow> zend_gc_globals \<Rightarrow> zend_gc_globals" where
  "set_addr (Zv a) p s = s\<lparr>zvals := (zvals s)(a := map_option (\<lambda>z. z\<lparr>zv_u := Buffered p (col s (Zv a))\<rparr>) (zvals s a))\<rparr>"
| "set_addr (Ob h) p s = s\<lparr>objects := (objects s)(h := map_option (\<lambda>b. b\<lparr>so_buffered := Buffered p (col s (Ob h))\<rparr>) (objects s h))\<rparr>"

lemma word_set_addr: "gnode_word (set_addr n p s) m = (if m = n \<and> n \<in> nodes s then Some (Buffered p (col s n)) else gnode_word s m)"
  by (cases n; cases m) (auto simp: nodes_def split: option.split)

lemma col_set_addr [gc_simps]: "col (set_addr n p s) = col s"
  by (auto simp: col_def word_set_addr fun_eq_iff nodes_def)

lemma addr_set_addr [gc_simps]: "n \<in> nodes s \<Longrightarrow> addr (set_addr n p s) = (addr s)(n := p)"
  by (auto simp: addr_def word_set_addr fun_eq_iff)

lemma rc_set_addr [gc_simps]: "rc (set_addr n p s) = rc s"
proof
  fix m show "rc (set_addr n p s) m = rc s m" by (cases n; cases m) (auto split: option.split)
qed

lemma frame_set_addr: "frame s (set_addr n p s)"
proof -
  have "map_option zv_rest (map_option (\<lambda>z. z\<lparr>zv_u := w\<rparr>) x) = map_option zv_rest x" for x w
    by (cases x) (simp_all add: zv_rest_def)
  moreover have "map_option so_rest (map_option (\<lambda>b. b\<lparr>so_buffered := w\<rparr>) x) = map_option so_rest x" for x w
    by (cases x) (simp_all add: so_rest_def)
  ultimately show ?thesis unfolding frame_def gsame_def word_set_addr col_set_addr by (cases n) (auto split: if_splits)
qed

lemma buffer_set_addr: "buffer (set_addr n p s) is us = buffer s is us" "refs (set_addr n p s) = refs s"
proof -
  have n: "rb_get_next x (set_addr n p s) = rb_get_next x s" "rb_get_prev x (set_addr n p s) = rb_get_prev x s" for x
    by (cases x; cases n; simp)+
  have sl: "slots (set_addr n p s) = slots s" by (cases n) simp_all
  have "links (set_addr n p s) q xs = links s q xs" for q xs by (rule links_cong) (simp_all add: n)
  moreover have "unused_list (set_addr n p s) q us = unused_list s q us" for q by (rule unused_list_cong) (simp add: sl)
  moreover have "unused (set_addr n p s) = unused s" "first_unused (set_addr n p s) = first_unused s" "last_unused (set_addr n p s) = last_unused s"
    by (cases n; simp)+
  ultimately show "buffer (set_addr n p s) is us = buffer s is us" by (simp add: buffer_def ring_def)
  show "refs (set_addr n p s) = refs s" by (simp add: refs_def sl fun_eq_iff)
qed

lemma set_address_node:
  assumes "gc_wf get_gc hnd s"
  shows "Zv a \<in> nodes s \<Longrightarrow> GC_ZVAL_SET_ADDRESS a p s = Some (set_addr (Zv a) p s)"
    and "Ob h \<in> nodes s \<Longrightarrow> obj_set_address h p s = Some (set_addr (Ob h) p s)"
proof -
  assume n: "Zv a \<in> nodes s"
  then show "GC_ZVAL_SET_ADDRESS a p s = Some (set_addr (Zv a) p s)"
    using wf_word [OF assms n] by (auto simp: GC_ZVAL_SET_ADDRESS_def zv_upd_def nodes_def)
next
  assume n: "Ob h \<in> nodes s"
  then show "obj_set_address h p s = Some (set_addr (Ob h) p s)"
    using wf_word [OF assms n] by (auto simp: obj_set_address_def so_upd_def nodes_def)
qed

lemma no_ptrs_graph: "no_ptrs s' = no_ptrs s \<Longrightarrow> frame s s' \<and> col s' = col s \<and> rc s' = rc s \<and> addr s' = addr s"
proof -
  assume e: "no_ptrs s' = no_ptrs s"
  have z: "zvals s' = zvals s" "objects s' = objects s" using no_ptrs_fields [OF e] by simp_all
  have w: "gnode_word s' = gnode_word s"
  proof
    fix n show "gnode_word s' n = gnode_word s n" by (cases n) (simp_all add: z)
  qed
  have "rc s' = rc s"
  proof
    fix n show "rc s' n = rc s n" by (cases n) (simp_all add: z)
  qed
  moreover have "object_buckets_on s' = object_buckets_on s \<and> tables s' = tables s \<and> symbol_table s' = symbol_table s"
    using e by (cases s; cases s'; simp add: no_ptrs_def)
  ultimately show ?thesis by (simp add: frame_def gsame_def z w col_def addr_def fun_eq_iff)
qed

text \<open>What is outside the graph and the buffer.\<close>

definition outer :: "zend_gc_globals \<Rightarrow> zend_gc_globals" where
  "outer s = s\<lparr>zvals := Map.empty, objects := Map.empty, roots := (Roots, Roots), slots := Map.empty, unused := None, zval_to_free := None\<rparr>"

lemma bframe_outer: "bframe s s' \<Longrightarrow> outer s' = outer s \<and> zval_to_free s' = zval_to_free s"
  by (cases s; cases s'; simp add: bframe_def outer_def)

lemma no_ptrs_outer: "no_ptrs s' = no_ptrs s \<Longrightarrow> outer s' = outer s \<and> zval_to_free s' = zval_to_free s"
  by (cases s; cases s'; simp add: no_ptrs_def outer_def)

lemma set_addr_outer: "outer (set_addr n p s) = outer s" "zval_to_free (set_addr n p s) = zval_to_free s"
  by (cases n; simp add: outer_def)+

lemma rooted_remove:
  assumes r: "rooted hnd s (xs @ i # ys)" and d: "distinct (xs @ i # ys)" and n: "root_node hnd s i = Some n"
    and s': "addr s' = (addr s)(n := None)" "root_node hnd s' = root_node hnd s" "nodes s' = nodes s"
  shows "rooted hnd s' (xs @ ys)"
proof -
  have an: "addr s n = Some (Slot i)" using r n unfolding rooted_def by auto
  show ?thesis using r n an d unfolding rooted_def s' by (auto split: if_splits) fastforce+
qed

lemma unroot:
  assumes w: "gc_wf get_gc hnd s" and b: "buffer s (xs @ i # ys) us" and r: "rooted hnd s (xs @ i # ys)" and n: "root_node hnd s i = Some n"
  shows "\<exists>s'. gc_remove_from_buffer i (set_addr n None s) = Some s' \<and> buffer s' (xs @ ys) (i # us) \<and> rooted hnd s' (xs @ ys) \<and>
    frame s s' \<and> col s' = col s \<and> rc s' = rc s \<and> addr s' = (addr s)(n := None) \<and> refs s' = refs s \<and>
    outer s' = outer s \<and> zval_to_free s' = zval_to_free s \<and>
    rb_get_next (Slot i) s' = Some (hd (map Slot ys @ [Roots]))"
proof -
  have nn: "n \<in> nodes s" using r n unfolding rooted_def by auto
  let ?s = "set_addr n None s"
  obtain s' where s': "gc_remove_from_buffer i ?s = Some s'" "buffer s' (xs @ ys) (i # us)" "refs s' = refs ?s" "no_ptrs s' = no_ptrs ?s"
      "rb_get_next (Slot i) s' = Some (hd (map Slot ys @ [Roots]))"
    using remove_buffer [of ?s xs i ys us] b unfolding buffer_set_addr by blast
  have g: "frame s s'" "col s' = col s" "rc s' = rc s" "addr s' = (addr s)(n := None)" "refs s' = refs s"
    using no_ptrs_graph [OF s'(4)] frame_trans [OF frame_set_addr] s'(3) buffer_set_addr(2) by (auto simp: gc_simps nn)
  have rn: "root_node hnd s' = root_node hnd s" by (simp add: root_node_def g(5) fun_eq_iff)
  have "distinct (xs @ i # ys)" using b by (auto simp: buffer_def)
  then have "rooted hnd s' (xs @ ys)" by (rule rooted_remove [OF r _ n g(4) rn frame_nodes [OF g(1)]])
  moreover have "outer s' = outer s" "zval_to_free s' = zval_to_free s" using no_ptrs_outer [OF s'(4)] by (simp_all add: set_addr_outer)
  ultimately show ?thesis using s' g by blast
qed

end
