(* ===== verification/Zend_Gc_Passes.thy ===== *)
theory Zend_Gc_Passes
  imports Zend_Gc_Roots
begin

text \<open>
  The first two passes of a collection over the whole buffer of roots, and what they find: the
  greatest set of nodes reached from the roots whose references are all from inside the set.
\<close>

subsection \<open>A loop over the roots\<close>

definition first_ptr :: "nat list \<Rightarrow> rb_ptr" where
  "first_ptr is = hd (map Slot is @ [Roots])"

lemma first_ptr_simps [simp]: "first_ptr [] = Roots" "first_ptr (i # is) = Slot i"
  by (simp_all add: first_ptr_def)

lemma root_loop_run:
  assumes step: "\<And>ks i rest s. Inv ks (i # rest) s \<Longrightarrow>
      \<exists>s' ks'. body i s = Some s' \<and> Inv ks' rest s' \<and> rb_get_next (Slot i) s' = Some (first_ptr rest)"
  shows "Inv ks rest s \<Longrightarrow> \<exists>s' ks'. root_loop body (first_ptr rest) s = Some s' \<and> Inv ks' [] s'"
proof (induction rest arbitrary: ks s)
  case Nil
  then show ?case by (subst root_loop.simps) auto
next
  case (Cons i rest)
  obtain s' ks' where s': "body i s = Some s'" "Inv ks' rest s'" "rb_get_next (Slot i) s' = Some (first_ptr rest)"
    using step [OF Cons.prems] by blast
  have "root_loop body (Slot i) s = root_loop body (first_ptr rest) s'"
    using s'(1,3) by (subst root_loop.simps) (simp del: rb_get_next.simps)
  then show ?case using Cons.IH [OF s'(2)] by simp
qed

lemma ring_next: "ring s (xs @ i # ys) \<Longrightarrow> rb_get_next (Slot i) s = Some (first_ptr ys)"
proof -
  assume "ring s (xs @ i # ys)"
  then have "links s (Slot i) (map Slot ys @ [Roots])" by (simp add: ring_def links_append del: rb_get_next.simps)
  then show ?thesis by (cases ys) (simp_all add: link_def)
qed

lemma ring_first: "ring s is \<Longrightarrow> fst (roots s) = first_ptr is"
  by (cases "is") (simp_all add: ring_def link_def)

lemma root_slot: "root_node hnd s i = Some n \<Longrightarrow> \<exists>r. slots s i = Some r \<and>
    (case n of Ob h \<Rightarrow> rb_handle r = h \<and> h \<noteq> 0 \<and> rb_u r = Handlers (hnd h) | Zv a \<Rightarrow> rb_handle r = 0 \<and> rb_u r = Pz a)"
  by (cases "slots s i") (auto simp: root_node_def refs_def split: if_splits rb_ref.splits)

lemma mark_root_node:
  assumes w: "gc_wf get_gc hnd s" and r: "root_node hnd s i = Some n" and n: "n \<in> nodes s"
  shows "mark_root get_gc i s = (if col s n = GC_PURPLE then mark_node get_gc hnd n s else gc_remove_from_buffer i (set_addr n None s))"
proof (cases n)
  case (Zv a)
  obtain z where z: "zvals s a = Some z" "zv_u z = Buffered (addr s (Zv a)) (col s (Zv a))"
    using node_zv [OF w] n Zv by blast
  show ?thesis using root_slot [OF r] z set_address_node(1) [OF w] n Zv by (auto simp: mark_root_def)
next
  case (Ob h)
  obtain b where b: "objects s h = Some b" "so_buffered b = Buffered (addr s (Ob h)) (col s (Ob h))"
    using node_ob [OF w] n Ob by blast
  have "object_buckets_on s" using w b(1) unfolding gc_wf_def by blast
  then show ?thesis using root_slot [OF r] b set_address_node(2) [OF w] n Ob by (auto simp: mark_root_def)
qed

lemma scan_root_node: "root_node hnd s i = Some n \<Longrightarrow> scan_root get_gc i s = scan_node get_gc hnd n s"
  by (cases n) (auto simp: scan_root_def dest!: root_slot)

lemma rooted_node: "rooted hnd s is \<Longrightarrow> i \<in> set is \<Longrightarrow> \<exists>n. root_node hnd s i = Some n \<and> n \<in> nodes s \<and> addr s n = Some (Slot i)"
  by (auto simp: rooted_def)

lemma frame_rooted: "frame s s' \<Longrightarrow> bframe s s' \<Longrightarrow> rooted hnd s' is = rooted hnd s is"
  by (simp add: rooted_def root_node_def refs_def frame_nodes bframe_fields)

lemma bframe_root_node: "bframe s s' \<Longrightarrow> root_node hnd s' = root_node hnd s"
  by (simp add: root_node_def refs_def bframe_fields fun_eq_iff)

subsection \<open>The mark pass\<close>

text \<open>Between collections: every node is black or purple, and the purple ones are in the buffer.\<close>

definition idle :: "zend_gc_globals \<Rightarrow> bool" where
  "idle s \<longleftrightarrow> (\<forall>n. col s n = GC_BLACK \<or> col s n = GC_PURPLE \<and> addr s n \<noteq> None)"

definition gc_inv :: "get_gc \<Rightarrow> (nat \<Rightarrow> nat) \<Rightarrow> zend_gc_globals \<Rightarrow> nat list \<Rightarrow> nat list \<Rightarrow> bool" where
  "gc_inv get_gc hnd s is us \<longleftrightarrow> gc_wf get_gc hnd s \<and> buffer s is us \<and> rooted hnd s is"

definition mark_inv :: "get_gc \<Rightarrow> (nat \<Rightarrow> nat) \<Rightarrow> zend_gc_globals \<Rightarrow> nat list \<Rightarrow> nat list \<Rightarrow> zend_gc_globals \<Rightarrow> bool" where
  "mark_inv get_gc hnd s0 ks rest s \<longleftrightarrow> (\<exists>us M. gc_inv get_gc hnd s (ks @ rest) us \<and>
     traced get_gc hnd GC_GREY (- 1) M [] s0 s \<and> map (root_node hnd s) ks = map Some M \<and>
     (\<forall>m \<in> set M. col s0 m = GC_PURPLE) \<and> (\<forall>i. refs s i = refs s0 i) \<and> outer s = outer s0 \<and> zval_to_free s = zval_to_free s0 \<and>
     (\<forall>n. col s n = GC_PURPLE \<longrightarrow> (\<exists>i \<in> set rest. root_node hnd s i = Some n)))"

lemma traced_same: "traced get_gc hnd c d X Y s0 s \<Longrightarrow> frame s s' \<Longrightarrow> col s' = col s \<Longrightarrow> rc s' = rc s \<Longrightarrow> traced get_gc hnd c d X Y s0 s'"
  using frame_trans [of s0 s s'] by (simp add: traced_def painted_def)

lemma mark_step:
  assumes w0: "gc_wf get_gc hnd s0" and I: "mark_inv get_gc hnd s0 ks (i # rest) s"
  shows "\<exists>s' ks'. mark_root get_gc i s = Some s' \<and> mark_inv get_gc hnd s0 ks' rest s' \<and> rb_get_next (Slot i) s' = Some (first_ptr rest)"
proof -
  obtain us M where i: "gc_wf get_gc hnd s" "buffer s (ks @ i # rest) us" "rooted hnd s (ks @ i # rest)"
      and t: "traced get_gc hnd GC_GREY (- 1) M [] s0 s" and M: "map (root_node hnd s) ks = map Some M" "\<forall>m \<in> set M. col s0 m = GC_PURPLE"
      and r: "refs s = refs s0" and o: "outer s = outer s0" "zval_to_free s = zval_to_free s0" and p: "\<forall>n. col s n = GC_PURPLE \<longrightarrow> (\<exists>i \<in> set (i # rest). root_node hnd s i = Some n)"
    using I unfolding mark_inv_def gc_inv_def by (auto simp: fun_eq_iff)
  obtain n where n: "root_node hnd s i = Some n" "n \<in> nodes s" using rooted_node [OF i(3)] by auto
  note step = mark_root_node [OF i(1) n]
  show ?thesis
  proof (cases "col s n = GC_PURPLE")
    case True
    obtain s' where s': "mark_node get_gc hnd n s = Some s'" and t': "traced get_gc hnd GC_GREY (- 1) [n] [] s s'" and b: "bframe s s'"
      using mk.visit_traced [OF i(1) n(2)] by blast
    have f: "frame s s'" and c: "\<forall>m. col s' m = col s m \<or> col s' m = fin GC_GREY s m" and cn: "col s' n = fin GC_GREY s n"
      using t' by (auto simp: traced_def)
    have rn: "root_node hnd s' = root_node hnd s" by (rule bframe_root_node [OF b])
    have "traced get_gc hnd GC_GREY (- 1) (M @ [n]) ([] @ []) s0 s'" by (rule traced_append [OF w0 t t'])
    moreover have "gc_inv get_gc hnd s' ((ks @ [i]) @ rest) us"
      using i bframe_buffer [OF b] frame_rooted [OF f b] frame_wf [OF f] by (simp add: gc_inv_def)
    moreover have "col s0 n = GC_PURPLE" using t True by (auto simp: traced_def fin_def split: if_splits) (metis gc_colour.distinct(5,11))
    moreover have "\<exists>i \<in> set rest. root_node hnd s i = Some m" if "col s' m = GC_PURPLE" for m
    proof -
      have "fin GC_GREY s m \<noteq> GC_PURPLE" by (simp add: fin_def)
      then have "col s m = GC_PURPLE" "m \<noteq> n" using c that cn by metis+
      then show ?thesis using p n(1) by auto
    qed
    moreover have "refs s' = refs s0" using r bframe_fields(5) [OF b] by (simp add: refs_def fun_eq_iff)
    ultimately have "mark_inv get_gc hnd s0 (ks @ [i]) rest s'" unfolding mark_inv_def
      using M n(1) rn o bframe_outer [OF b] by (intro exI [of _ us] exI [of _ "M @ [n]"]) auto
    moreover have "rb_get_next (Slot i) s' = Some (first_ptr rest)"
      using i(2) bframe_buffer [OF b] ring_next unfolding buffer_def by blast
    ultimately show ?thesis using step True s' by auto
  next
    case False
    obtain s' where s': "gc_remove_from_buffer i (set_addr n None s) = Some s'" "buffer s' (ks @ rest) (i # us)" "rooted hnd s' (ks @ rest)"
        "frame s s'" "col s' = col s" "rc s' = rc s" "refs s' = refs s" "rb_get_next (Slot i) s' = Some (first_ptr rest)"
        "outer s' = outer s" "zval_to_free s' = zval_to_free s"
      using unroot [OF i n(1)] unfolding first_ptr_def by blast
    have rn: "root_node hnd s' = root_node hnd s" by (simp add: root_node_def s'(7) fun_eq_iff)
    have "\<exists>i \<in> set rest. root_node hnd s i = Some m" if "col s m = GC_PURPLE" for m
      using p n(1) False that by auto
    then have "mark_inv get_gc hnd s0 ks rest s'" unfolding mark_inv_def gc_inv_def
      using M r o rn s' frame_wf [OF s'(4) i(1)] traced_same [OF t s'(4-6)] by (intro exI [of _ "i # us"] exI [of _ M]) simp
    then show ?thesis using step False s'(1,8) by auto
  qed
qed


text \<open>
  The reference counts are honest when they are at least the number of references there are; the
  suspects are what is reached from the purple nodes.
\<close>

definition honest :: "get_gc \<Rightarrow> (nat \<Rightarrow> nat) \<Rightarrow> zend_gc_globals \<Rightarrow> bool" where
  "honest get_gc hnd s \<longleftrightarrow> (\<forall>x \<in> nodes s - uncounted s. crossing get_gc hnd s (nodes s) x \<le> unat (rc s x))"

definition suspects :: "get_gc \<Rightarrow> (nat \<Rightarrow> nat) \<Rightarrow> zend_gc_globals \<Rightarrow> gnode set" where
  "suspects get_gc hnd s = reach get_gc hnd s {n. col s n = GC_PURPLE} - uncounted s"

lemma kids_uncounted: "n \<in> uncounted s \<Longrightarrow> kids get_gc hnd s n = []"
  by (auto simp: uncounted_def)

lemma crossing_counted: "finite A \<Longrightarrow> crossing get_gc hnd s (A - uncounted s) x = crossing get_gc hnd s A x"
  unfolding crossing_def by (rule sum.mono_neutral_left) (auto simp: kids_uncounted)

lemma unat_minus_of_nat: "k \<le> unat (r :: uint) \<Longrightarrow> unat (r + - 1 * of_nat k) = unat r - k"
proof -
  assume k: "k \<le> unat r"
  then have "unat (of_nat k :: uint) = k" using unsigned_less [of r, where 'a = nat] by (simp add: unat_of_nat)
  then have "unat (r - of_nat k) = unat r - k" using k by (simp add: unat_sub word_le_nat_alt)
  then show ?thesis by simp
qed

lemma traced_grey:
  assumes w: "gc_wf get_gc hnd s0" and c0: "\<And>n. col s0 n = GC_BLACK \<or> col s0 n = GC_PURPLE"
    and t: "traced get_gc hnd GC_GREY (- 1) M [] s0 s1"
  shows "grey s1 = painted GC_GREY s0 s1 - uncounted s0"
proof -
  have f: "frame s0 s1" using t by (simp add: traced_def)
  have w1: "gc_wf get_gc hnd s1" by (rule frame_wf [OF f w])
  have "n \<in> painted GC_GREY s0 s1 - uncounted s0" if n: "n \<in> grey s1" for n
  proof -
    have "n \<in> nodes s0" "n \<notin> uncounted s0" using n grey_nodes grey_counted [OF w1] frame_nodes [OF f] frame_uncounted [OF f] by blast+
    then show ?thesis using n c0 [of n] by (auto simp: painted_def fin_def grey_def)
  qed
  moreover have "painted GC_GREY s0 s1 - uncounted s0 \<subseteq> grey s1" by (auto simp: painted_def fin_def grey_def)
  ultimately show ?thesis by blast
qed

lemma traced_suspects:
  assumes w: "gc_wf get_gc hnd s0" and c0: "\<And>n. col s0 n = GC_BLACK \<or> col s0 n = GC_PURPLE"
    and t: "traced get_gc hnd GC_GREY (- 1) M [] s0 s1" and M: "\<forall>m \<in> set M. col s0 m = GC_PURPLE"
    and p: "\<And>n. col s1 n \<noteq> GC_PURPLE"
  shows "grey s1 = suspects get_gc hnd s0"
proof
  note g = traced_grey [OF w c0 t]
  have "painted GC_GREY s0 s1 \<subseteq> reach get_gc hnd s0 (set M)" using t by (simp add: traced_def)
  then show "grey s1 \<subseteq> suspects get_gc hnd s0"
    using reach_mono [of "set M" "{n. col s0 n = GC_PURPLE}"] M unfolding g suspects_def by blast
  have "reach get_gc hnd s0 {n. col s0 n = GC_PURPLE} \<subseteq> grey s1 \<union> uncounted s0"
  proof (rule reach_closed)
    show "{n. col s0 n = GC_PURPLE} \<subseteq> grey s1 \<union> uncounted s0"
    proof
      fix n assume "n \<in> {n. col s0 n = GC_PURPLE}"
      then have "col s1 n = fin GC_GREY s0 n" using t p [of n] unfolding traced_def by auto metis
      then show "n \<in> grey s1 \<union> uncounted s0" by (simp add: fin_def grey_def split: if_splits)
    qed
  next
    fix n k assume n: "n \<in> grey s1 \<union> uncounted s0" and k: "k \<in> set (kids get_gc hnd s0 n)"
    then have "n \<in> painted GC_GREY s0 s1" using g kids_uncounted by fastforce
    then have "col s1 k = fin GC_GREY s0 k" using t k unfolding traced_def by blast
    then show "k \<in> grey s1 \<union> uncounted s0" by (simp add: fin_def grey_def split: if_splits)
  qed
  then show "suspects get_gc hnd s0 \<subseteq> grey s1" unfolding suspects_def by blast
qed

lemma traced_counts:
  assumes w: "gc_wf get_gc hnd s0" and c0: "\<And>n. col s0 n = GC_BLACK \<or> col s0 n = GC_PURPLE"
    and h: "honest get_gc hnd s0" and t: "traced get_gc hnd GC_GREY (- 1) M [] s0 s1" and x: "x \<in> nodes s0 - uncounted s0"
  shows "unat (rc s1 x) + crossing get_gc hnd s0 (grey s1) x = unat (rc s0 x)"
proof -
  let ?k = "crossing get_gc hnd s0 (grey s1) x"
  have g: "?k = crossing get_gc hnd s0 (painted GC_GREY s0 s1) x"
    unfolding traced_grey [OF w c0 t] by (rule crossing_counted [OF finite_painted [OF w]])
  have "?k \<le> crossing get_gc hnd s0 (nodes s0) x" unfolding g
    by (rule crossing_mono) (use w in \<open>auto simp: gc_wf_def painted_def\<close>)
  also have "\<dots> \<le> unat (rc s0 x)" using h x unfolding honest_def by blast
  finally have "?k \<le> unat (rc s0 x)" .
  moreover have "rc s1 x = rc s0 x + - 1 * of_nat ?k" using t x unfolding traced_def g by simp
  ultimately show ?thesis using unat_minus_of_nat by simp
qed

lemma traced_marked:
  assumes w: "gc_wf get_gc hnd s0" and c0: "\<And>n. col s0 n = GC_BLACK \<or> col s0 n = GC_PURPLE"
    and h: "honest get_gc hnd s0" and t: "traced get_gc hnd GC_GREY (- 1) M [] s0 s1" and p: "\<And>n. col s1 n \<noteq> GC_PURPLE"
  shows "marked get_gc hnd s1"
proof -
  have f: "frame s0 s1" using t by (simp add: traced_def)
  have w1: "gc_wf get_gc hnd s1" by (rule frame_wf [OF f w])
  have gn: "grey s1 \<subseteq> nodes s0 - uncounted s0" using grey_nodes [of s1] grey_counted [OF w1] frame_nodes [OF f] frame_uncounted [OF f] by blast
  have "unat (rc s1 x) + crossing get_gc hnd s0 (grey s1) x < 2 ^ 32" if "x \<in> grey s1" for x
    using traced_counts [OF w c0 h t, of x] gn that unsigned_less [of "rc s0 x", where 'a = nat] by auto
  moreover have "col s1 n = GC_GREY \<or> col s1 n = GC_BLACK" for n
    using t c0 [of n] p [of n] unfolding traced_def fin_def by metis
  moreover have "\<forall>n \<in> grey s1. \<forall>k \<in> set (kids get_gc hnd s0 n). col s1 k = fin GC_GREY s0 k"
    using t unfolding traced_grey [OF w c0 t] traced_def by blast
  ultimately show ?thesis using w1
    unfolding marked_def frame_crossing [OF f] frame_kids [OF f] frame_fin [OF f] by blast
qed

lemma mark_pass:
  assumes i: "gc_inv get_gc hnd s0 is us" and c0: "idle s0" and h: "honest get_gc hnd s0"
  shows "\<exists>s1 ks us' M. gc_mark_roots get_gc s0 = Some s1 \<and> gc_inv get_gc hnd s1 ks us' \<and> marked get_gc hnd s1 \<and> frame s0 s1 \<and>
    map (root_node hnd s1) ks = map Some M \<and> set M \<subseteq> grey s1 \<union> uncounted s1 \<and> grey s1 \<subseteq> reach get_gc hnd s1 (set M) \<and>
    grey s1 = suspects get_gc hnd s0 \<and>
    (\<forall>x \<in> nodes s0 - uncounted s0. unat (rc s1 x) + crossing get_gc hnd s0 (grey s1) x = unat (rc s0 x)) \<and>
    (\<forall>x \<in> uncounted s0. rc s1 x = rc s0 x) \<and> outer s1 = outer s0 \<and> zval_to_free s1 = zval_to_free s0"
proof -
  have w: "gc_wf get_gc hnd s0" and b: "buffer s0 is us" and r: "rooted hnd s0 is" using i by (simp_all add: gc_inv_def)
  have c: "col s0 n = GC_BLACK \<or> col s0 n = GC_PURPLE" for n using c0 unfolding idle_def by blast
  have "\<exists>i \<in> set is. root_node hnd s0 i = Some n" if "col s0 n = GC_PURPLE" for n
    using that c0 r unfolding idle_def rooted_def by (metis gc_colour.distinct(5) not_None_eq)
  then have "mark_inv get_gc hnd s0 [] is s0" using i traced_none [of "[]"] unfolding mark_inv_def by auto
  then obtain s1 ks where l: "root_loop (mark_root get_gc) (first_ptr is) s0 = Some s1" and I: "mark_inv get_gc hnd s0 ks [] s1"
    using root_loop_run [of "mark_inv get_gc hnd s0" "mark_root get_gc"] mark_step [OF w] by blast
  obtain us' M where i1: "gc_inv get_gc hnd s1 ks us'" and t: "traced get_gc hnd GC_GREY (- 1) M [] s0 s1"
      and M: "map (root_node hnd s1) ks = map Some M" "\<forall>m \<in> set M. col s0 m = GC_PURPLE" and p: "\<And>n. col s1 n \<noteq> GC_PURPLE"
      and o: "outer s1 = outer s0" "zval_to_free s1 = zval_to_free s0"
    using I unfolding mark_inv_def by auto
  have run: "gc_mark_roots get_gc s0 = Some s1" using l ring_first [of s0 "is"] b by (simp add: gc_mark_roots_def buffer_def)
  have f: "frame s0 s1" using t by (simp add: traced_def)
  note eqs = frame_uncounted [OF f] frame_reach [OF f] frame_crossing [OF f] frame_kids [OF f] frame_fin [OF f]
  note g = traced_grey [OF w c t] traced_suspects [OF w c t M(2) p]
  note counts = traced_counts [OF w c h t]
  have m: "marked get_gc hnd s1" by (rule traced_marked [OF w c h t p])
  have "set M \<subseteq> grey s1 \<union> uncounted s1"
  proof
    fix m assume "m \<in> set M"
    then have "col s1 m = fin GC_GREY s0 m" using t by (simp add: traced_def)
    then show "m \<in> grey s1 \<union> uncounted s1" by (simp add: fin_def grey_def frame_uncounted [OF f] split: if_splits)
  qed
  moreover have "grey s1 \<subseteq> reach get_gc hnd s1 (set M)" using t unfolding g(1) eqs traced_def by blast
  moreover have "\<forall>x \<in> uncounted s0. rc s1 x = rc s0 x" using t by (simp add: traced_def)
  ultimately show ?thesis using run i1 m f M(1) g(2) counts o by blast
qed

subsection \<open>The scan pass\<close>

definition scan_inv :: "get_gc \<Rightarrow> (nat \<Rightarrow> nat) \<Rightarrow> zend_gc_globals \<Rightarrow> nat list \<Rightarrow> nat list \<Rightarrow> nat list \<Rightarrow> zend_gc_globals \<Rightarrow> bool" where
  "scan_inv get_gc hnd s1 is ks rest s \<longleftrightarrow> ks @ rest = is \<and> (\<exists>X. map (root_node hnd s1) ks = map Some X \<and> scan_post get_gc hnd s1 X s1 s)"

lemma scan_step:
  assumes m: "marked get_gc hnd s1" and b: "ring s1 is" "rooted hnd s1 is" and I: "scan_inv get_gc hnd s1 is ks (i # rest) s"
  shows "\<exists>s' ks'. scan_root get_gc i s = Some s' \<and> scan_inv get_gc hnd s1 is ks' rest s' \<and> rb_get_next (Slot i) s' = Some (first_ptr rest)"
proof -
  obtain X where ks: "ks @ i # rest = is" and X: "map (root_node hnd s1) ks = map Some X" and p: "scan_post get_gc hnd s1 X s1 s"
    using I by (auto simp: scan_inv_def)
  have bf: "bframe s1 s" and sc: "scanned get_gc hnd s1 s" using p by (simp_all add: scan_post_def)
  obtain n where n: "root_node hnd s1 i = Some n" "n \<in> nodes s1" using rooted_node [OF b(2), of i] ks by auto
  obtain s' where s': "visits (scan_node get_gc hnd) [n] s = Some s'" and p': "scan_post get_gc hnd s1 [n] s s'"
    using scan_run [OF m sc, of "[n]"] n(2) scanned_nodes [OF sc] by auto
  have run: "scan_root get_gc i s = Some s'" using s' scan_root_node [of hnd s i n get_gc] n(1) bframe_root_node [OF bf] by simp
  have p'': "scan_post get_gc hnd s1 (X @ [n]) s1 s'" by (rule scan_post_append [OF p p'])
  then have bf': "bframe s1 s'" by (simp add: scan_post_def)
  have "rb_get_next (Slot i) s' = rb_get_next (Slot i) s1" using bframe_fields(5) [OF bf'] by simp
  moreover have "rb_get_next (Slot i) s1 = Some (first_ptr rest)" using ring_next [of s1 ks i rest] b(1) ks by blast
  moreover have "scan_inv get_gc hnd s1 is (ks @ [i]) rest s'" unfolding scan_inv_def using ks X n(1) p''
    by (intro conjI exI [of _ "X @ [n]"]) simp_all
  ultimately show ?thesis using run by metis
qed

lemma scan_pass:
  assumes m: "marked get_gc hnd s1" and i: "gc_inv get_gc hnd s1 is us" and X: "map (root_node hnd s1) is = map Some X"
  shows "\<exists>s2. gc_scan_roots get_gc s1 = Some s2 \<and> gc_inv get_gc hnd s2 is us \<and> scan_post get_gc hnd s1 X s1 s2"
proof -
  have b: "ring s1 is" "rooted hnd s1 is" using i by (simp_all add: gc_inv_def buffer_def)
  have "scan_inv get_gc hnd s1 is [] is s1" using scan_post_refl [OF scanned_refl [OF m], of "[]"] by (simp add: scan_inv_def)
  then obtain s2 ks where l: "root_loop (scan_root get_gc) (first_ptr is) s1 = Some s2" and I: "scan_inv get_gc hnd s1 is ks [] s2"
    using root_loop_run [of "scan_inv get_gc hnd s1 is" "scan_root get_gc"] scan_step [OF m b] by blast
  have p: "scan_post get_gc hnd s1 X s1 s2" using I X inj_map_eq_map [of Some] by (auto simp: scan_inv_def)
  then have f: "frame s1 s2" and bf: "bframe s1 s2" by (simp_all add: scan_post_def scanned_def)
  have "gc_inv get_gc hnd s2 is us"
    using i frame_wf [OF f] bframe_buffer [OF bf] frame_rooted [OF f bf] by (simp add: gc_inv_def)
  then show ?thesis using l p ring_first [OF b(1)] by (simp add: gc_scan_roots_def)
qed

subsection \<open>What the two passes find\<close>

text \<open>
  A set of nodes is self-contained when the count of each of its nodes is the number of references
  to it from the set: nothing outside refers to it. Garbage is what is suspect and lies in a
  self-contained set of suspects.
\<close>

definition self_contained :: "get_gc \<Rightarrow> (nat \<Rightarrow> nat) \<Rightarrow> zend_gc_globals \<Rightarrow> gnode set \<Rightarrow> bool" where
  "self_contained get_gc hnd s D \<longleftrightarrow> D \<subseteq> nodes s - uncounted s \<and> (\<forall>x \<in> D. crossing get_gc hnd s D x = unat (rc s x))"

definition garbage :: "get_gc \<Rightarrow> (nat \<Rightarrow> nat) \<Rightarrow> zend_gc_globals \<Rightarrow> gnode set" where
  "garbage get_gc hnd s = \<Union> {D. D \<subseteq> suspects get_gc hnd s \<and> self_contained get_gc hnd s D}"

definition white :: "zend_gc_globals \<Rightarrow> gnode set" where
  "white s = {n. col s n = GC_WHITE}"

lemma crossing_zero: "\<forall>n \<in> A. x \<notin> set (kids get_gc hnd s n) \<Longrightarrow> crossing get_gc hnd s A x = 0"
  using crossing_edge by blast

text \<open>Under honest counts, what refers into a self-contained set is inside it.\<close>

lemma self_contained_edge:
  assumes w: "gc_wf get_gc hnd s" and h: "honest get_gc hnd s" and D: "self_contained get_gc hnd s D"
    and n: "n \<in> nodes s" and k: "k \<in> set (kids get_gc hnd s n)" "k \<in> D"
  shows "n \<in> D"
proof (rule ccontr)
  assume nD: "n \<notin> D"
  have Dn: "D \<subseteq> nodes s" and kn: "k \<in> nodes s - uncounted s" using D k(2) by (auto simp: self_contained_def)
  have fin: "finite (nodes s)" using w by (simp add: gc_wf_def)
  have "crossing get_gc hnd s D k < crossing get_gc hnd s (insert n D) k"
    using crossing_insert [OF finite_subset [OF Dn fin] nD] k(1) count_list_0_iff [of "kids get_gc hnd s n" k] by simp
  also have "\<dots> \<le> crossing get_gc hnd s (nodes s) k" by (rule crossing_mono [OF fin]) (use n Dn in blast)
  also have "\<dots> \<le> unat (rc s k)" using h kn by (auto simp: honest_def)
  finally show False using D k(2) by (simp add: self_contained_def)
qed

lemma garbage_exact:
  assumes w: "gc_wf get_gc hnd s0" and h: "honest get_gc hnd s0" and G: "G = suspects get_gc hnd s0" "G \<subseteq> nodes s0 - uncounted s0"
    and r: "\<And>x. x \<in> nodes s0 - uncounted s0 \<Longrightarrow> unat (rc s1 x) + crossing get_gc hnd s0 G x = unat (rc s0 x)"
    and K: "K = reach get_gc hnd s0 {n \<in> G. rc s1 n \<noteq> 0} \<inter> G"
  shows "self_contained get_gc hnd s0 (G - K)" "garbage get_gc hnd s0 = G - K"
proof -
  have fin: "finite G" using w G(2) finite_subset unfolding gc_wf_def by blast
  have KG: "K \<subseteq> G" unfolding K by blast
  have sc: "crossing get_gc hnd s0 (G - K) x = unat (rc s0 x)" if x: "x \<in> G - K" for x
  proof -
    have "x \<notin> {n \<in> G. rc s1 n \<noteq> 0}" using x reach_self [of "{n \<in> G. rc s1 n \<noteq> 0}" get_gc hnd s0] K by auto
    then have "rc s1 x = 0" using x by blast
    moreover have "crossing get_gc hnd s0 K x = 0"
    proof (rule crossing_zero, intro ballI notI)
      fix n assume "n \<in> K" "x \<in> set (kids get_gc hnd s0 n)"
      then have "x \<in> reach get_gc hnd s0 {n \<in> G. rc s1 n \<noteq> 0}" unfolding K by (elim IntE) (rule reach_kids)
      then show False using x K by blast
    qed
    moreover have "crossing get_gc hnd s0 ((G - K) \<union> K) x = crossing get_gc hnd s0 (G - K) x + crossing get_gc hnd s0 K x"
      by (rule crossing_Un) (use KG fin finite_subset in auto)
    moreover have "(G - K) \<union> K = G" using KG by blast
    ultimately show ?thesis using r [of x] x G(2) by auto
  qed
  then show s: "self_contained get_gc hnd s0 (G - K)" using G(2) by (auto simp: self_contained_def)
  have "D \<inter> K = {}" if D: "D \<subseteq> G" "self_contained get_gc hnd s0 D" for D
  proof -
    have "reach get_gc hnd s0 {n \<in> G. rc s1 n \<noteq> 0} \<subseteq> nodes s0 - D"
    proof (rule reach_closed)
      have "n \<notin> D" if n: "n \<in> G" "rc s1 n \<noteq> 0" for n
      proof
        assume "n \<in> D"
        then have "crossing get_gc hnd s0 D n = unat (rc s0 n)" using D(2) by (simp add: self_contained_def)
        moreover have "crossing get_gc hnd s0 D n \<le> crossing get_gc hnd s0 G n" by (rule crossing_mono [OF fin D(1)])
        moreover have "unat (rc s1 n) + crossing get_gc hnd s0 G n = unat (rc s0 n)" using r n(1) G(2) by blast
        moreover have "unat (rc s1 n) \<noteq> 0" using n(2) by (simp add: unat_eq_0)
        ultimately show False by simp
      qed
      then show "{n \<in> G. rc s1 n \<noteq> 0} \<subseteq> nodes s0 - D" using G(2) by blast
    next
      fix n k assume n: "n \<in> nodes s0 - D" and k: "k \<in> set (kids get_gc hnd s0 n)"
      then show "k \<in> nodes s0 - D" using self_contained_edge [OF w h D(2), of n k] w unfolding gc_wf_def by blast
    qed
    then show ?thesis unfolding K by blast
  qed
  then show "garbage get_gc hnd s0 = G - K" using s unfolding garbage_def G(1) [symmetric] by blast
qed

lemma white_dropped: "scanned get_gc hnd s1 s2 \<Longrightarrow> grey s2 = {} \<Longrightarrow> white s2 = grey s1 - kept s1 s2"
proof (rule set_eqI)
  fix n assume i: "scanned get_gc hnd s1 s2" and g: "grey s2 = {}"
  have "col s2 n \<noteq> GC_GREY" "col s2 n \<noteq> GC_PURPLE" "n \<notin> grey s1 \<Longrightarrow> col s2 n = GC_BLACK"
    using i g by (auto simp: grey_def scanned_def)
  then show "n \<in> white s2 \<longleftrightarrow> n \<in> grey s1 - kept s1 s2"
    by (cases "col s2 n") (auto simp: white_def kept_def)
qed

lemma rc_outside: "x \<notin> nodes s \<Longrightarrow> rc s x = 0"
  by (cases x) (auto simp: nodes_def split: option.split)

lemma two_passes:
  assumes "gc_inv get_gc hnd s is us" and "idle s" and "honest get_gc hnd s"
  shows "\<exists>s1 s2 ks us' M. gc_mark_roots get_gc s = Some s1 \<and> gc_scan_roots get_gc s1 = Some s2 \<and> gc_inv get_gc hnd s2 ks us' \<and> frame s s2 \<and>
    white s2 = garbage get_gc hnd s \<and> (\<forall>n. col s2 n = GC_BLACK \<or> col s2 n = GC_WHITE) \<and> self_contained get_gc hnd s (garbage get_gc hnd s) \<and>
    map (root_node hnd s2) ks = map Some M \<and> garbage get_gc hnd s \<subseteq> reach get_gc hnd s (set M) \<and>
    (\<forall>x. rc s x = rc s2 x + (if x \<in> uncounted s \<or> x \<notin> nodes s then 0 else of_nat (crossing get_gc hnd s (garbage get_gc hnd s) x))) \<and>
    outer s2 = outer s \<and> zval_to_free s2 = zval_to_free s"
proof -
  obtain s1 ks us' M where m: "gc_mark_roots get_gc s = Some s1" "gc_inv get_gc hnd s1 ks us'" "marked get_gc hnd s1" "frame s s1"
      "map (root_node hnd s1) ks = map Some M" "set M \<subseteq> grey s1 \<union> uncounted s1" "grey s1 \<subseteq> reach get_gc hnd s1 (set M)"
      "grey s1 = suspects get_gc hnd s"
      "\<forall>x \<in> nodes s - uncounted s. unat (rc s1 x) + crossing get_gc hnd s (grey s1) x = unat (rc s x)"
      "\<forall>x \<in> uncounted s. rc s1 x = rc s x" "outer s1 = outer s" "zval_to_free s1 = zval_to_free s"
    using mark_pass [OF assms] by blast
  obtain s2 where s2: "gc_scan_roots get_gc s1 = Some s2" "gc_inv get_gc hnd s2 ks us'" "scan_post get_gc hnd s1 M s1 s2"
    using scan_pass [OF m(3,2,5)] by blast
  have w: "gc_wf get_gc hnd s" and w1: "gc_wf get_gc hnd s1" using assms m(2) by (simp_all add: gc_inv_def)
  have G: "grey s1 \<subseteq> nodes s - uncounted s"
    using grey_nodes [of s1] grey_counted [OF w1] frame_nodes [OF m(4)] frame_uncounted [OF m(4)] by blast
  note e = scan_end [OF m(3,6,7) s2(3)]
  have K: "kept s1 s2 = reach get_gc hnd s {n \<in> grey s1. rc s1 n \<noteq> 0} \<inter> grey s1" using e(2) frame_reach [OF m(4)] by simp
  have i: "scanned get_gc hnd s1 s2" and bf: "bframe s1 s2" using s2(3) by (simp_all add: scan_post_def)
  have f: "frame s s2" using frame_trans [OF m(4)] i by (simp add: scanned_def)
  have c: "col s2 n = GC_BLACK \<or> col s2 n = GC_WHITE" for n
    using e(1) i by (cases "col s2 n") (auto simp: grey_def scanned_def)
  note ge = garbage_exact [OF w assms(3) m(8) G m(9) [rule_format] K]
  have wh: "white s2 = garbage get_gc hnd s" using white_dropped [OF i e(1)] ge(2) by simp
  have fin: "finite (grey s1)" by (rule finite_grey [OF w1])
  have "rc s x = rc s2 x + (if x \<in> uncounted s \<or> x \<notin> nodes s then 0 else of_nat (crossing get_gc hnd s (garbage get_gc hnd s) x))" for x
  proof (cases "x \<in> nodes s - uncounted s")
    case True
    have "crossing get_gc hnd s (kept s1 s2 \<union> (grey s1 - kept s1 s2)) x = crossing get_gc hnd s (kept s1 s2) x + crossing get_gc hnd s (grey s1 - kept s1 s2) x"
      by (rule crossing_Un) (use fin in \<open>auto simp: kept_def\<close>)
    moreover have "kept s1 s2 \<union> (grey s1 - kept s1 s2) = grey s1" by (auto simp: kept_def)
    moreover have "unat (rc s1 x) + crossing get_gc hnd s (grey s1) x = unat (rc s x)" using m(9) True by blast
    ultimately have n: "unat (rc s x) = unat (rc s1 x) + (crossing get_gc hnd s (kept s1 s2) x + crossing get_gc hnd s (garbage get_gc hnd s) x)"
      using ge(2) by simp
    have "rc s x = rc s1 x + (of_nat (crossing get_gc hnd s (kept s1 s2) x) + of_nat (crossing get_gc hnd s (garbage get_gc hnd s) x))"
      using arg_cong [OF n, of "of_nat :: nat \<Rightarrow> uint"] by simp
    then show ?thesis using True scanned_rc [OF i, of x] unfolding frame_nodes [OF m(4)] frame_uncounted [OF m(4)] frame_crossing [OF m(4)]
      by (simp add: add.assoc)
  next
    case False
    have "rc s x = 0" "rc s1 x = 0" if "x \<notin> nodes s"
      using that rc_outside [of x s] rc_outside [of x s1] frame_nodes [OF m(4)] by simp_all
    then show ?thesis using False m(10) scanned_rc [OF i, of x] unfolding frame_nodes [OF m(4)] frame_uncounted [OF m(4)] by auto
  qed
  moreover have "garbage get_gc hnd s \<subseteq> reach get_gc hnd s (set M)" using ge(2) m(7) frame_reach [OF m(4)] by blast
  moreover have "map (root_node hnd s2) ks = map Some M" using m(5) bframe_root_node [OF bf] by simp
  moreover have "outer s2 = outer s" "zval_to_free s2 = zval_to_free s" using bframe_outer [OF bf] m(11,12) by simp_all
  ultimately show ?thesis using m(1) s2(1,2) f wh c ge by metis
qed

text \<open>
  C37. The first two passes of a collection end, and what they leave white is exactly the garbage: the greatest set of
  values and objects reached from the buffered roots all of whose counted references come from the set itself.
  They start from a well-formed heap and buffer whose reference counts are at least the references there are.
\<close>

theorem gc_finds_garbage:
  assumes "gc_inv get_gc hnd s is us" and "idle s" and "honest get_gc hnd s"
  shows "\<exists>s'. (do { s \<leftarrow> gc_mark_roots get_gc s; gc_scan_roots get_gc s }) = Some s' \<and> white s' = garbage get_gc hnd s"
  using two_passes [OF assms] by force

text \<open>
  A heap with an array that holds itself and an object, and that nothing else refers to, and a
  second value of the object that is in use, as a collection finds it when the passes start.
\<close>

definition small_heap :: zend_gc_globals where
  "small_heap = \<lparr>zvals = [1 \<mapsto> \<lparr>zv_type = IS_ARRAY 7, zv_refcount = 1, zv_u = Buffered (Some (Slot 0)) GC_PURPLE\<rparr>,
       2 \<mapsto> \<lparr>zv_type = IS_OBJECT 5 0, zv_refcount = 1, zv_u = Buffered None GC_BLACK\<rparr>,
       3 \<mapsto> \<lparr>zv_type = IS_OBJECT 5 0, zv_refcount = 1, zv_u = Buffered None GC_BLACK\<rparr>],
     objects = [5 \<mapsto> \<lparr>so_valid = True, so_destructor_called = False, so_dtor = False, so_refcount = 2, so_buffered = Buffered None GC_BLACK\<rparr>],
     object_buckets_on = True, tables = (\<lambda>t. if t = 7 then [1, 2] else []), symbol_table = 0, gc_enabled = True, gc_active = True,
     gc_buf = True, roots = (Slot 0, Slot 0),
     slots = [0 \<mapsto> \<lparr>rb_prev = Some Roots, rb_next = Roots, rb_handle = 0, rb_u = Pz 1\<rparr>], unused = None, first_unused = 1,
     last_unused = 10000, zval_to_free = Some None, gc_free_list = None, next_to_free = None, gc_runs = 1, gc_collected = 0\<rparr>"

definition no_props :: get_gc where
  "no_props ht h = Some ([], None)"

lemma small_word: "gnode_word small_heap n =
    (if n = Zv 1 then Some (Buffered (Some (Slot 0)) GC_PURPLE) else if n \<in> {Zv 2, Zv 3, Ob 5} then Some (Buffered None GC_BLACK) else None)"
  by (cases n) (auto simp: small_heap_def)

lemma small_nodes: "nodes small_heap = {Zv 1, Zv 2, Zv 3, Ob 5}"
  by (auto simp: nodes_def small_word)

lemma small_uncounted: "uncounted small_heap = {}"
  by (auto simp: uncounted_def small_heap_def split: if_splits)

lemma small_kids: "kids no_props (\<lambda>_. 0) small_heap n = (if n = Zv 1 then [Zv 1, Zv 2] else if n = Zv 2 \<or> n = Zv 3 then [Ob 5] else [])"
  by (cases n) (auto simp: small_heap_def object_gc_def no_props_def)

lemma small_inv: "gc_inv no_props (\<lambda>_. 0) small_heap [0] []"
proof -
  have "is_free_link w = False" if "gnode_word small_heap n = Some w" for n w using that by (auto simp: small_word split: if_splits)
  moreover have "object_buckets_on small_heap" by (simp add: small_heap_def)
  moreover have "ht = 0" if "zvals small_heap a = Some z" "zv_type z = IS_OBJECT h ht" for a z h ht
    using that by (auto simp: small_heap_def split: if_splits)
  ultimately have "gc_wf no_props (\<lambda>_. 0) small_heap" by (auto simp: gc_wf_def small_nodes small_uncounted small_kids)
  moreover have "buffer small_heap [0] []" by (auto simp: buffer_def ring_def link_def small_heap_def)
  moreover have "root_node (\<lambda>_. 0) small_heap 0 = Some (Zv 1)" by (simp add: root_node_def refs_def small_heap_def)
  moreover have "addr small_heap n = (if n = Zv 1 then Some (Slot 0) else None)" for n by (simp add: addr_def small_word)
  ultimately show ?thesis by (simp add: gc_inv_def rooted_def small_nodes)
qed

lemma small_idle: "idle small_heap"
  by (auto simp: idle_def col_def addr_def small_word)

lemma small_honest: "honest no_props (\<lambda>_. 0) small_heap"
  by (auto simp: honest_def small_nodes small_uncounted crossing_def small_kids) (auto simp: small_heap_def)

lemma small_suspects: "suspects no_props (\<lambda>_. 0) small_heap = {Zv 1, Zv 2, Ob 5}"
proof -
  have p: "{n. col small_heap n = GC_PURPLE} = {Zv 1}" by (auto simp: col_def small_word split: if_splits)
  have "reach no_props (\<lambda>_. 0) small_heap {Zv 1} \<subseteq> {Zv 1, Zv 2, Ob 5}"
    by (rule reach_closed) (auto simp: small_kids split: if_splits)
  moreover have "Zv 1 \<in> reach no_props (\<lambda>_. 0) small_heap {Zv 1}" using reach_self by blast
  moreover from this have "Zv 2 \<in> reach no_props (\<lambda>_. 0) small_heap {Zv 1}" by (rule reach_kids) (simp add: small_kids del: kids.simps)
  moreover from this have "Ob 5 \<in> reach no_props (\<lambda>_. 0) small_heap {Zv 1}" by (rule reach_kids) (simp add: small_kids del: kids.simps)
  ultimately show ?thesis unfolding suspects_def p small_uncounted by blast
qed

lemma small_garbage: "garbage no_props (\<lambda>_. 0) small_heap = {Zv 1, Zv 2}"
proof -
  have o: "Ob 5 \<notin> D" if D: "D \<subseteq> {Zv 1, Zv 2, Ob 5}" "self_contained no_props (\<lambda>_. 0) small_heap D" for D
  proof
    assume "Ob 5 \<in> D"
    then have "crossing no_props (\<lambda>_. 0) small_heap D (Ob 5) = 2" using D(2) unfolding self_contained_def by (auto simp: small_heap_def simp del: kids.simps)
    moreover have "crossing no_props (\<lambda>_. 0) small_heap D (Ob 5) \<le> crossing no_props (\<lambda>_. 0) small_heap {Zv 1, Zv 2, Ob 5} (Ob 5)"
      unfolding crossing_def by (rule sum_mono2) (use D(1) in auto)
    ultimately show False by (simp add: crossing_def small_kids del: kids.simps)
  qed
  have c: "self_contained no_props (\<lambda>_. 0) small_heap {Zv 1, Zv 2}"
  proof -
    have "crossing no_props (\<lambda>_. 0) small_heap {Zv 1, Zv 2} x = 1" if "x \<in> {Zv 1, Zv 2}" for x
      using that by (auto simp: crossing_def small_kids simp del: kids.simps)
    moreover have "rc small_heap x = 1" if "x \<in> {Zv 1, Zv 2}" for x using that by (auto simp: small_heap_def)
    ultimately show ?thesis unfolding self_contained_def small_nodes small_uncounted by auto
  qed
  show ?thesis unfolding garbage_def small_suspects
  proof (intro antisym Union_least Union_upper)
    fix D assume "D \<in> {D. D \<subseteq> {Zv 1, Zv 2, Ob 5} \<and> self_contained no_props (\<lambda>_. 0) small_heap D}"
    then show "D \<subseteq> {Zv 1, Zv 2}" using o [of D] by blast
  qed (use c in simp)
qed

theorem gc_finds_garbage_witness:
  "gc_inv no_props (\<lambda>_. 0) small_heap [0] [] \<and> idle small_heap \<and> honest no_props (\<lambda>_. 0) small_heap \<and>
   (\<exists>s'. (do { s \<leftarrow> gc_mark_roots no_props small_heap; gc_scan_roots no_props s }) = Some s' \<and> white s' = {Zv 1, Zv 2})"
  using small_inv small_idle small_honest gc_finds_garbage [OF small_inv small_idle small_honest] by (simp add: small_garbage)

end
