(* ===== verification/Zend_Gc_Collect.thy ===== *)
theory Zend_Gc_Collect
  imports Zend_Gc_Passes
begin

text \<open>
  The collect pass: the white values that are not in the buffer go on a list through their
  collector words, the references to values that the earlier passes took away are given back, and
  the buffer is emptied.
\<close>

declare gnode_word.simps [simp del] set_col.simps [simp del] add_rc.simps [simp del] rc.simps [simp del] kids.simps [simp del]

subsection \<open>The pass over nodes\<close>

definition collectable :: "zend_gc_globals \<Rightarrow> gnode \<Rightarrow> bool" where
  "collectable s n \<longleftrightarrow> gnode_word s n = Some (Buffered None GC_WHITE)"

text \<open>References to objects are not given back.\<close>

fun count_ref :: "gnode \<Rightarrow> zend_gc_globals \<Rightarrow> zend_gc_globals option" where
  "count_ref (Zv a) s = zval_add_ref a 1 s"
| "count_ref (Ob h) s = Some s"

fun collect_node :: "get_gc \<Rightarrow> (nat \<Rightarrow> nat) \<Rightarrow> gnode \<Rightarrow> zend_gc_globals \<Rightarrow> zend_gc_globals option" where
  "collect_node get_gc hnd (Zv a) s = zval_collect_white get_gc a s"
| "collect_node get_gc hnd (Ob h) s = zobj_collect_white get_gc (hnd h) h s"

primrec collects :: "get_gc \<Rightarrow> (nat \<Rightarrow> nat) \<Rightarrow> gnode list \<Rightarrow> zend_gc_globals \<Rightarrow> zend_gc_globals option" where
  "collects get_gc hnd [] s = Some s"
| "collects get_gc hnd (n # ns) s = do { s \<leftarrow> count_ref n s; s \<leftarrow> collect_node get_gc hnd n s; collects get_gc hnd ns s }"

lemma collects_Nil [simp]: "collects get_gc hnd [] = Some"
  by (rule ext) simp

lemma collect_white_collects: "collect_white get_gc (Zvals ps) s = collects get_gc hnd (map Zv ps) s"
proof (induction ps arbitrary: s)
  case (Cons p ps)
  have "collect_white get_gc (Zvals ps) = collects get_gc hnd (map Zv ps)" by (rule ext) (rule Cons)
  then show ?case by (subst collect_white.simps) (simp add: zval_collect_white_def)
qed (simp add: collect_white.simps)

subsection \<open>The list of values to free\<close>

primrec free_seg :: "zend_gc_globals \<Rightarrow> nat option option \<Rightarrow> nat list \<Rightarrow> nat option option \<Rightarrow> bool" where
  "free_seg s p [] q \<longleftrightarrow> p = q"
| "free_seg s p (a # L) q \<longleftrightarrow> p = Some (Some a) \<and> (\<exists>n. gnode_word s (Zv a) = Some (Free_link n) \<and> free_seg s (Some n) L q)"

lemma free_seg_append: "free_seg s p (L @ L') q \<longleftrightarrow> (\<exists>m. free_seg s p L m \<and> free_seg s m L' q)"
  by (induction L arbitrary: p) auto

lemma free_seg_cong: "\<forall>a \<in> set L. gnode_word s' (Zv a) = gnode_word s (Zv a) \<Longrightarrow> free_seg s' p L q = free_seg s p L q"
  by (induction L arbitrary: p) auto

lemma free_seg_links: "free_seg s p L q \<Longrightarrow> a \<in> set L \<Longrightarrow> \<exists>n. gnode_word s (Zv a) = Some (Free_link n)"
  by (induction L arbitrary: p) auto

subsection \<open>What a part of the pass does\<close>

definition others :: "zend_gc_globals \<Rightarrow> zend_gc_globals" where
  "others s = s\<lparr>zvals := Map.empty, objects := Map.empty, zval_to_free := None\<rparr>"

text \<open>
  From \<open>s\<close> to \<open>s'\<close> the nodes \<open>T\<close> have stopped to be collectable, the values \<open>L\<close> have gone on the list, the
  nodes \<open>X\<close> have been visited, and the references of the nodes \<open>D\<close> and to \<open>Y\<close> have been given back.
\<close>

definition words_after :: "gnode set \<Rightarrow> nat list \<Rightarrow> zend_gc_globals \<Rightarrow> zend_gc_globals \<Rightarrow> bool" where
  "words_after T L s s' \<longleftrightarrow>
     (\<forall>n. n \<notin> T \<and> n \<notin> Zv ` set L \<longrightarrow> gnode_word s' n = gnode_word s n) \<and>
     (\<forall>h. Ob h \<in> T \<longrightarrow> gnode_word s' (Ob h) = Some (Buffered None GC_PURPLE)) \<and>
     (\<forall>a. Zv a \<in> T \<and> a \<notin> set L \<longrightarrow> gnode_word s' (Zv a) = Some (Buffered None GC_BLACK)) \<and>
     (\<forall>a \<in> set L. collectable s (Zv a) \<and> Zv a \<in> T \<or> gnode_word s (Zv a) = Some (Buffered None GC_BLACK)) \<and>
     distinct L \<and> free_seg s' (zval_to_free s') L (zval_to_free s)"

definition counts_after :: "get_gc \<Rightarrow> (nat \<Rightarrow> nat) \<Rightarrow> gnode list \<Rightarrow> gnode set \<Rightarrow> nat list \<Rightarrow> zend_gc_globals \<Rightarrow> zend_gc_globals \<Rightarrow> bool" where
  "counts_after get_gc hnd Y D L s s' \<longleftrightarrow>
     (\<forall>a. rc s' (Zv a) = rc s (Zv a) + (if Zv a \<in> uncounted s \<or> Zv a \<notin> nodes s then 0
        else of_nat (count_list Y (Zv a) + crossing get_gc hnd s D (Zv a))) + (if a \<in> set L then 1 else 0)) \<and>
     (\<forall>h. rc s' (Ob h) = rc s (Ob h))"

definition collected :: "get_gc \<Rightarrow> (nat \<Rightarrow> nat) \<Rightarrow> gnode list \<Rightarrow> gnode list \<Rightarrow> gnode set \<Rightarrow> gnode set \<Rightarrow> nat list \<Rightarrow>
    zend_gc_globals \<Rightarrow> zend_gc_globals \<Rightarrow> bool" where
  "collected get_gc hnd X Y T D L s s' \<longleftrightarrow> gsame s s' \<and> others s' = others s \<and>
     (\<forall>n \<in> T. collectable s n) \<and> D \<subseteq> T \<and> words_after T L s s' \<and> counts_after get_gc hnd Y D L s s' \<and>
     (\<forall>x \<in> set X. \<not> collectable s' x) \<and> (\<forall>n \<in> D. \<forall>k \<in> set (kids get_gc hnd s n). \<not> collectable s' k)"

text \<open>What the pass needs of the graph.\<close>

definition cgraph :: "get_gc \<Rightarrow> (nat \<Rightarrow> nat) \<Rightarrow> zend_gc_globals \<Rightarrow> bool" where
  "cgraph get_gc hnd s \<longleftrightarrow> finite (nodes s) \<and> (\<forall>n \<in> nodes s. set (kids get_gc hnd s n) \<subseteq> nodes s) \<and>
     (\<forall>h b. objects s h = Some b \<longrightarrow> object_buckets_on s) \<and>
     (\<forall>a z h ht. zvals s a = Some z \<and> zv_type z = IS_OBJECT h ht \<longrightarrow> ht = hnd h) \<and>
     (\<forall>n \<in> uncounted s. \<not> collectable s n) \<and> zval_to_free s \<noteq> None"

lemma collectable_node: "collectable s n \<Longrightarrow> n \<in> nodes s"
  by (simp add: collectable_def nodes_def)

lemma words_after_link: "words_after T L s s' \<Longrightarrow> a \<in> set L \<Longrightarrow> \<exists>n. gnode_word s' (Zv a) = Some (Free_link n)"
  unfolding words_after_def using free_seg_links by blast

lemma words_after_same: "words_after T L s s' \<Longrightarrow> n \<notin> T \<Longrightarrow> n \<notin> Zv ` set L \<Longrightarrow> gnode_word s' n = gnode_word s n"
  by (simp add: words_after_def)

lemma words_after_listed:
  "words_after T L s s' \<Longrightarrow> a \<in> set L \<Longrightarrow> collectable s (Zv a) \<and> Zv a \<in> T \<or> gnode_word s (Zv a) = Some (Buffered None GC_BLACK)"
  by (simp add: words_after_def)

lemma words_after_taken:
  "words_after T L s s' \<Longrightarrow> Ob h \<in> T \<Longrightarrow> gnode_word s' (Ob h) = Some (Buffered None GC_PURPLE)"
  "words_after T L s s' \<Longrightarrow> Zv a \<in> T \<Longrightarrow> a \<notin> set L \<Longrightarrow> gnode_word s' (Zv a) = Some (Buffered None GC_BLACK)"
  by (simp_all add: words_after_def)

lemma words_after_collectable: "words_after T L s s' \<Longrightarrow> collectable s' n \<Longrightarrow> collectable s n \<and> n \<notin> T \<and> n \<notin> Zv ` set L"
proof -
  assume w: "words_after T L s s'" and c: "collectable s' n"
  have L: "n \<notin> Zv ` set L" using words_after_link [OF w] c by (auto simp: collectable_def) (metis gc_word.distinct(1) option.inject)
  moreover have "n \<notin> T"
  proof
    assume "n \<in> T"
    then show False using w c L by (cases n) (auto simp: words_after_def collectable_def)
  qed
  ultimately show ?thesis using words_after_same [OF w, of n] c by (simp add: collectable_def)
qed

lemma words_after_append:
  assumes w: "words_after T L s s'" and w': "words_after T' L' s' s''"
    and T: "\<forall>n \<in> T. collectable s n" and T': "\<forall>n \<in> T'. collectable s' n"
  shows "words_after (T \<union> T') (L' @ L) s s''"
proof -
  have dT: "n \<notin> T \<and> n \<notin> Zv ` set L" if "n \<in> T'" for n using words_after_collectable [OF w] T' that by blast
  have dL: "a \<notin> set L'" if a: "a \<in> set L" for a
    using words_after_link [OF w a] words_after_listed [OF w', of a] by (auto simp: collectable_def)
  have keep: "gnode_word s'' n = gnode_word s' n" if "n \<in> T \<or> n \<in> Zv ` set L" "n \<notin> Zv ` set L'" for n
    using words_after_same [OF w'] dT that by blast
  have seg: "free_seg s'' (zval_to_free s'') (L' @ L) (zval_to_free s)"
  proof -
    have "free_seg s'' (zval_to_free s') L (zval_to_free s) = free_seg s' (zval_to_free s') L (zval_to_free s)"
      by (rule free_seg_cong) (use keep dL in blast)
    then show ?thesis unfolding free_seg_append using w w' by (auto simp: words_after_def)
  qed
  have listed: "collectable s (Zv a) \<and> Zv a \<in> T \<union> T' \<or> gnode_word s (Zv a) = Some (Buffered None GC_BLACK)" if a: "a \<in> set (L' @ L)" for a
  proof (cases "a \<in> set L \<or> Zv a \<in> T")
    case True
    then show ?thesis using words_after_listed [OF w, of a] T by blast
  next
    case False
    then have "gnode_word s' (Zv a) = gnode_word s (Zv a)" using words_after_same [OF w, of "Zv a"] by blast
    then show ?thesis using words_after_listed [OF w', of a] a False by (simp add: collectable_def)
  qed
  show ?thesis unfolding words_after_def
  proof (intro conjI allI impI ballI)
    fix n assume n: "n \<notin> T \<union> T' \<and> n \<notin> Zv ` set (L' @ L)"
    then show "gnode_word s'' n = gnode_word s n" using words_after_same [OF w, of n] words_after_same [OF w', of n] by (auto simp: image_Un)
  next
    fix h assume h: "Ob h \<in> T \<union> T'"
    then show "gnode_word s'' (Ob h) = Some (Buffered None GC_PURPLE)"
      using keep [of "Ob h"] image_iff [of "Ob h" Zv "set L'"] words_after_taken(1) [OF w, of h] words_after_taken(1) [OF w', of h] by auto
  next
    fix a assume a: "Zv a \<in> T \<union> T' \<and> a \<notin> set (L' @ L)"
    then show "gnode_word s'' (Zv a) = Some (Buffered None GC_BLACK)"
      using keep [of "Zv a"] image_iff [of "Zv a" Zv "set L'"] words_after_taken(2) [OF w, of a] words_after_taken(2) [OF w', of a] by auto
  next
    show "distinct (L' @ L)" using w w' dL by (auto simp: words_after_def)
  qed (use seg listed in auto)
qed

lemma counts_after_append:
  assumes gs: "gsame s s'" and r: "counts_after get_gc hnd Y D L s s'" "counts_after get_gc hnd Y' D' L' s' s''"
    and fin: "finite D" "finite D'" and dis: "D \<inter> D' = {}" "set L \<inter> set L' = {}"
  shows "counts_after get_gc hnd (Y @ Y') (D \<union> D') (L' @ L) s s''"
  unfolding counts_after_def crossing_Un [OF fin dis(1)]
proof (intro conjI allI)
  fix a show "rc s'' (Zv a) = rc s (Zv a) + (if Zv a \<in> uncounted s \<or> Zv a \<notin> nodes s then 0
      else of_nat (count_list (Y @ Y') (Zv a) + (crossing get_gc hnd s D (Zv a) + crossing get_gc hnd s D' (Zv a)))) + (if a \<in> set (L' @ L) then 1 else 0)"
    using r dis(2) unfolding counts_after_def gsame_nodes [OF gs] gsame_uncounted [OF gs] gsame_crossing [OF gs] by (auto simp: algebra_simps)
next
  fix h show "rc s'' (Ob h) = rc s (Ob h)" using r by (simp add: counts_after_def)
qed

lemma collected_append:
  assumes g: "cgraph get_gc hnd s" and c: "collected get_gc hnd X Y T D L s s'" and c': "collected get_gc hnd X' Y' T' D' L' s' s''"
  shows "collected get_gc hnd (X @ X') (Y @ Y') (T \<union> T') (D \<union> D') (L' @ L) s s''"
proof -
  have gs: "gsame s s'" using c by (simp add: collected_def)
  note eqs = gsame_nodes [OF gs] gsame_uncounted [OF gs] gsame_kids [OF gs] gsame_crossing [OF gs]
  have w: "words_after T L s s'" and w': "words_after T' L' s' s''" and T: "\<forall>n \<in> T. collectable s n" and T': "\<forall>n \<in> T'. collectable s' n"
    and D: "D \<subseteq> T" "D' \<subseteq> T'" using c c' by (simp_all add: collected_def)
  have "T' \<subseteq> nodes s'" using T' collectable_node by blast
  then have sub: "D \<subseteq> nodes s" "D' \<subseteq> nodes s" using T collectable_node D unfolding eqs(1) by blast+
  have "finite (nodes s)" using g by (simp add: cgraph_def)
  then have fin: "finite D" "finite D'" using sub finite_subset by blast+
  have dis: "D \<inter> D' = {}" using words_after_collectable [OF w] T' D by blast
  have mono: "collectable s'' n \<Longrightarrow> collectable s' n" "collectable s' n \<Longrightarrow> collectable s n" for n
    using words_after_collectable [OF w'] words_after_collectable [OF w] by blast+
  have dL: "a \<notin> set L'" if a: "a \<in> set L" for a
    using words_after_link [OF w a] words_after_listed [OF w', of a] by (auto simp: collectable_def)
  have r: "counts_after get_gc hnd Y D L s s'" "counts_after get_gc hnd Y' D' L' s' s''" using c c' by (simp_all add: collected_def)
  have "counts_after get_gc hnd (Y @ Y') (D \<union> D') (L' @ L) s s''"
    by (rule counts_after_append [OF gs r fin dis]) (use dL in blast)
  moreover have "words_after (T \<union> T') (L' @ L) s s''" by (rule words_after_append [OF w w' T T'])
  moreover have "gsame s s''" "others s'' = others s" using c c' gsame_trans by (auto simp: collected_def)
  moreover have "\<forall>n \<in> T \<union> T'. collectable s n" using T T' mono by blast
  moreover have "\<forall>x \<in> set (X @ X'). \<not> collectable s'' x" using c c' mono by (auto simp: collected_def)
  moreover have "\<forall>n \<in> D \<union> D'. \<forall>k \<in> set (kids get_gc hnd s n). \<not> collectable s'' k"
    using c c' mono unfolding collected_def eqs by blast
  ultimately show ?thesis using D unfolding collected_def by blast
qed

lemma cgraph_collected: "cgraph get_gc hnd s \<Longrightarrow> collected get_gc hnd X Y T D L s s' \<Longrightarrow> cgraph get_gc hnd s'"
proof -
  assume g: "cgraph get_gc hnd s" and c: "collected get_gc hnd X Y T D L s s'"
  have gs: "gsame s s'" and w: "words_after T L s s'" using c by (simp_all add: collected_def)
  have 1: "ht = hnd h" if "zvals s' a = Some z" "zv_type z = IS_OBJECT h ht" for a z h ht
    using gsame_zv(2) [OF gs that(1)] that(2) g by (auto simp: cgraph_def)
  have 2: "object_buckets_on s'" if "objects s' h = Some b" for h b
    using gsame_so(2) [OF gs that] g unfolding gsame_fields(1) [OF gs] cgraph_def by blast
  have 3: "\<not> collectable s' n" if "n \<in> uncounted s" for n
    using words_after_collectable [OF w] that g unfolding cgraph_def by blast
  have 4: "zval_to_free s' \<noteq> None" using w g by (cases L) (auto simp: words_after_def cgraph_def)
  show ?thesis using g 1 2 3 4 unfolding cgraph_def gsame_nodes [OF gs] gsame_kids [OF gs] gsame_uncounted [OF gs] by blast
qed


subsection \<open>The steps\<close>

lemma collected_none: "\<forall>x \<in> set X. \<not> collectable s x \<Longrightarrow> collected get_gc hnd X [] {} {} [] s s"
  by (auto simp: collected_def words_after_def counts_after_def crossing_def)

lemma others_upd: "others (s\<lparr>zvals := f\<rparr>) = others s" "others (s\<lparr>objects := g\<rparr>) = others s" "others (s\<lparr>zval_to_free := p\<rparr>) = others s"
  by (simp_all add: others_def)

lemma others_set_col: "others (set_col n c s) = others s" "others (add_rc n d s) = others s"
  "zval_to_free (set_col n c s) = zval_to_free s" "zval_to_free (add_rc n d s) = zval_to_free s"
  by (cases n; simp add: others_def set_col.simps add_rc.simps)+

lemma gsame_upd: "gsame s (set_col n c s)" "gsame s (add_rc n d s)"
proof -
  have "map_option zv_rest (map_option (\<lambda>z. z\<lparr>zv_u := w\<rparr>) x) = map_option zv_rest x" for x w
    by (cases x) (simp_all add: zv_rest_def)
  moreover have "map_option so_rest (map_option (\<lambda>b. b\<lparr>so_buffered := w\<rparr>) x) = map_option so_rest x" for x w
    by (cases x) (simp_all add: so_rest_def)
  ultimately show "gsame s (set_col n c s)" by (cases n) (auto simp: gsame_def set_col.simps)
  show "gsame s (add_rc n d s)" by (rule frame_gsame [OF frame_add_rc])
qed

lemma count_ref_run: "n \<in> nodes s \<Longrightarrow> \<exists>s'. count_ref n s = Some s' \<and> collected get_gc hnd [] [n] {} {} [] s s'"
proof (cases n)
  case (Zv a)
  assume n: "n \<in> nodes s"
  have "count_ref n s = Some (if Zv a \<in> uncounted s then s else add_rc (Zv a) 1 s)" using add_ref_node [of "Zv a" s 1] n Zv by simp
  then show ?thesis using n Zv
    by (auto simp: collected_def words_after_def counts_after_def crossing_def word_add_rc rc_add_rc others_set_col gsame_upd split: if_splits)
next
  case (Ob h)
  then show ?thesis by (auto simp: collected_def words_after_def counts_after_def crossing_def)
qed

lemma close_run:
  "collectable s (Zv a) \<Longrightarrow> \<exists>s'. GC_ZVAL_SET_COLOR a GC_BLACK s = Some s' \<and> collected get_gc hnd [Zv a] [] {Zv a} {} [] s s'"
  "collectable s (Ob h) \<Longrightarrow> \<exists>s'. obj_set_color h GC_PURPLE s = Some s' \<and> collected get_gc hnd [Ob h] [] {Ob h} {} [] s s'"
proof -
  assume c: "collectable s (Zv a)"
  then obtain z where z: "zvals s a = Some z" "zv_u z = Buffered None GC_WHITE" by (auto simp: collectable_def gnode_word.simps)
  have ad: "addr s (Zv a) = None" using c by (simp add: addr_def collectable_def)
  have run: "GC_ZVAL_SET_COLOR a GC_BLACK s = Some (set_col (Zv a) GC_BLACK s)"
    using z ad by (simp add: set_col.simps GC_ZVAL_SET_COLOR_def zv_upd_def)
  have "collected get_gc hnd [Zv a] [] {Zv a} {} [] s (set_col (Zv a) GC_BLACK s)"
    using c collectable_node [OF c] unfolding collected_def words_after_def counts_after_def word_set_col rc_set_col others_set_col
    by (auto simp: gsame_upd crossing_def word_set_col ad collectable_def)
  then show "\<exists>s'. GC_ZVAL_SET_COLOR a GC_BLACK s = Some s' \<and> collected get_gc hnd [Zv a] [] {Zv a} {} [] s s'" using run by blast
next
  assume c: "collectable s (Ob h)"
  then obtain b where b: "objects s h = Some b" "so_buffered b = Buffered None GC_WHITE" by (auto simp: collectable_def gnode_word.simps)
  have ad: "addr s (Ob h) = None" using c by (simp add: addr_def collectable_def)
  have run: "obj_set_color h GC_PURPLE s = Some (set_col (Ob h) GC_PURPLE s)"
    using b ad by (simp add: set_col.simps obj_set_color_def so_upd_def)
  have "collected get_gc hnd [Ob h] [] {Ob h} {} [] s (set_col (Ob h) GC_PURPLE s)"
    using c collectable_node [OF c] unfolding collected_def words_after_def counts_after_def word_set_col rc_set_col others_set_col
    by (auto simp: gsame_upd crossing_def word_set_col ad collectable_def)
  then show "\<exists>s'. obj_set_color h GC_PURPLE s = Some s' \<and> collected get_gc hnd [Ob h] [] {Ob h} {} [] s s'" using run by blast
qed

lemma enlist_run:
  assumes w: "gnode_word s (Zv a) = Some (Buffered None GC_BLACK)" and f: "zval_to_free s \<noteq> None"
  shows "\<exists>s'. enlist a s = Some s' \<and> collected get_gc hnd [] [] {} {} [a] s s'"
proof -
  obtain z where z: "zvals s a = Some z" using w by (auto simp: gnode_word.simps)
  obtain n where n: "zval_to_free s = Some n" using f by blast
  define s' where "s' = s\<lparr>zvals := (zvals s)(a \<mapsto> z\<lparr>zv_refcount := zv_refcount z + 1, zv_u := Free_link n\<rparr>), zval_to_free := Some (Some a)\<rparr>"
  have run: "enlist a s = Some s'" using z n by (simp add: enlist_def zv_upd_def s'_def)
  have g: "gnode_word s' m = (if m = Zv a then Some (Free_link n) else gnode_word s m)" for m
    by (cases m) (simp_all add: s'_def gnode_word.simps)
  have r: "rc s' m = (if m = Zv a then rc s m + 1 else rc s m)" for m
    by (cases m) (simp_all add: s'_def z rc.simps)
  have "gsame s s'" "others s' = others s" "zval_to_free s' = Some (Some a)" using z by (simp_all add: gsame_def s'_def zv_rest_def others_def)
  then have "collected get_gc hnd [] [] {} {} [a] s s'" using w n
    by (simp add: collected_def words_after_def counts_after_def crossing_def g r)
  then show ?thesis using run by blast
qed

lemma collected_expand:
  assumes g: "cgraph get_gc hnd s" and c: "collected get_gc hnd X Y T D L s s'" and n: "n \<in> T" "n \<notin> D"
    and k: "\<forall>k \<in> set (kids get_gc hnd s n). \<not> collectable s' k"
    and Y: "\<And>a. count_list Y (Zv a) = count_list Y' (Zv a) + count_list (kids get_gc hnd s n) (Zv a)"
  shows "collected get_gc hnd X Y' T (insert n D) L s s'"
proof -
  have "D \<subseteq> nodes s" using c collectable_node by (auto simp: collected_def)
  then have fin: "finite D" using g finite_subset unfolding cgraph_def by blast
  show ?thesis using c n k unfolding collected_def counts_after_def crossing_insert [OF fin n(2)] Y by (simp add: add.assoc)
qed

subsection \<open>The run\<close>

text \<open>A part of the pass that has expanded all it has taken, and listed all the values it has taken.\<close>

definition swept :: "get_gc \<Rightarrow> (nat \<Rightarrow> nat) \<Rightarrow> gnode list \<Rightarrow> gnode list \<Rightarrow> zend_gc_globals \<Rightarrow> zend_gc_globals \<Rightarrow> bool" where
  "swept get_gc hnd X Y s s' \<longleftrightarrow> (\<exists>T L. collected get_gc hnd X Y T T L s s' \<and> Zv ` set L = T \<inter> range Zv)"

lemma cgraph_free: "cgraph get_gc hnd s \<Longrightarrow> zval_to_free s \<noteq> None"
  by (simp add: cgraph_def)

lemma collected_mono: "collected get_gc hnd X Y T D L s s' \<Longrightarrow> collectable s' n \<Longrightarrow> collectable s n \<and> n \<notin> T"
  using words_after_collectable [of T L s s' n] by (simp add: collected_def)

lemma collected_weaken: "collected get_gc hnd X Y T D L s s' \<Longrightarrow> set X' \<subseteq> set X \<Longrightarrow> collected get_gc hnd X' Y T D L s s'"
  unfolding collected_def by blast

lemma collected_gsame: "collected get_gc hnd X Y T D L s s' \<Longrightarrow> gsame s s'"
  by (simp add: collected_def)

lemma swept_append: "cgraph get_gc hnd s \<Longrightarrow> swept get_gc hnd X Y s s' \<Longrightarrow> swept get_gc hnd X' Y' s' s'' \<Longrightarrow> swept get_gc hnd (X @ X') (Y @ Y') s s''"
proof -
  assume g: "cgraph get_gc hnd s" and a: "swept get_gc hnd X Y s s'" and b: "swept get_gc hnd X' Y' s' s''"
  obtain T L where c: "collected get_gc hnd X Y T T L s s'" and L: "Zv ` set L = T \<inter> range Zv" using a unfolding swept_def by blast
  obtain T' L' where c': "collected get_gc hnd X' Y' T' T' L' s' s''" and L': "Zv ` set L' = T' \<inter> range Zv" using b unfolding swept_def by blast
  have "Zv ` set (L' @ L) = (T \<union> T') \<inter> range Zv" using L L' by (auto simp: image_Un)
  then show ?thesis using collected_append [OF g c c'] unfolding swept_def by blast
qed

text \<open>Taking a value: its word becomes a link, and its children are visited.\<close>

lemma value_run:
  assumes g: "cgraph get_gc hnd s" and c: "collectable s (Zv a)"
    and K: "set K \<subseteq> nodes s" "set (kids get_gc hnd s (Zv a)) \<subseteq> set K \<union> {k. \<not> collectable s k}"
      "\<And>b. count_list K (Zv b) = count_list (kids get_gc hnd s (Zv a)) (Zv b)"
    and IH: "\<And>s'. cgraph get_gc hnd s' \<Longrightarrow> set K \<subseteq> nodes s' \<Longrightarrow> {n. collectable s' n} \<subset> {n. collectable s n} \<Longrightarrow>
      \<exists>s''. collects get_gc hnd K s' = Some s'' \<and> swept get_gc hnd K K s' s''"
  shows "\<exists>s1 s2 s3. GC_ZVAL_SET_COLOR a GC_BLACK s = Some s1 \<and> gsame s s1 \<and> (\<forall>n. collectable s1 n \<longrightarrow> collectable s n) \<and>
    (\<forall>h. collectable s1 (Ob h) \<longleftrightarrow> collectable s (Ob h)) \<and>
    enlist a s1 = Some s2 \<and> gsame s s2 \<and> collects get_gc hnd K s2 = Some s3 \<and> swept get_gc hnd [Zv a] [] s s3"
proof -
  obtain s1 where s1: "GC_ZVAL_SET_COLOR a GC_BLACK s = Some s1" and c1: "collected get_gc hnd [Zv a] [] {Zv a} {} [] s s1"
    using close_run(1) [OF c] by blast
  have g1: "cgraph get_gc hnd s1" by (rule cgraph_collected [OF g c1])
  have w1: "gnode_word s1 (Zv a) = Some (Buffered None GC_BLACK)" using c1 by (simp add: collected_def words_after_def)
  have o1: "collectable s1 (Ob h) \<longleftrightarrow> collectable s (Ob h)" for h using c1 by (simp add: collected_def words_after_def collectable_def)
  obtain s2 where s2: "enlist a s1 = Some s2" and c2: "collected get_gc hnd [] [] {} {} [a] s1 s2"
    using enlist_run [OF w1 cgraph_free [OF g1]] by blast
  have c12: "collected get_gc hnd [Zv a] [] {Zv a} {} [a] s s2" using collected_append [OF g c1 c2] by simp
  have g2: "cgraph get_gc hnd s2" by (rule cgraph_collected [OF g c12])
  have gs2: "gsame s s2" by (rule collected_gsame [OF c12])
  have "{n. collectable s2 n} \<subset> {n. collectable s n}" using collected_mono [OF c12] c by blast
  then obtain s3 T L where s3: "collects get_gc hnd K s2 = Some s3" and c3: "collected get_gc hnd K K T T L s2 s3" and L: "Zv ` set L = T \<inter> range Zv"
    using IH [OF g2] K(1) unfolding gsame_nodes [OF gs2] swept_def by blast
  have c13: "collected get_gc hnd (Zv a # K) K (insert (Zv a) T) T (L @ [a]) s s3" using collected_append [OF g c12 c3] by simp
  have k: "\<forall>k \<in> set (kids get_gc hnd s (Zv a)). \<not> collectable s3 k"
    using K(2) c13 collected_mono [OF c13] by (auto simp: collected_def)
  have nT: "Zv a \<notin> T" using c3 collected_mono [OF c12] by (auto simp: collected_def)
  have "collected get_gc hnd (Zv a # K) [] (insert (Zv a) T) (insert (Zv a) T) (L @ [a]) s s3"
    by (rule collected_expand [OF g c13 _ nT k]) (simp_all add: K(3))
  then have "collected get_gc hnd [Zv a] [] (insert (Zv a) T) (insert (Zv a) T) (L @ [a]) s s3" by (rule collected_weaken) simp
  moreover have "Zv ` set (L @ [a]) = insert (Zv a) T \<inter> range Zv" using L by auto
  ultimately have "swept get_gc hnd [Zv a] [] s s3" unfolding swept_def by blast
  then show ?thesis using s1 s2 s3 gs2 o1 collected_gsame [OF c1] collected_mono [OF c1] by blast
qed

text \<open>Taking a value and its object: the value goes on the list between two parts of the object's properties.\<close>

lemma object_run:
  assumes g: "cgraph get_gc hnd s" and c: "collectable s (Ob h)" and K: "kids get_gc hnd s (Ob h) = K @ K'"
    and IH: "\<And>X s'. cgraph get_gc hnd s' \<Longrightarrow> set X \<subseteq> nodes s' \<Longrightarrow> {n. collectable s' n} \<subset> {n. collectable s n} \<Longrightarrow>
      \<exists>s''. collects get_gc hnd X s' = Some s'' \<and> swept get_gc hnd X X s' s''"
    and mid: "\<And>s'. cgraph get_gc hnd s' \<Longrightarrow> (\<forall>x. n = Some x \<longrightarrow> gnode_word s (Zv x) = gnode_word s' (Zv x)) \<Longrightarrow>
      \<exists>s''. f s' = Some s'' \<and> collected get_gc hnd [] [] {} {} (case n of None \<Rightarrow> [] | Some x \<Rightarrow> [x]) s' s''"
    and n: "\<forall>x. n = Some x \<longrightarrow> gnode_word s (Zv x) = Some (Buffered None GC_BLACK)"
  shows "\<exists>s1 s2 s3 s4 T L. obj_set_color h GC_PURPLE s = Some s1 \<and> gsame s s1 \<and> collects get_gc hnd K s1 = Some s2 \<and> f s2 = Some s3 \<and>
    gsame s s3 \<and> collects get_gc hnd K' s3 = Some s4 \<and>
    collected get_gc hnd [Ob h] [] T T L s s4 \<and> Zv ` set L = (T \<inter> range Zv) \<union> (case n of None \<Rightarrow> {} | Some x \<Rightarrow> {Zv x})"
proof -
  have Kn: "set K \<subseteq> nodes s" "set K' \<subseteq> nodes s" using g collectable_node [OF c] K unfolding cgraph_def by (metis set_append Un_subset_iff)+
  obtain s1 where s1: "obj_set_color h GC_PURPLE s = Some s1" and c1: "collected get_gc hnd [Ob h] [] {Ob h} {} [] s s1"
    using close_run(2) [OF c] by blast
  have g1: "cgraph get_gc hnd s1" by (rule cgraph_collected [OF g c1])
  have "{n. collectable s1 n} \<subset> {n. collectable s n}" using collected_mono [OF c1] c by blast
  then obtain s2 T L where s2: "collects get_gc hnd K s1 = Some s2" and c2: "collected get_gc hnd K K T T L s1 s2" and L: "Zv ` set L = T \<inter> range Zv"
    using IH [OF g1] Kn(1) unfolding gsame_nodes [OF collected_gsame [OF c1]] swept_def by blast
  have c12: "collected get_gc hnd (Ob h # K) K (insert (Ob h) T) T L s s2" using collected_append [OF g c1 c2] by simp
  have "gnode_word s2 (Zv x) = gnode_word s (Zv x)" if "n = Some x" for x
  proof -
    have "\<not> collectable s (Zv x)" using n that by (simp add: collectable_def)
    then have "Zv x \<notin> insert (Ob h) T" using c12 by (auto simp: collected_def)
    moreover have "Zv x \<notin> Zv ` set L" using L calculation by auto
    ultimately show ?thesis using c12 words_after_same [of "insert (Ob h) T" L s s2] by (simp add: collected_def)
  qed
  then obtain s3 where s3: "f s2 = Some s3" and c3: "collected get_gc hnd [] [] {} {} (case n of None \<Rightarrow> [] | Some x \<Rightarrow> [x]) s2 s3"
    using mid [OF cgraph_collected [OF g c12]] by metis
  let ?n = "case n of None \<Rightarrow> [] | Some x \<Rightarrow> [x]"
  have c13: "collected get_gc hnd (Ob h # K) K (insert (Ob h) T) T (?n @ L) s s3" using collected_append [OF g c12 c3] by simp
  have g3: "cgraph get_gc hnd s3" and gs3: "gsame s s3" by (rule cgraph_collected [OF g c13], rule collected_gsame [OF c13])
  have "{n. collectable s3 n} \<subset> {n. collectable s n}" using collected_mono [OF c13] c by blast
  then obtain s4 T' L' where s4: "collects get_gc hnd K' s3 = Some s4" and c4: "collected get_gc hnd K' K' T' T' L' s3 s4" and L': "Zv ` set L' = T' \<inter> range Zv"
    using IH [OF g3] Kn(2) unfolding gsame_nodes [OF gs3] swept_def by blast
  have c14: "collected get_gc hnd (Ob h # K @ K') (K @ K') (insert (Ob h) (T \<union> T')) (T \<union> T') (L' @ ?n @ L) s s4"
    using collected_append [OF g c13 c4] by simp
  have k: "\<forall>k \<in> set (kids get_gc hnd s (Ob h)). \<not> collectable s4 k" using c14 K by (simp add: collected_def)
  have nT: "Ob h \<notin> T \<union> T'" using c2 c4 collected_mono [OF c1] collected_mono [OF c13] by (auto simp: collected_def)
  have "collected get_gc hnd (Ob h # K @ K') [] (insert (Ob h) (T \<union> T')) (insert (Ob h) (T \<union> T')) (L' @ ?n @ L) s s4"
    by (rule collected_expand [OF g c14 _ nT k]) (simp_all add: K)
  then have "collected get_gc hnd [Ob h] [] (insert (Ob h) (T \<union> T')) (insert (Ob h) (T \<union> T')) (L' @ ?n @ L) s s4" by (rule collected_weaken) simp
  moreover have "Zv ` set (L' @ ?n @ L) = (insert (Ob h) (T \<union> T') \<inter> range Zv) \<union> (case n of None \<Rightarrow> {} | Some x \<Rightarrow> {Zv x})"
    using L L' by (auto simp: image_Un split: option.splits)
  ultimately show ?thesis using s1 s2 s3 s4 gs3 collected_gsame [OF c1] by blast
qed

text \<open>The code of a visit takes one of these runs.\<close>

lemma collect_object:
  assumes g: "cgraph get_gc hnd s" and h: "Ob h \<in> nodes s"
    and IH: "\<And>X s'. cgraph get_gc hnd s' \<Longrightarrow> set X \<subseteq> nodes s' \<Longrightarrow> {n. collectable s' n} \<subset> {n. collectable s n} \<Longrightarrow>
      \<exists>s''. collects get_gc hnd X s' = Some s'' \<and> swept get_gc hnd X X s' s''"
  shows "\<exists>s'. collect_node get_gc hnd (Ob h) s = Some s' \<and> swept get_gc hnd [Ob h] [] s s'"
proof -
  obtain b where b: "objects s h = Some b" using h by (auto simp: nodes_def gnode_word.simps)
  have on: "object_buckets_on s" using g b unfolding cgraph_def by blast
  show ?thesis
  proof (cases "collectable s (Ob h)")
    case False
    then have "collect_node get_gc hnd (Ob h) s = Some s" using b on by (simp add: zobj_collect_white_def collectable_def gnode_word.simps)
    moreover have "swept get_gc hnd [Ob h] [] s s" using collected_none [of "[Ob h]"] False unfolding swept_def by fastforce
    ultimately show ?thesis by blast
  next
    case True
    define K where "K = (case object_gc get_gc (hnd h) h b of None \<Rightarrow> [] | Some (table, props) \<Rightarrow> map Zv table)"
    define K' where "K' = (case object_gc get_gc (hnd h) h b of Some (table, Some t) \<Rightarrow> map Zv (tables s t) | _ \<Rightarrow> [])"
    have K: "kids get_gc hnd s (Ob h) = K @ K'" using b by (auto simp: kids.simps K_def K'_def split: option.split)
    obtain s1 s2 s4 T L where s: "obj_set_color h GC_PURPLE s = Some s1" "gsame s s1" "collects get_gc hnd K s1 = Some s2" "gsame s s2"
        "collects get_gc hnd K' s2 = Some s4" "collected get_gc hnd [Ob h] [] T T L s s4" "Zv ` set L = T \<inter> range Zv"
      using object_run [OF g True K IH, of None Some] collected_none [of "[]"] by auto
    have t: "tables s1 = tables s" "tables s2 = tables s" using gsame_fields(2) [OF s(2)] gsame_fields(2) [OF s(4)] by simp_all
    have "so_buffered b = Buffered None GC_WHITE" using True b by (simp add: collectable_def gnode_word.simps)
    then have "collect_node get_gc hnd (Ob h) s = Some s4" using b on s(1,3,5) t
      by (auto simp: zobj_collect_white_def collect_white_collects [where hnd = hnd] K_def K'_def split: option.splits)
    then show ?thesis using s(6,7) unfolding swept_def by blast
  qed
qed

lemma collect_value_alone:
  assumes g: "cgraph get_gc hnd s" and c: "collectable s (Zv a)" and z: "zvals s a = Some z"
    and o: "\<And>h ht. zv_type z = IS_OBJECT h ht \<Longrightarrow> object_buckets_on s \<Longrightarrow> \<not> collectable s (Ob h)"
    and IH: "\<And>X s'. cgraph get_gc hnd s' \<Longrightarrow> set X \<subseteq> nodes s' \<Longrightarrow> {n. collectable s' n} \<subset> {n. collectable s n} \<Longrightarrow>
      \<exists>s''. collects get_gc hnd X s' = Some s'' \<and> swept get_gc hnd X X s' s''"
  shows "\<exists>s'. collect_white get_gc (Zval a) s = Some s' \<and> swept get_gc hnd [Zv a] [] s s'"
proof -
  define K where "K = (case zv_type z of IS_ARRAY t \<Rightarrow> map Zv (tables s t) | _ \<Rightarrow> [])"
  have nu: "zv_type z \<noteq> IS_ARRAY (symbol_table s)" using g c z unfolding cgraph_def uncounted_def by blast
  have kids: "set (kids get_gc hnd s (Zv a)) \<subseteq> nodes s" using g collectable_node [OF c] unfolding cgraph_def by blast
  have k: "kids get_gc hnd s (Zv a) = (case zv_type z of IS_OBJECT h ht \<Rightarrow> if object_buckets_on s then [Ob h] else [] | _ \<Rightarrow> K)"
    using z nu by (simp add: kids.simps K_def split: zv_type.split)
  have K: "set K \<subseteq> nodes s" "set (kids get_gc hnd s (Zv a)) \<subseteq> set K \<union> {k. \<not> collectable s k}"
      "count_list K (Zv b) = count_list (kids get_gc hnd s (Zv a)) (Zv b)" for b
    using kids o unfolding k by (auto simp: K_def split: zv_type.splits if_splits)
  obtain s1 s2 s3 where s: "GC_ZVAL_SET_COLOR a GC_BLACK s = Some s1" "gsame s s1" "\<forall>h. collectable s1 (Ob h) \<longleftrightarrow> collectable s (Ob h)"
      "enlist a s1 = Some s2" "gsame s s2" "collects get_gc hnd K s2 = Some s3" "swept get_gc hnd [Zv a] [] s s3"
    using value_run [OF g c K IH] by blast
  have t: "tables s1 = tables s" "tables s2 = tables s" "object_buckets_on s1 = object_buckets_on s"
    using gsame_fields [OF s(2)] gsame_fields [OF s(5)] by simp_all
  have wz: "zv_u z = Buffered None GC_WHITE" using c z by (simp add: collectable_def gnode_word.simps)
  have "collect_white get_gc (Zval a) s = Some s3"
  proof (cases "zv_type z")
    case (IS_OBJECT h ht)
    have "\<exists>b. objects s1 h = Some b \<and> so_buffered b \<noteq> Buffered None GC_WHITE" if on: "object_buckets_on s"
    proof -
      have "Ob h \<in> nodes s1" using kids on unfolding k gsame_nodes [OF s(2)] by (simp add: IS_OBJECT)
      then show ?thesis using o [OF IS_OBJECT on] s(3) by (auto simp: nodes_def collectable_def gnode_word.simps)
    qed
    then show ?thesis using z wz s(1,4,6) t IS_OBJECT by (subst collect_white.simps) (auto simp: K_def)
  qed (subst collect_white.simps, use z wz s(1,4,6) t in \<open>simp add: K_def collect_white_collects [where hnd = hnd]\<close>)+
  then show ?thesis using s(7) by blast
qed

lemma collect_value_object:
  assumes g: "cgraph get_gc hnd s" and c: "collectable s (Zv a)" and z: "zvals s a = Some z" "zv_type z = IS_OBJECT h ht"
    and on: "object_buckets_on s" and o: "collectable s (Ob h)"
    and IH: "\<And>X s'. cgraph get_gc hnd s' \<Longrightarrow> set X \<subseteq> nodes s' \<Longrightarrow> {n. collectable s' n} \<subset> {n. collectable s n} \<Longrightarrow>
      \<exists>s''. collects get_gc hnd X s' = Some s'' \<and> swept get_gc hnd X X s' s''"
  shows "\<exists>s'. collect_white get_gc (Zval a) s = Some s' \<and> swept get_gc hnd [Zv a] [] s s'"
proof -
  obtain s1 where s1: "GC_ZVAL_SET_COLOR a GC_BLACK s = Some s1" and c1: "collected get_gc hnd [Zv a] [] {Zv a} {} [] s s1"
    using close_run(1) [OF c] by blast
  have g1: "cgraph get_gc hnd s1" and gs1: "gsame s s1" by (rule cgraph_collected [OF g c1], rule collected_gsame [OF c1])
  have w1: "gnode_word s1 (Zv a) = Some (Buffered None GC_BLACK)" "collectable s1 (Ob h)"
    using c1 o by (simp_all add: collected_def words_after_def collectable_def)
  obtain b where b: "objects s1 h = Some b" "so_buffered b = Buffered None GC_WHITE" using w1(2) by (auto simp: collectable_def gnode_word.simps)
  have ht: "ht = hnd h" using g z unfolding cgraph_def by blast
  define K where "K = (case object_gc get_gc ht h b of Some (table, Some t) \<Rightarrow> map Zv table | _ \<Rightarrow> [])"
  define K' where "K' = (case object_gc get_gc ht h b of None \<Rightarrow> [] | Some (table, None) \<Rightarrow> map Zv table | Some (table, Some t) \<Rightarrow> map Zv (tables s t))"
  have K: "kids get_gc hnd s1 (Ob h) = K @ K'"
    using b gsame_fields(2) [OF gs1] by (auto simp: kids.simps K_def K'_def ht split: option.split)
  have IH1: "\<exists>s''. collects get_gc hnd X s' = Some s'' \<and> swept get_gc hnd X X s' s''"
    if "cgraph get_gc hnd s'" "set X \<subseteq> nodes s'" "{n. collectable s' n} \<subset> {n. collectable s1 n}" for X s'
    using IH [OF that(1,2)] that(3) collected_mono [OF c1] by blast
  have mid: "\<exists>s''. enlist a s' = Some s'' \<and> collected get_gc hnd [] [] {} {} (case Some a of None \<Rightarrow> [] | Some x \<Rightarrow> [x]) s' s''"
    if "cgraph get_gc hnd s'" "\<forall>x. Some a = Some x \<longrightarrow> gnode_word s1 (Zv x) = gnode_word s' (Zv x)" for s'
    using enlist_run [of s' a] w1(1) that cgraph_free [OF that(1)] by simp
  obtain s2 s3 s4 s5 T L where s: "obj_set_color h GC_PURPLE s1 = Some s2" "gsame s1 s2" "collects get_gc hnd K s2 = Some s3"
      "enlist a s3 = Some s4" "gsame s1 s4" "collects get_gc hnd K' s4 = Some s5"
      "collected get_gc hnd [Ob h] [] T T L s1 s5" "Zv ` set L = (T \<inter> range Zv) \<union> {Zv a}"
    using object_run [OF g1 w1(2) K IH1 mid] w1(1) by auto
  have t: "tables s4 = tables s" "object_buckets_on s1"
    using gsame_fields [OF gs1] gsame_fields [OF s(5)] on by simp_all
  have "zv_u z = Buffered None GC_WHITE" using c z by (simp add: collectable_def gnode_word.simps)
  then have "collect_white get_gc (Zval a) s = Some s5" using z s1 b s(1,3,4,6) t
    by (subst collect_white.simps) (auto simp: collect_white_collects [where hnd = hnd] K_def K'_def split: option.splits)
  moreover have "swept get_gc hnd [Zv a] [] s s5"
  proof -
    have c15: "collected get_gc hnd [Zv a, Ob h] [] (insert (Zv a) T) T L s s5" using collected_append [OF g c1 s(7)] by simp
    have nT: "Zv a \<notin> T" using s(7) collected_mono [OF c1] by (auto simp: collected_def)
    have k: "kids get_gc hnd s (Zv a) = [Ob h]" using z on by (simp add: kids.simps)
    have "collected get_gc hnd [Zv a, Ob h] [] (insert (Zv a) T) (insert (Zv a) T) L s s5"
      by (rule collected_expand [OF g c15 _ nT]) (use c15 in \<open>simp_all add: k collected_def\<close>)
    then have "collected get_gc hnd [Zv a] [] (insert (Zv a) T) (insert (Zv a) T) L s s5" by (rule collected_weaken) simp
    moreover have "Zv ` set L = insert (Zv a) T \<inter> range Zv" using s(8) by auto
    ultimately show ?thesis unfolding swept_def by blast
  qed
  ultimately show ?thesis by blast
qed

lemma collect_visit:
  assumes g: "cgraph get_gc hnd s" and n: "n \<in> nodes s"
    and IH: "\<And>X s'. cgraph get_gc hnd s' \<Longrightarrow> set X \<subseteq> nodes s' \<Longrightarrow> {n. collectable s' n} \<subset> {n. collectable s n} \<Longrightarrow>
      \<exists>s''. collects get_gc hnd X s' = Some s'' \<and> swept get_gc hnd X X s' s''"
  shows "\<exists>s'. collect_node get_gc hnd n s = Some s' \<and> swept get_gc hnd [n] [] s s'"
proof (cases n)
  case (Zv a)
  obtain z where z: "zvals s a = Some z" using n Zv by (auto simp: nodes_def gnode_word.simps)
  show ?thesis
  proof (cases "collectable s (Zv a)")
    case False
    then have "collect_node get_gc hnd (Zv a) s = Some s" unfolding collect_node.simps zval_collect_white_def
      using z by (subst collect_white.simps) (simp add: collectable_def gnode_word.simps)
    moreover have "swept get_gc hnd [Zv a] [] s s" using collected_none [of "[Zv a]"] False unfolding swept_def by fastforce
    ultimately show ?thesis using Zv by blast
  next
    case True
    have "\<exists>s'. collect_white get_gc (Zval a) s = Some s' \<and> swept get_gc hnd [Zv a] [] s s'"
    proof (cases "\<exists>h ht. zv_type z = IS_OBJECT h ht \<and> object_buckets_on s \<and> collectable s (Ob h)")
      case True
      then show ?thesis using collect_value_object [OF g \<open>collectable s (Zv a)\<close> z _ _ _ IH] by blast
    next
      case False
      then show ?thesis using collect_value_alone [OF g True z _ IH] by blast
    qed
    then show ?thesis by (simp add: Zv zval_collect_white_def)
  qed
next
  case (Ob h)
  then show ?thesis using collect_object [OF g _ IH] n by blast
qed

theorem collect_run:
  assumes "cgraph get_gc hnd s" "set X \<subseteq> nodes s"
  shows "\<exists>s'. collects get_gc hnd X s = Some s' \<and> swept get_gc hnd X X s s'"
  using assms
proof (induction "card {n. collectable s n}" arbitrary: s X rule: less_induct)
  case less
  have fin: "finite {n. collectable s n}"
    using less.prems(1) collectable_node finite_subset [of "{n. collectable s n}" "nodes s"] by (auto simp: cgraph_def)
  have IH: "\<exists>s''. collects get_gc hnd X s' = Some s'' \<and> swept get_gc hnd X X s' s''"
    if "cgraph get_gc hnd s'" "set X \<subseteq> nodes s'" "{n. collectable s' n} \<subset> {n. collectable s n}" for X s'
    using less.hyps [OF psubset_card_mono [OF fin that(3)] that(1,2)] .
  have "\<exists>s''. collects get_gc hnd X s' = Some s'' \<and> swept get_gc hnd X X s' s''"
    if "cgraph get_gc hnd s'" "set X \<subseteq> nodes s'" "{n. collectable s' n} \<subseteq> {n. collectable s n}" for s'
    using that
  proof (induction X arbitrary: s')
    case Nil
    then show ?case using collected_none [of "[]"] unfolding swept_def by fastforce
  next
    case (Cons n X)
    have n: "n \<in> nodes s'" using Cons.prems(2) by simp
    obtain s1 where s1: "count_ref n s' = Some s1" and c1: "collected get_gc hnd [] [n] {} {} [] s' s1" using count_ref_run [OF n] by blast
    have g1: "cgraph get_gc hnd s1" by (rule cgraph_collected [OF Cons.prems(1) c1])
    have sub1: "{n. collectable s1 n} \<subseteq> {n. collectable s n}" using collected_mono [OF c1] Cons.prems(3) by blast
    obtain s2 where s2: "collect_node get_gc hnd n s1 = Some s2" and w2: "swept get_gc hnd [n] [] s1 s2"
      using collect_visit [OF g1, of n] n gsame_nodes [OF collected_gsame [OF c1]] IH sub1 by (metis order_less_le_trans)
    obtain T L where c2: "collected get_gc hnd [n] [] T T L s1 s2" using w2 by (auto simp: swept_def)
    have g2: "cgraph get_gc hnd s2" by (rule cgraph_collected [OF g1 c2])
    have "nodes s2 = nodes s'" using gsame_nodes [OF collected_gsame [OF c1]] gsame_nodes [OF collected_gsame [OF c2]] by simp
    moreover have "{n. collectable s2 n} \<subseteq> {n. collectable s n}" using collected_mono [OF c2] sub1 by blast
    ultimately obtain s3 where s3: "collects get_gc hnd X s2 = Some s3" and w3: "swept get_gc hnd X X s2 s3"
      using Cons.IH [OF g2] Cons.prems(2) by auto
    have "swept get_gc hnd [] [n] s' s1" using c1 unfolding swept_def by fastforce
    then have "swept get_gc hnd ([] @ [n] @ X) ([n] @ [] @ X) s' s3"
      by (rule swept_append [OF Cons.prems(1) _ swept_append [OF g1 w2 w3]])
    then show ?case using s1 s2 s3 by simp
  qed
  then show ?case using less.prems by blast
qed

theorem collect_node_run: "cgraph get_gc hnd s \<Longrightarrow> n \<in> nodes s \<Longrightarrow> \<exists>s'. collect_node get_gc hnd n s = Some s' \<and> swept get_gc hnd [n] [] s s'"
  by (rule collect_visit [OF _ _ collect_run])

subsection \<open>The loop over the roots\<close>

lemma others_buffer: "others s' = others s \<Longrightarrow> buffer s' is us = buffer s is us \<and> refs s' = refs s \<and> outer s' = outer s"
proof -
  assume o: "others s' = others s"
  have f: "roots s' = roots s" "slots s' = slots s" "unused s' = unused s" "first_unused s' = first_unused s" "last_unused s' = last_unused s"
    "outer s' = outer s"
    using o by (cases s; cases s'; simp add: others_def outer_def)+
  have n: "rb_get_next p s' = rb_get_next p s" "rb_get_prev p s' = rb_get_prev p s" for p by (cases p; simp add: f)+
  have "links s' p xs = links s p xs" for p xs by (rule links_cong) (simp_all add: n)
  moreover have "unused_list s' p us = unused_list s p us" for p by (rule unused_list_cong) (simp add: f)
  ultimately show ?thesis by (simp add: buffer_def ring_def refs_def f fun_eq_iff)
qed

lemma collect_root_node:
  assumes r: "root_node hnd s i = Some n" and n: "n \<in> nodes s" "addr s n = Some (Slot i)" and on: "\<And>h b. objects s h = Some b \<Longrightarrow> object_buckets_on s"
  shows "collect_root get_gc i s = do { s \<leftarrow> collect_node get_gc hnd n (set_addr n None s); gc_remove_from_buffer i s }"
proof (cases n)
  case (Zv a)
  obtain z where z: "zvals s a = Some z" using n(1) Zv by (auto simp: nodes_def gnode_word.simps)
  have "zv_u z = Buffered (Some (Slot i)) (col s n)" using n(2) z Zv by (cases "zv_u z") (auto simp: addr_def col_def gnode_word.simps)
  then have "GC_ZVAL_SET_ADDRESS a None s = Some (set_addr (Zv a) None s)" using z Zv by (simp add: GC_ZVAL_SET_ADDRESS_def zv_upd_def)
  then show ?thesis using root_slot [OF r] Zv by (auto simp: collect_root_def)
next
  case (Ob h)
  obtain b where b: "objects s h = Some b" using n(1) Ob by (auto simp: nodes_def gnode_word.simps)
  have "so_buffered b = Buffered (Some (Slot i)) (col s n)" using n(2) b Ob by (cases "so_buffered b") (auto simp: addr_def col_def gnode_word.simps)
  then have "obj_set_address h None s = Some (set_addr (Ob h) None s)" using b Ob by (simp add: obj_set_address_def so_upd_def)
  then show ?thesis using root_slot [OF r] Ob on [OF b] by (auto simp: collect_root_def)
qed

lemma collected_addr: "collected get_gc hnd X Y T D L s s' \<Longrightarrow> addr s' = addr s"
proof
  fix n assume c: "collected get_gc hnd X Y T D L s s'"
  have w: "words_after T L s s'" and T: "\<forall>n \<in> T. collectable s n" using c by (simp_all add: collected_def)
  show "addr s' n = addr s n"
  proof (cases "n \<in> T \<or> n \<in> Zv ` set L")
    case True
    have "\<exists>c. gnode_word s n = Some (Buffered None c)" using True T words_after_listed [OF w] unfolding collectable_def by blast
    then have "addr s n = None" by (auto simp: addr_def)
    moreover have "addr s' n = None"
    proof (cases n)
      case (Zv a)
      then show ?thesis using True words_after_link [OF w, of a] words_after_taken(2) [OF w, of a] by (cases "a \<in> set L") (auto simp: addr_def)
    next
      case (Ob h)
      then show ?thesis using True words_after_taken(1) [OF w, of h] by (auto simp: addr_def)
    qed
    ultimately show ?thesis by simp
  next
    case False
    then show ?thesis using words_after_same [OF w] by (simp add: addr_def)
  qed
qed

text \<open>After some roots: what has been taken is white, listed and expanded, and the rest has its colour still.\<close>

definition taken :: "get_gc \<Rightarrow> (nat \<Rightarrow> nat) \<Rightarrow> zend_gc_globals \<Rightarrow> gnode set \<Rightarrow> nat list \<Rightarrow> zend_gc_globals \<Rightarrow> bool" where
  "taken get_gc hnd s2 T L s \<longleftrightarrow> gsame s2 s \<and> outer s = outer s2 \<and> T \<subseteq> white s2 \<and>
     (\<forall>n \<in> nodes s2 - T. \<exists>p. gnode_word s n = Some (Buffered p (col s2 n))) \<and>
     (\<forall>h. Ob h \<in> T \<longrightarrow> gnode_word s (Ob h) = Some (Buffered None GC_PURPLE)) \<and>
     distinct L \<and> Zv ` set L = T \<inter> range Zv \<and> free_seg s (zval_to_free s) L (zval_to_free s2) \<and>
     counts_after get_gc hnd [] T L s2 s \<and> (\<forall>n \<in> T. \<forall>k \<in> set (kids get_gc hnd s2 n). \<not> collectable s k)"

lemma taken_not_buffered: "taken get_gc hnd s2 T L s \<Longrightarrow> n \<in> T \<Longrightarrow> addr s n = None \<and> \<not> collectable s n"
proof (cases n)
  case (Zv a)
  assume t: "taken get_gc hnd s2 T L s" and "n \<in> T"
  then have "a \<in> set L" using Zv unfolding taken_def by (metis (no_types, lifting) IntI gnode.inject(1) imageE rangeI)
  then show ?thesis using t Zv free_seg_links [of s "zval_to_free s" L "zval_to_free s2" a] by (auto simp: taken_def addr_def collectable_def)
qed (auto simp: taken_def addr_def collectable_def)

lemma taken_step:
  assumes t: "taken get_gc hnd s2 T L s" and fin: "finite (nodes s2)" and n: "n \<in> nodes s2" "n \<notin> T"
    and w: "collected get_gc hnd [n] [] T' T' L' (set_addr n None s) s'" and L': "Zv ` set L' = T' \<inter> range Zv"
  shows "taken get_gc hnd s2 (T \<union> T') (L' @ L) s'"
proof -
  let ?s = "set_addr n None s"
  have gs: "gsame s2 s" using t by (simp add: taken_def)
  have gs': "gsame s2 s'" using gsame_trans [OF gs gsame_trans [OF frame_gsame [OF frame_set_addr] collected_gsame [OF w]]] .
  have ns: "n \<in> nodes s" using n gsame_nodes [OF gs] by simp
  have wa: "words_after T' L' ?s s'" and T': "\<forall>m \<in> T'. collectable ?s m" using w by (simp_all add: collected_def)
  have ws: "gnode_word ?s m = (if m = n then Some (Buffered None (col s n)) else gnode_word s m)" for m using word_set_addr [of n None s m] ns by simp
  have cn: "\<exists>p. gnode_word s m = Some (Buffered p (col s2 m))" if "m \<in> nodes s2" "m \<notin> T" for m using t that unfolding taken_def by blast
  have cs: "\<exists>p. gnode_word ?s m = Some (Buffered p (col s2 m))" if "m \<in> nodes s2" "m \<notin> T" for m
    using cn [OF that] unfolding ws by (auto simp: col_def)
  have nT: "m \<notin> T" if "collectable ?s m" for m
    using that taken_not_buffered [OF t, of m] n(2) ws [of m] by (auto simp: collectable_def split: if_splits)
  have wT: "m \<in> white s2" if m: "collectable ?s m" for m
  proof -
    have "m \<in> nodes s2" using collectable_node [OF m] gsame_nodes [OF frame_gsame [OF frame_set_addr]] gsame_nodes [OF gs] by simp
    then show ?thesis using cs [OF _ nT [OF m]] m by (auto simp: collectable_def white_def)
  qed
  have dis: "T \<inter> T' = {}" using T' nT by blast
  have keep: "gnode_word s' m = gnode_word s m" if m: "m \<in> T" for m
  proof -
    have "m \<notin> T'" "m \<noteq> n" using m dis n(2) by blast+
    then show ?thesis using words_after_same [OF wa, of m] L' ws [of m] by auto
  qed
  have LT: "Zv ` set L = T \<inter> range Zv" using t by (simp add: taken_def)
  then have dL: "set L \<inter> set L' = {}" using L' dis by blast
  have "free_seg s' (zval_to_free s) L (zval_to_free s2) = free_seg s (zval_to_free s) L (zval_to_free s2)"
    by (rule free_seg_cong) (use LT keep in blast)
  then have seg: "free_seg s' (zval_to_free s') (L' @ L) (zval_to_free s2)"
    unfolding free_seg_append using t wa by (auto simp: taken_def words_after_def set_addr_outer)
  have "white s2 \<subseteq> nodes s2" by (auto simp: white_def col_def nodes_def split: option.splits)
  then have W: "finite (white s2)" using fin finite_subset by blast
  have sub: "T \<subseteq> white s2" "T' \<subseteq> white s2" using t T' wT by (auto simp: taken_def)
  have fT: "finite T" "finite T'" using finite_subset [OF sub(1) W] finite_subset [OF sub(2) W] by simp_all
  have ga: "gsame s ?s" by (rule frame_gsame [OF frame_set_addr])
  have "counts_after get_gc hnd [] T' L' s s'"
    using w unfolding collected_def counts_after_def gsame_nodes [OF ga] gsame_uncounted [OF ga] gsame_crossing [OF ga] rc_set_addr by blast
  then have "counts_after get_gc hnd ([] @ []) (T \<union> T') (L' @ L) s2 s'"
    using t by (intro counts_after_append [OF gs _ _ fT dis dL]) (simp add: taken_def)
  moreover have "\<exists>p. gnode_word s' m = Some (Buffered p (col s2 m))" if m: "m \<in> nodes s2 - (T \<union> T')" for m
    using words_after_same [OF wa, of m] L' m cs [of m] by auto
  moreover have "gnode_word s' (Ob h) = Some (Buffered None GC_PURPLE)" if "Ob h \<in> T \<union> T'" for h
    using that keep [of "Ob h"] t words_after_taken(1) [OF wa, of h] by (auto simp: taken_def)
  moreover have "\<not> collectable s' k" if "m \<in> T \<union> T'" "k \<in> set (kids get_gc hnd s2 m)" for m k
  proof
    assume c: "collectable s' k"
    have "k \<noteq> n" "m \<notin> T'" "collectable ?s k"
      using w c that(2) collected_mono [OF w c] gsame_kids [OF gsame_trans [OF gs frame_gsame [OF frame_set_addr [of s n None]]]] by (auto simp: collected_def)
    then have "collectable s k" using ws [of k] by (simp add: collectable_def)
    then show False using t that \<open>m \<notin> T'\<close> unfolding taken_def by blast
  qed
  moreover have "distinct (L' @ L)" using t wa dL by (auto simp: taken_def words_after_def)
  moreover have "Zv ` set (L' @ L) = (T \<union> T') \<inter> range Zv" using t L' unfolding taken_def by (auto simp: image_Un)
  moreover have "outer s' = outer s2" using t w others_buffer [of s' ?s] by (simp add: taken_def collected_def set_addr_outer)
  moreover have "T \<union> T' \<subseteq> white s2" using sub by blast
  ultimately show ?thesis using gs' seg unfolding taken_def append_Nil by blast
qed

lemma gsame_cgraph:
  assumes w: "gc_wf get_gc hnd s2" and gs: "gsame s2 s" and u: "\<And>n. n \<in> uncounted s2 \<Longrightarrow> \<not> collectable s n" and z: "zval_to_free s \<noteq> None"
  shows "cgraph get_gc hnd s"
proof -
  have 1: "ht = hnd h" if "zvals s a = Some z" "zv_type z = IS_OBJECT h ht" for a z h ht
    using gsame_zv(2) [OF gs that(1)] that(2) w by (auto simp: gc_wf_def)
  have 2: "object_buckets_on s" if "objects s h = Some b" for h b
    using gsame_so(2) [OF gs that] w unfolding gsame_fields(1) [OF gs] gc_wf_def by blast
  show ?thesis using w 1 2 u z unfolding cgraph_def gc_wf_def gsame_nodes [OF gs] gsame_kids [OF gs] gsame_uncounted [OF gs] by blast
qed

lemma taken_colour: "taken get_gc hnd s2 T L s \<Longrightarrow> m \<in> nodes s2 \<Longrightarrow> m \<notin> T \<Longrightarrow> \<exists>p. gnode_word s m = Some (Buffered p (col s2 m)) \<and> col s m = col s2 m"
proof -
  assume "taken get_gc hnd s2 T L s" "m \<in> nodes s2" "m \<notin> T"
  then obtain p where "gnode_word s m = Some (Buffered p (col s2 m))" unfolding taken_def by blast
  then show ?thesis by (simp add: col_def)
qed

lemma unlinked:
  assumes "no_ptrs s' = no_ptrs s"
  shows "collectable s' = collectable s" "addr s' = addr s" "gsame s s'" "gnode_word s' = gnode_word s"
proof -
  show w: "gnode_word s' = gnode_word s"
  proof
    fix m show "gnode_word s' m = gnode_word s m" using no_ptrs_fields [OF assms] by (cases m) (simp_all add: gnode_word.simps)
  qed
  then show "collectable s' = collectable s" by (simp add: collectable_def fun_eq_iff)
  show "addr s' = addr s" "gsame s s'" using no_ptrs_graph [OF assms] frame_gsame by simp_all
qed

lemma unlinked_taken: "no_ptrs s' = no_ptrs s \<Longrightarrow> taken get_gc hnd s2 T L s \<Longrightarrow> taken get_gc hnd s2 T L s'"
proof -
  assume e: "no_ptrs s' = no_ptrs s" and t: "taken get_gc hnd s2 T L s"
  note u = unlinked [OF e]
  have seg: "free_seg s' p xs q = free_seg s p xs q" for p xs q by (rule free_seg_cong) (simp add: u(4))
  have o: "rc s' = rc s" "outer s' = outer s" "zval_to_free s' = zval_to_free s" using no_ptrs_graph [OF e] no_ptrs_outer [OF e] by simp_all
  show ?thesis using t gsame_trans [OF _ u(3), of s2] unfolding taken_def counts_after_def u(1,4) seg o by blast
qed

definition sweep_inv :: "get_gc \<Rightarrow> (nat \<Rightarrow> nat) \<Rightarrow> zend_gc_globals \<Rightarrow> nat list \<Rightarrow> nat list \<Rightarrow> nat list \<Rightarrow> zend_gc_globals \<Rightarrow> bool" where
  "sweep_inv get_gc hnd s2 is ks rest s \<longleftrightarrow> ks @ rest = is \<and> refs s = refs s2 \<and> zval_to_free s \<noteq> None \<and>
     (\<exists>us T L. taken get_gc hnd s2 T L s \<and> buffer s rest us \<and> rooted hnd s rest \<and>
       (\<forall>i \<in> set ks. \<forall>n. root_node hnd s2 i = Some n \<longrightarrow> \<not> collectable s n))"

lemma sweep_step:
  assumes w: "gc_wf get_gc hnd s2" and I: "sweep_inv get_gc hnd s2 is ks (i # rest) s"
  shows "\<exists>s' ks'. collect_root get_gc i s = Some s' \<and> sweep_inv get_gc hnd s2 is ks' rest s' \<and> rb_get_next (Slot i) s' = Some (first_ptr rest)"
proof -
  obtain us T L where ks: "ks @ i # rest = is" and r: "refs s = refs s2" and z: "zval_to_free s \<noteq> None" and t: "taken get_gc hnd s2 T L s"
      and b: "buffer s (i # rest) us" and ro: "rooted hnd s (i # rest)" and v: "\<forall>i \<in> set ks. \<forall>n. root_node hnd s2 i = Some n \<longrightarrow> \<not> collectable s n"
    using I unfolding sweep_inv_def by blast
  obtain n where n: "root_node hnd s i = Some n" "n \<in> nodes s" "addr s n = Some (Slot i)" using rooted_node [OF ro, of i] by auto
  let ?s = "set_addr n None s"
  have gs: "gsame s2 s" using t by (simp add: taken_def)
  have ga: "gsame s2 ?s" by (rule gsame_trans [OF gs frame_gsame [OF frame_set_addr]])
  have nT: "n \<notin> T" using taken_not_buffered [OF t, of n] n(3) by auto
  have ws: "gnode_word ?s m = (if m = n then Some (Buffered None (col s n)) else gnode_word s m)" for m using word_set_addr [of n None s m] n(2) by simp
  have "\<not> collectable ?s m" if m: "m \<in> uncounted s2" for m
  proof -
    have "col s2 m \<noteq> GC_WHITE" using w m unfolding gc_wf_def by blast
    moreover have "m \<in> nodes s2" using m by (auto simp: uncounted_def nodes_def gnode_word.simps)
    moreover have "m \<notin> T" using t \<open>col s2 m \<noteq> GC_WHITE\<close> by (auto simp: taken_def white_def)
    ultimately show ?thesis using taken_colour [OF t, of m] unfolding collectable_def ws by (auto simp: col_def)
  qed
  then have g: "cgraph get_gc hnd ?s" using gsame_cgraph [OF w ga] z by (simp add: set_addr_outer)
  obtain s3 T' L' where s3: "collect_node get_gc hnd n ?s = Some s3" and c3: "collected get_gc hnd [n] [] T' T' L' ?s s3" and L': "Zv ` set L' = T' \<inter> range Zv"
    using collect_node_run [OF g, of n] n(2) unfolding gsame_nodes [OF frame_gsame [OF frame_set_addr]] swept_def by blast
  have n2: "n \<in> nodes s2" using n(2) gsame_nodes [OF gs] by simp
  have t3: "taken get_gc hnd s2 (T \<union> T') (L' @ L) s3"
    by (rule taken_step [OF t _ n2 nT c3 L']) (use w in \<open>simp add: gc_wf_def\<close>)
  have o3: "buffer s3 (i # rest) us" "refs s3 = refs s" using b c3 others_buffer [of s3 ?s] buffer_set_addr [of n None s] by (simp_all add: collected_def)
  obtain s4 where s4: "gc_remove_from_buffer i s3 = Some s4" "buffer s4 rest (i # us)" "refs s4 = refs s3" "no_ptrs s4 = no_ptrs s3"
      "rb_get_next (Slot i) s4 = Some (first_ptr rest)"
    using remove_buffer [of s3 "[]" i rest us] o3(1) unfolding first_ptr_def append_Nil by blast
  note e = unlinked [OF s4(4)]
  have "taken get_gc hnd s2 (T \<union> T') (L' @ L) s4" by (rule unlinked_taken [OF s4(4) t3])
  moreover have "rooted hnd s4 ([] @ rest)"
  proof (rule rooted_remove [where i = i])
    show "addr s4 = (addr s)(n := None)" using e(2) collected_addr [OF c3] addr_set_addr [OF n(2)] by simp
    show "root_node hnd s4 = root_node hnd s" using s4(3) o3(2) by (simp add: root_node_def fun_eq_iff)
    show "nodes s4 = nodes s" using gsame_nodes [OF gsame_trans [OF collected_gsame [OF c3] e(3)]] gsame_nodes [OF frame_gsame [OF frame_set_addr]] by simp
  qed (use ro b n(1) in \<open>auto simp: buffer_def\<close>)
  moreover have "\<not> collectable s4 m" if j: "j \<in> set (ks @ [i])" "root_node hnd s2 j = Some m" for j m
  proof
    assume "collectable s4 m"
    then have c: "collectable s3 m" by (simp add: e(1))
    have "m \<noteq> n" using c c3 by (auto simp: collected_def)
    moreover have "root_node hnd s2 i = Some n" using n(1) r by (simp add: root_node_def)
    ultimately have "j \<in> set ks" using j by auto
    moreover have "collectable s m" using collected_mono [OF c3 c] ws [of m] \<open>m \<noteq> n\<close> by (simp add: collectable_def)
    ultimately show False using v j(2) by blast
  qed
  moreover have "zval_to_free s4 \<noteq> None" using cgraph_free [OF cgraph_collected [OF g c3]] no_ptrs_outer [OF s4(4)] by simp
  ultimately have "sweep_inv get_gc hnd s2 is (ks @ [i]) rest s4" unfolding sweep_inv_def using ks s4(2,3) o3(2) r by auto
  moreover have "collect_root get_gc i s = Some s4"
  proof -
    have "object_buckets_on s" if "objects s h = Some b" for h b
      using gsame_so(2) [OF gs that] w unfolding gsame_fields(1) [OF gs] gc_wf_def by blast
    then show ?thesis using collect_root_node [OF n, of get_gc] s3 s4(1) by simp
  qed
  ultimately show ?thesis using s4(5) by blast
qed

lemma collect_pass:
  assumes i: "gc_inv get_gc hnd s2 is us" and z: "zval_to_free s2 \<noteq> None"
  shows "\<exists>s3 us' T L. gc_collect_roots get_gc s2 = Some s3 \<and> taken get_gc hnd s2 T L s3 \<and> buffer s3 [] us' \<and> (\<forall>n. addr s3 n = None) \<and>
    (\<forall>i \<in> set is. \<forall>n. root_node hnd s2 i = Some n \<longrightarrow> \<not> collectable s3 n)"
proof -
  have w: "gc_wf get_gc hnd s2" and b: "buffer s2 is us" and r: "rooted hnd s2 is" using i by (simp_all add: gc_inv_def)
  have "taken get_gc hnd s2 {} [] s2" using wf_word [OF w] by (auto simp: taken_def counts_after_def crossing_def)
  then have "sweep_inv get_gc hnd s2 is [] is s2" using b r z unfolding sweep_inv_def by auto
  then obtain s3 ks where l: "root_loop (collect_root get_gc) (first_ptr is) s2 = Some s3" and I: "sweep_inv get_gc hnd s2 is ks [] s3"
    using root_loop_run [of "sweep_inv get_gc hnd s2 is" "collect_root get_gc"] sweep_step [OF w] by blast
  obtain us' T L where e: "taken get_gc hnd s2 T L s3" "buffer s3 [] us'" "rooted hnd s3 []" "ks = is"
      "\<forall>i \<in> set ks. \<forall>n. root_node hnd s2 i = Some n \<longrightarrow> \<not> collectable s3 n"
    using I unfolding sweep_inv_def by auto
  have "addr s3 n = None" for n using e(3) unfolding rooted_def by (cases "addr s3 n") auto
  moreover have "gc_collect_roots get_gc s2 = Some s3" using l ring_first [of s2 "is"] b by (simp add: gc_collect_roots_def buffer_def)
  ultimately show ?thesis using e by blast
qed

subsection \<open>The three passes\<close>

lemma sweep_all:
  assumes w: "gc_wf get_gc hnd s" and h: "honest get_gc hnd s" and W: "self_contained get_gc hnd s W" "W \<subseteq> reach get_gc hnd s (set M)"
    and gs: "gsame s s2" and t: "taken get_gc hnd s2 T L s3" and w2: "white s2 = W" and a: "\<And>n. addr s3 n = None"
    and M: "set M \<subseteq> nodes s" "\<And>m. m \<in> set M \<Longrightarrow> \<not> collectable s3 m"
  shows "T = W"
proof
  show TW: "T \<subseteq> W" using t w2 by (simp add: taken_def)
  have in_T: "k \<in> T" if k: "k \<in> W" "\<not> collectable s3 k" for k
  proof (rule ccontr)
    assume nT: "k \<notin> T"
    have "k \<in> nodes s2" using W(1) k(1) gsame_nodes [OF gs] by (auto simp: self_contained_def)
    then obtain p where p: "gnode_word s3 k = Some (Buffered p (col s2 k))" using taken_colour [OF t _ nT] by blast
    then have "p = None" using a [of k] by (simp add: addr_def)
    then show False using p k w2 by (auto simp: collectable_def white_def)
  qed
  have "reach get_gc hnd s (set M) \<subseteq> T \<union> (nodes s - W)"
  proof (rule reach_closed)
    show "set M \<subseteq> T \<union> (nodes s - W)" using M in_T by blast
  next
    fix n k assume n: "n \<in> T \<union> (nodes s - W)" and k: "k \<in> set (kids get_gc hnd s n)"
    have nn: "n \<in> nodes s" using n TW W(1) by (auto simp: self_contained_def)
    then have kn: "k \<in> nodes s" using w k unfolding gc_wf_def by blast
    show "k \<in> T \<union> (nodes s - W)"
    proof (cases "k \<in> W")
      case True
      then have "n \<in> T" using self_contained_edge [OF w h W(1) nn k] n by blast
      then have "\<not> collectable s3 k" using t k unfolding taken_def gsame_kids [OF gs] by blast
      then show ?thesis using in_T True by blast
    qed (use kn in blast)
  qed
  then show "W \<subseteq> T" using W(2) by blast
qed

lemma three_passes:
  assumes "gc_inv get_gc hnd s is us" and "idle s" and "honest get_gc hnd s" and "zval_to_free s = Some None"
  shows "\<exists>s' L us'. gc_passes get_gc s = Some s' \<and> buffer s' [] us' \<and> gsame s s' \<and> outer s' = outer s \<and>
    free_seg s' (zval_to_free s') L (Some None) \<and> distinct L \<and> Zv ` set L = garbage get_gc hnd s \<inter> range Zv \<and>
    (\<forall>a. rc s' (Zv a) = rc s (Zv a) + (if a \<in> set L then 1 else 0)) \<and>
    (\<forall>h. rc s' (Ob h) = rc s (Ob h) - of_nat (crossing get_gc hnd s (garbage get_gc hnd s) (Ob h))) \<and>
    (\<forall>h. Ob h \<in> garbage get_gc hnd s \<longrightarrow> gnode_word s' (Ob h) = Some (Buffered None GC_PURPLE)) \<and>
    (\<forall>n \<in> nodes s - garbage get_gc hnd s. gnode_word s' n = Some (Buffered None GC_BLACK))"
proof -
  let ?W = "garbage get_gc hnd s"
  obtain s1 s2 ks us' M where p: "gc_mark_roots get_gc s = Some s1" "gc_scan_roots get_gc s1 = Some s2" "gc_inv get_gc hnd s2 ks us'" "frame s s2"
      "white s2 = ?W" "\<forall>n. col s2 n = GC_BLACK \<or> col s2 n = GC_WHITE" "self_contained get_gc hnd s ?W"
      "map (root_node hnd s2) ks = map Some M" "?W \<subseteq> reach get_gc hnd s (set M)"
      "\<forall>x. rc s x = rc s2 x + (if x \<in> uncounted s \<or> x \<notin> nodes s then 0 else of_nat (crossing get_gc hnd s ?W x))"
      "outer s2 = outer s" "zval_to_free s2 = zval_to_free s"
    using two_passes [OF assms(1-3)] by metis
  have z: "zval_to_free s2 \<noteq> None" using p(12) assms(4) by simp
  obtain s3 us3 T L where c: "gc_collect_roots get_gc s2 = Some s3" "taken get_gc hnd s2 T L s3" "buffer s3 [] us3" "\<forall>n. addr s3 n = None"
      "\<forall>i \<in> set ks. \<forall>n. root_node hnd s2 i = Some n \<longrightarrow> \<not> collectable s3 n"
    using collect_pass [OF p(3) z] by blast
  have gs: "gsame s s2" by (rule frame_gsame [OF p(4)])
  have w: "gc_wf get_gc hnd s" using assms(1) by (simp add: gc_inv_def)
  have M: "set M \<subseteq> nodes s" "m \<in> set M \<Longrightarrow> \<not> collectable s3 m" for m
  proof -
    have e: "\<exists>i \<in> set ks. root_node hnd s2 i = Some m" if "m \<in> set M" for m
      using p(8) that by (metis (no_types, lifting) image_eqI image_set imageE)
    show "m \<in> set M \<Longrightarrow> \<not> collectable s3 m" using e [of m] c(5) by blast
    show "set M \<subseteq> nodes s" using e p(3) gsame_nodes [OF gs] unfolding gc_inv_def rooted_def by fastforce
  qed
  have T: "T = ?W" by (rule sweep_all [OF w assms(3) p(7,9) gs c(2) p(5) _ M]) (use c(4) in auto)
  have run: "gc_passes get_gc s = Some s3" using p(1,2) c(1) by (simp add: gc_passes_def)
  have cnt: "counts_after get_gc hnd [] ?W L s2 s3" and LW: "Zv ` set L = ?W \<inter> range Zv" using c(2) T by (simp_all add: taken_def)
  have rz: "rc s3 (Zv a) = rc s (Zv a) + (if a \<in> set L then 1 else 0)" for a
    using cnt p(10) [rule_format, of "Zv a"] unfolding counts_after_def gsame_nodes [OF gs] gsame_uncounted [OF gs] gsame_crossing [OF gs] by simp
  have ro: "rc s3 (Ob h) = rc s (Ob h) - of_nat (crossing get_gc hnd s ?W (Ob h))" for h
  proof (cases "Ob h \<in> nodes s")
    case True
    moreover have "Ob h \<notin> uncounted s" by (auto simp: uncounted_def)
    ultimately show ?thesis using cnt p(10) [rule_format, of "Ob h"] by (simp add: counts_after_def)
  next
    case False
    then have "crossing get_gc hnd s ?W (Ob h) = 0" using w p(7) unfolding gc_wf_def self_contained_def by (intro crossing_zero) blast
    then show ?thesis using False cnt p(10) [rule_format, of "Ob h"] by (simp add: counts_after_def)
  qed
  have wb: "gnode_word s3 n = Some (Buffered None GC_BLACK)" if n: "n \<in> nodes s - ?W" for n
  proof -
    obtain q where q: "gnode_word s3 n = Some (Buffered q (col s2 n))" using taken_colour [OF c(2), of n] n T gsame_nodes [OF gs] by auto
    moreover have "q = None" using q c(4) by (metis addr_def gc_word.simps(5) option.simps(5))
    moreover have "col s2 n = GC_BLACK" using p(5,6) n by (auto simp: white_def)
    ultimately show ?thesis by simp
  qed
  have "free_seg s3 (zval_to_free s3) L (Some None)" "distinct L" "gsame s s3" "outer s3 = outer s"
      "\<forall>h. Ob h \<in> ?W \<longrightarrow> gnode_word s3 (Ob h) = Some (Buffered None GC_PURPLE)"
    using c(2) T p(11,12) assms(4) gsame_trans [OF gs] by (simp_all add: taken_def)
  then show ?thesis using run c(3) LW rz ro wb by blast
qed

text \<open>
  C38. The three passes of a collection end with an empty buffer of roots. The list of values to free holds exactly
  the values among the garbage, each once, with a count one above what it was; every other value has its count
  back, and an object has lost the references from the garbage. What is not garbage is black and not buffered.
\<close>

theorem gc_passes_collect:
  assumes "gc_inv get_gc hnd s is us" and "idle s" and "honest get_gc hnd s" and "zval_to_free s = Some None"
  shows "\<exists>s' L us'. gc_passes get_gc s = Some s' \<and> buffer s' [] us' \<and> outer s' = outer s \<and>
    free_seg s' (zval_to_free s') L (Some None) \<and> distinct L \<and> Zv ` set L = garbage get_gc hnd s \<inter> range Zv \<and>
    (\<forall>a. rc s' (Zv a) = rc s (Zv a) + (if a \<in> set L then 1 else 0)) \<and>
    (\<forall>h. rc s' (Ob h) = rc s (Ob h) - of_nat (crossing get_gc hnd s (garbage get_gc hnd s) (Ob h))) \<and>
    (\<forall>h. Ob h \<in> garbage get_gc hnd s \<longrightarrow> gnode_word s' (Ob h) = Some (Buffered None GC_PURPLE)) \<and>
    (\<forall>n \<in> nodes s - garbage get_gc hnd s. gnode_word s' n = Some (Buffered None GC_BLACK))"
  using three_passes [OF assms] by metis

theorem gc_passes_collect_witness:
  "gc_inv no_props (\<lambda>_. 0) small_heap [0] [] \<and> idle small_heap \<and> honest no_props (\<lambda>_. 0) small_heap \<and> zval_to_free small_heap = Some None \<and>
   (\<exists>s' L. gc_passes no_props small_heap = Some s' \<and> free_seg s' (zval_to_free s') L (Some None) \<and> distinct L \<and> Zv ` set L = {Zv 1, Zv 2})"
proof -
  have z: "zval_to_free small_heap = Some None" by (simp add: small_heap_def)
  have "{Zv 1, Zv 2} \<inter> range Zv = {Zv 1, Zv 2}" by blast
  then show ?thesis using small_inv small_idle small_honest z gc_passes_collect [OF small_inv small_idle small_honest z]
    unfolding small_garbage by metis
qed

end
