(* ===== verification/Zend_Gc_Cycles.thy ===== *)
theory Zend_Gc_Cycles
  imports Zend_Gc_Collect
begin

text \<open>
  A whole collection: the passes, the destructors, the destruction of the garbage and its release,
  under a contract on the functions that destroy values. And how a possible root enters the buffer
  between collections.
\<close>

subsection \<open>The loops over the list of values to free\<close>


text \<open>The values of the list exist and keep their links; an object they refer to exists.\<close>

definition listed :: "(nat \<Rightarrow> nat option) \<Rightarrow> nat set \<Rightarrow> zend_gc_globals \<Rightarrow> bool" where
  "listed lk A s \<longleftrightarrow> (\<forall>a \<in> A. \<exists>z. zvals s a = Some z \<and> zv_u z = Free_link (lk a) \<and>
     (\<forall>h ht. zv_type z = IS_OBJECT h ht \<and> object_buckets_on s \<longrightarrow> h \<in> dom (objects s)))"

text \<open>
  What a collection relies on in the code it calls: it returns, and neither takes values off the
  list nor moves the list; no handle goes away.
\<close>

definition quiet :: "nat set \<Rightarrow> zend_gc_globals \<Rightarrow> zend_gc_globals \<Rightarrow> bool" where
  "quiet A s s' \<longleftrightarrow> (\<forall>lk. listed lk A s \<longrightarrow> listed lk A s') \<and> dom (objects s) \<subseteq> dom (objects s') \<and>
     gc_free_list s' = gc_free_list s \<and> next_to_free s' = next_to_free s"



lemma quiet_refl [simp]: "quiet A s s"
  by (simp add: quiet_def)










subsection \<open>A collection\<close>

text \<open>The counters and lists of a collection are not part of the heap or of the buffer.\<close>

definition same_heap :: "zend_gc_globals \<Rightarrow> zend_gc_globals \<Rightarrow> bool" where
  "same_heap s s' \<longleftrightarrow> zvals s' = zvals s \<and> objects s' = objects s \<and> object_buckets_on s' = object_buckets_on s \<and> tables s' = tables s \<and>
     symbol_table s' = symbol_table s \<and> roots s' = roots s \<and> slots s' = slots s \<and> unused s' = unused s \<and>
     first_unused s' = first_unused s \<and> last_unused s' = last_unused s"

lemma heap_graph:
  assumes e: "zvals s' = zvals s" "objects s' = objects s" "object_buckets_on s' = object_buckets_on s" "tables s' = tables s" "symbol_table s' = symbol_table s"
  shows "gnode_word s' = gnode_word s" "rc s' = rc s" "gsame s s'" "frame s s'" "col s' = col s" "addr s' = addr s"
proof -
  show w: "gnode_word s' = gnode_word s"
  proof
    fix n show "gnode_word s' n = gnode_word s n" using e by (cases n) (simp_all add: gnode_word.simps)
  qed
  show "rc s' = rc s"
  proof
    fix n show "rc s' n = rc s n" using e by (cases n) (simp_all add: rc.simps)
  qed
  show g: "gsame s s'" using e by (simp add: gsame_def)
  show "col s' = col s" "addr s' = addr s" using w by (simp_all add: col_def addr_def fun_eq_iff)
  then show "frame s s'" using g w by (simp add: frame_def)
qed

lemma same_heap_inv:
  assumes e: "same_heap s s'"
  shows "gc_inv get_gc hnd s is us \<Longrightarrow> gc_inv get_gc hnd s' is us" "idle s \<Longrightarrow> idle s'" "honest get_gc hnd s \<Longrightarrow> honest get_gc hnd s'"
    "garbage get_gc hnd s' = garbage get_gc hnd s"
proof -
  have g: "gnode_word s' = gnode_word s" "rc s' = rc s" "gsame s s'" "frame s s'" "col s' = col s" "addr s' = addr s"
    using heap_graph [of s' s] e by (simp_all add: same_heap_def)
  have n: "rb_get_next p s' = rb_get_next p s" "rb_get_prev p s' = rb_get_prev p s" for p using e by (cases p; simp add: same_heap_def)+
  have "links s' p xs = links s p xs" for p xs by (rule links_cong) (simp_all add: n)
  moreover have "unused_list s' p us = unused_list s p us" for p us by (rule unused_list_cong) (use e in \<open>simp add: same_heap_def\<close>)
  ultimately have b: "buffer s' is us = buffer s is us" using e by (simp add: buffer_def ring_def same_heap_def)
  have "refs s' = refs s" using e by (simp add: same_heap_def refs_def fun_eq_iff)
  then have r: "rooted hnd s' is = rooted hnd s is" by (simp add: rooted_def root_node_def gsame_nodes [OF g(3)] g(6))
  show "gc_inv get_gc hnd s is us \<Longrightarrow> gc_inv get_gc hnd s' is us" using b r frame_wf [OF g(4)] by (simp add: gc_inv_def)
  show "idle s \<Longrightarrow> idle s'" by (simp add: idle_def g(5,6))
  show "honest get_gc hnd s \<Longrightarrow> honest get_gc hnd s'"
    by (simp add: honest_def g(2) gsame_nodes [OF g(3)] gsame_uncounted [OF g(3)] gsame_crossing [OF g(3)])
  show "garbage get_gc hnd s' = garbage get_gc hnd s"
    by (simp add: garbage_def suspects_def self_contained_def g(2,5) gsame_nodes [OF g(3)] gsame_uncounted [OF g(3)] gsame_crossing [OF g(3)] gsame_reach [OF g(3)])
qed







definition idle_heap :: zend_gc_globals where
  "idle_heap = small_heap\<lparr>gc_active := False, zval_to_free := None, gc_runs := 0\<rparr>"



subsection \<open>Buffering a root\<close>

text \<open>A slot has been taken: it is neither in the ring nor on the list of unused ones.\<close>

definition slot_taken :: "zend_gc_globals \<Rightarrow> nat \<Rightarrow> nat list \<Rightarrow> nat list \<Rightarrow> bool" where
  "slot_taken s i is us \<longleftrightarrow> ring s is \<and> unused_list s (unused s) us \<and> distinct (i # is @ us) \<and>
     set (i # is @ us) = {..<first_unused s} \<and> first_unused s \<le> last_unused s"

lemma links_fields: "roots s' = roots s \<Longrightarrow> slots s' = slots s \<Longrightarrow> links s' p xs = links s p xs \<and> unused_list s' q us = unused_list s q us"
proof -
  assume e: "roots s' = roots s" "slots s' = slots s"
  have n: "rb_get_next p s' = rb_get_next p s" "rb_get_prev p s' = rb_get_prev p s" for p by (cases p; simp add: e)+
  have "links s' p xs = links s p xs" by (rule links_cong) (simp_all add: n)
  moreover have "unused_list s' q us = unused_list s q us" by (rule unused_list_cong) (simp add: e)
  ultimately show ?thesis by simp
qed

lemma take_slot_run:
  assumes b: "buffer s is us" and room: "us \<noteq> [] \<or> first_unused s \<noteq> last_unused s"
  shows "\<exists>i s1 us'. take_slot collect zv s = Some (Some i, s1) \<and> slot_taken s1 i is us' \<and> refs s1 = refs s \<and>
    zvals s1 = zvals s \<and> objects s1 = objects s \<and> object_buckets_on s1 = object_buckets_on s \<and> tables s1 = tables s \<and> symbol_table s1 = symbol_table s"
proof (cases us)
  case Nil
  let ?s = "s\<lparr>first_unused := first_unused s + 1\<rparr>"
  have u: "unused s = None" using b Nil by (simp add: buffer_def)
  have lt: "first_unused s < last_unused s" using b room Nil by (simp add: buffer_def)
  have run: "take_slot collect zv s = Some (Some (first_unused s), ?s)" using u lt by (simp add: take_slot_def)
  have n: "first_unused s \<notin> set is" using b Nil by (auto simp: buffer_def)
  moreover have "set (first_unused s # is @ []) = {..<first_unused ?s}" using b Nil by (auto simp: buffer_def lessThan_Suc)
  ultimately have "slot_taken ?s (first_unused s) is []" using b Nil u lt links_fields [of ?s s] by (simp add: slot_taken_def buffer_def ring_def)
  then show ?thesis using run by (fastforce simp: refs_def)
next
  case (Cons i us')
  obtain r where r: "unused s = Some (Slot i)" "slots s i = Some r" "unused_list s (rb_prev r) us'" using b Cons by (auto simp: buffer_def)
  let ?s = "s\<lparr>unused := rb_prev r\<rparr>"
  have run: "take_slot collect zv s = Some (Some i, ?s)" using r by (simp add: take_slot_def)
  have "slot_taken ?s i is us'" using b Cons r links_fields [of ?s s] by (auto simp: slot_taken_def buffer_def ring_def)
  then show ?thesis using run by (fastforce simp: refs_def)
qed

lemma link_root_run:
  assumes t: "slot_taken s i is us"
  shows "\<exists>s'. link_root i h u s = Some s' \<and> buffer s' (i # is) us \<and> refs s' = (refs s)(i \<mapsto> (h, u)) \<and> no_ptrs s' = no_ptrs s"
proof -
  define q where "q = fst (roots s)"
  obtain Y where Y: "map Slot is @ [Roots] = q # Y" using t ring_first [of s "is"] by (cases "is") (auto simp: q_def slot_taken_def)
  have l: "links s Roots (q # Y)" using t Y by (simp add: slot_taken_def ring_def)
  have d: "distinct (i # is @ us)" using t by (simp add: slot_taken_def)
  have dY: "distinct (q # Y)" "Slot i \<notin> set (q # Y)" "Roots \<notin> set (butlast (q # Y))"
    using d unfolding Y [symmetric] by (auto simp: distinct_map inj_on_def)
  define s1 where "s1 = s\<lparr>slots := (slots s)(i \<mapsto> \<lparr>rb_prev = Some Roots, rb_next = q, rb_handle = h, rb_u = u\<rparr>)\<rparr>"
  have p1: "rb_get_next x s1 = (if x = Slot i then Some q else rb_get_next x s)" "rb_get_prev x s1 = (if x = Slot i then Some (Some Roots) else rb_get_prev x s)" for x
    by (cases x; simp add: s1_def)+
  have "rb_get_prev q s1 \<noteq> None" using l dY(2) by (auto simp: p1 link_def)
  then obtain s2 where s2: "rb_set_prev q (Some (Slot i)) s1 = Some s2" using set_prev_total [of q s1] by blast
  obtain s3 where s3: "rb_set_next Roots (Slot i) s2 = Some s3" by simp
  note ptrs = set_ptr_rest(2) [OF s2] set_ptr_rest(1) [OF s3]
  have run: "link_root i h u s = Some s3" using s2 s3 by (simp add: link_root_def s1_def q_def Let_def)
  have nx: "rb_get_next x s3 = (if x = Roots then Some (Slot i) else if x = Slot i then Some q else rb_get_next x s)"
    and pv: "rb_get_prev x s3 = (if x = q then Some (Some (Slot i)) else if x = Slot i then Some (Some Roots) else rb_get_prev x s)" for x
    using next_set_prev [OF s2, of x] next_set_next [OF s3, of x] p1 [of x] by auto
  have "links s3 q Y = links s q Y"
  proof (rule links_cong)
    show "\<forall>x \<in> set (butlast (q # Y)). rb_get_next x s3 = rb_get_next x s"
      using dY in_set_butlastD [of _ "q # Y"] by (metis nx)
    show "\<forall>x \<in> set Y. rb_get_prev x s3 = rb_get_prev x s" using dY by (auto simp: pv)
  qed
  then have "links s3 Roots (Slot i # q # Y)" using l dY(2) by (auto simp: link_def nx pv)
  then have ring: "ring s3 (i # is)" by (simp add: ring_def Y)
  have q: "q \<in> set (map Slot is @ [Roots])" unfolding Y by simp
  have sl: "slots s3 j = slots s j" if j: "j \<in> set us" for j
  proof -
    have "q \<noteq> Slot j" "j \<noteq> i" using q d j by auto
    then show ?thesis using ptrs by (simp add: s1_def)
  qed
  have np: "no_ptrs s3 = no_ptrs s" "unused s3 = unused s" using ptrs by (simp_all add: s1_def no_ptrs_def)
  have "unused_list s3 (unused s3) us" using t sl np(2) unused_list_cong [of us s3 s] by (simp add: slot_taken_def)
  then have "buffer s3 (i # is) us" using t ring no_ptrs_fields [OF np(1)] by (auto simp: buffer_def slot_taken_def)
  moreover have "refs s3 = (refs s)(i \<mapsto> (h, u))" using ptrs by (simp add: s1_def refs_def fun_eq_iff)
  ultimately show ?thesis using run np by blast
qed

lemma gsame_wf:
  assumes w: "gc_wf get_gc hnd s" and gs: "gsame s s'" and "\<And>n w. gnode_word s' n = Some w \<Longrightarrow> \<not> is_free_link w"
    and "\<And>n. n \<in> uncounted s \<Longrightarrow> col s' n \<noteq> GC_GREY \<and> col s' n \<noteq> GC_WHITE"
  shows "gc_wf get_gc hnd s'"
proof -
  have 1: "ht = hnd h" if "zvals s' a = Some z" "zv_type z = IS_OBJECT h ht" for a z h ht
    using gsame_zv(2) [OF gs that(1)] that(2) w by (auto simp: gc_wf_def)
  have 2: "object_buckets_on s'" if "objects s' h = Some b" for h b
    using gsame_so(2) [OF gs that] w unfolding gsame_fields(1) [OF gs] gc_wf_def by blast
  show ?thesis using w 1 2 assms(3,4) unfolding gc_wf_def gsame_nodes [OF gs] gsame_kids [OF gs] gsame_uncounted [OF gs] by blast
qed

lemma set_purple:
  assumes w: "gc_wf get_gc hnd s" and n: "n \<in> nodes s"
  shows "gc_wf get_gc hnd (set_col n GC_PURPLE s)"
proof (rule gsame_wf [OF w gsame_upd(1)])
  fix m x assume "gnode_word (set_col n GC_PURPLE s) m = Some x"
  then show "\<not> is_free_link x" using w n unfolding gc_wf_def word_set_col by (auto split: if_splits)
next
  fix m assume "m \<in> uncounted s"
  then show "col (set_col n GC_PURPLE s) m \<noteq> GC_GREY \<and> col (set_col n GC_PURPLE s) m \<noteq> GC_WHITE"
    using w n unfolding col_set_col [OF n] gc_wf_def by auto
qed

definition ref_of :: "(nat \<Rightarrow> nat) \<Rightarrow> gnode \<Rightarrow> (nat \<times> rb_ref) option" where
  "ref_of hnd n = (case n of Zv a \<Rightarrow> Some (0, Pz a) | Ob h \<Rightarrow> if h = 0 then None else Some (h, Handlers (hnd h)))"

lemma add_root:
  assumes w: "gc_wf get_gc hnd s" and t: "slot_taken s i is us" and r: "rooted hnd s is" and n: "n \<in> nodes s" "addr s n = None"
    and ref: "ref_of hnd n = Some (h, u)"
  shows "\<exists>s'. link_root i h u (set_col n GC_PURPLE s) = Some s' \<and> gc_wf get_gc hnd s' \<and> n \<in> nodes s' \<and>
    gc_inv get_gc hnd (set_addr n (Some (Slot i)) s') (i # is) us \<and> col s' = (col s)(n := GC_PURPLE) \<and> rc s' = rc s \<and> addr s' = addr s \<and> gsame s s'"
proof -
  let ?s = "set_col n GC_PURPLE s"
  have b: "bframe s ?s" by (rule bframe_set_col)
  have t': "slot_taken ?s i is us" using t links_fields [OF bframe_fields(4,5) [OF b]] by (simp add: slot_taken_def ring_def bframe_fields [OF b])
  obtain s2 where s2: "link_root i h u ?s = Some s2" "buffer s2 (i # is) us" "refs s2 = (refs ?s)(i \<mapsto> (h, u))" "no_ptrs s2 = no_ptrs ?s"
    using link_root_run [OF t'] by blast
  have g: "frame ?s s2" "col s2 = (col s)(n := GC_PURPLE)" "rc s2 = rc s" "addr s2 = addr s"
    using no_ptrs_graph [OF s2(4)] col_set_col [OF n(1)] rc_set_col addr_set_col by simp_all
  have w2: "gc_wf get_gc hnd s2" by (rule frame_wf [OF g(1) set_purple [OF w n(1)]])
  have gs: "gsame s s2" by (rule gsame_trans [OF gsame_upd(1) frame_gsame [OF g(1)]])
  let ?s' = "set_addr n (Some (Slot i)) s2"
  have n2: "n \<in> nodes s2" using n(1) gsame_nodes [OF gs] by simp
  have a: "addr ?s' = (addr s)(n := Some (Slot i))" using addr_set_addr [OF n2] g(4) by simp
  have rf: "refs ?s' = (refs s)(i \<mapsto> (h, u))" using s2(3) buffer_set_addr(2) [of n _ s2] bframe_fields(5) [OF b] by (simp add: refs_def fun_eq_iff)
  have rn: "root_node hnd ?s' = (root_node hnd s)(i \<mapsto> n)"
    using ref by (auto simp: root_node_def rf fun_eq_iff ref_of_def split: gnode.splits if_splits)
  have ni: "i \<notin> set is" using t by (simp add: slot_taken_def)
  have nn: "nodes ?s' = nodes s" using gsame_nodes [OF gsame_trans [OF gs frame_gsame [OF frame_set_addr]]] .
  have "rooted hnd ?s' (i # is)" unfolding rooted_def a rn nn
  proof (intro conjI ballI allI impI)
    fix j assume j: "j \<in> set (i # is)"
    show "\<exists>m \<in> nodes s. ((root_node hnd s)(i \<mapsto> n)) j = Some m \<and> ((addr s)(n := Some (Slot i))) m = Some (Slot j)"
    proof (cases "j = i")
      case False
      then obtain m where "m \<in> nodes s" "root_node hnd s j = Some m" "addr s m = Some (Slot j)" using r j unfolding rooted_def by auto
      then show ?thesis using False n(2) by (intro bexI [of _ m]) auto
    qed (use n(1) in simp)
  next
    fix m p assume m: "((addr s)(n := Some (Slot i))) m = Some p"
    show "\<exists>j \<in> set (i # is). p = Slot j \<and> ((root_node hnd s)(i \<mapsto> n)) j = Some m"
    proof (cases "m = n")
      case False
      then have "addr s m = Some p" using m by simp
      then obtain j where "j \<in> set is" "p = Slot j" "root_node hnd s j = Some m" using r unfolding rooted_def by blast
      then show ?thesis using ni by (intro bexI [of _ j]) auto
    qed (use m in simp)
  qed
  then have "gc_inv get_gc hnd ?s' (i # is) us" using frame_wf [OF frame_set_addr w2] s2(2) buffer_set_addr(1) by (simp add: gc_inv_def)
  then show ?thesis using s2(1) w2 n2 g(2-4) gs by blast
qed

lemma buffer_node:
  assumes i: "gc_inv get_gc hnd s is us" and d: "idle s" and room: "us \<noteq> [] \<or> first_unused s \<noteq> last_unused s"
    and n: "n \<in> nodes s" "addr s n = None" and ref: "ref_of hnd n = Some (h, u)"
  shows "\<exists>j s1 s2 us'. take_slot collect zv s = Some (Some j, s1) \<and> gc_wf get_gc hnd s1 \<and> n \<in> nodes s1 \<and>
    link_root j h u (set_col n GC_PURPLE s1) = Some s2 \<and> gc_wf get_gc hnd s2 \<and> n \<in> nodes s2 \<and>
    (let s' = set_addr n (Some (Slot j)) s2 in gc_inv get_gc hnd s' (j # is) us' \<and> idle s' \<and> gsame s s' \<and> rc s' = rc s \<and> addr s' n \<noteq> None)"
proof -
  obtain j s1 us' where t: "take_slot collect zv s = Some (Some j, s1)" "slot_taken s1 j is us'" "refs s1 = refs s"
      and e: "zvals s1 = zvals s" "objects s1 = objects s" "object_buckets_on s1 = object_buckets_on s" "tables s1 = tables s" "symbol_table s1 = symbol_table s"
    using take_slot_run [OF _ room] i unfolding gc_inv_def by blast
  note g = heap_graph [OF e]
  have w1: "gc_wf get_gc hnd s1" using frame_wf [OF g(4)] i by (simp add: gc_inv_def)
  have nd: "nodes s1 = nodes s" by (rule gsame_nodes [OF g(3)])
  have r1: "rooted hnd s1 is" using i g(6) t(3) nd by (simp add: gc_inv_def rooted_def root_node_def)
  obtain s2 where s2: "link_root j h u (set_col n GC_PURPLE s1) = Some s2" "gc_wf get_gc hnd s2" "n \<in> nodes s2"
      "gc_inv get_gc hnd (set_addr n (Some (Slot j)) s2) (j # is) us'" "col s2 = (col s1)(n := GC_PURPLE)" "rc s2 = rc s1" "addr s2 = addr s1" "gsame s1 s2"
    using add_root [OF w1 t(2) r1 _ _ ref] n g(6) nd by auto
  let ?s' = "set_addr n (Some (Slot j)) s2"
  have a: "addr ?s' = (addr s)(n := Some (Slot j))" and c: "col ?s' = (col s)(n := GC_PURPLE)" and rc: "rc ?s' = rc s"
    using addr_set_addr [OF s2(3)] col_set_addr [of n _ s2] rc_set_addr [of n _ s2] s2(5-7) g by simp_all
  have "idle ?s'" unfolding idle_def a c using d by (auto simp: idle_def)
  moreover have "gsame s ?s'" by (rule gsame_trans [OF g(3) gsame_trans [OF s2(8) frame_gsame [OF frame_set_addr]]])
  ultimately show ?thesis using t(1) w1 n(1) nd s2 a rc unfolding Let_def by (intro exI [of _ j] exI [of _ s1] exI [of _ s2] exI [of _ us']) simp
qed

definition eligible :: "get_gc \<Rightarrow> zend_gc_globals \<Rightarrow> zval_gc_info \<Rightarrow> bool" where
  "eligible get_gc s z = (case zv_type z of
     IS_OBJECT h ht \<Rightarrow> object_buckets_on s \<and> get_gc ht h \<noteq> None \<and> (case objects s h of Some b \<Rightarrow> so_valid b | None \<Rightarrow> False)
   | _ \<Rightarrow> True)"

definition root_of :: "nat \<Rightarrow> zval_gc_info \<Rightarrow> gnode" where
  "root_of zv z = (case zv_type z of IS_OBJECT h _ \<Rightarrow> Ob h | _ \<Rightarrow> Zv zv)"

lemma possible_value:
  assumes i: "gc_inv get_gc hnd s is us" and d: "idle s" and room: "us \<noteq> [] \<or> first_unused s \<noteq> last_unused s"
    and z: "zvals s zv = Some z" "\<And>h ht. zv_type z \<noteq> IS_OBJECT h ht"
  shows "\<exists>s' is' us'. gc_zval_possible_root get_gc collect zv s = Some s' \<and> gc_inv get_gc hnd s' is' us' \<and> idle s' \<and> gsame s s' \<and> rc s' = rc s \<and> addr s' (Zv zv) \<noteq> None"
proof -
  have w: "gc_wf get_gc hnd s" using i by (simp add: gc_inv_def)
  have n: "Zv zv \<in> nodes s" using z(1) by (simp add: nodes_def gnode_word.simps)
  have v: "\<forall>h ht. zv_type z \<noteq> IS_OBJECT h ht" using z(2) by blast
  have u: "zv_u z = Buffered (addr s (Zv zv)) (col s (Zv zv))" using wf_word [OF w n] z(1) by (simp add: gnode_word.simps)
  show ?thesis
  proof (cases "addr s (Zv zv)")
    case None
    have c: "col s (Zv zv) = GC_BLACK" using d None by (auto simp: idle_def)
    obtain j s1 s2 us' where b: "take_slot collect zv s = Some (Some j, s1)" "gc_wf get_gc hnd s1" "Zv zv \<in> nodes s1"
        "link_root j 0 (Pz zv) (set_col (Zv zv) GC_PURPLE s1) = Some s2" "gc_wf get_gc hnd s2" "Zv zv \<in> nodes s2"
        "gc_inv get_gc hnd (set_addr (Zv zv) (Some (Slot j)) s2) (j # is) us'" "idle (set_addr (Zv zv) (Some (Slot j)) s2)"
        "gsame s (set_addr (Zv zv) (Some (Slot j)) s2)" "rc (set_addr (Zv zv) (Some (Slot j)) s2) = rc s" "addr (set_addr (Zv zv) (Some (Slot j)) s2) (Zv zv) \<noteq> None"
      using buffer_node [OF i d room n None, of 0 "Pz zv" collect zv] unfolding Let_def by (auto simp: ref_of_def)
    have "gc_zval_possible_root get_gc collect zv s = Some (set_addr (Zv zv) (Some (Slot j)) s2)"
      using z(1) u c None b(1,4) set_color_node(1) [OF b(2,3)] set_address_node(1) [OF b(5,6)] v
      by (simp add: gc_zval_possible_root_def del: set_addr.simps split: zv_type.split)
    then show ?thesis using b(7-11) by blast
  next
    case (Some p)
    then have "gc_zval_possible_root get_gc collect zv s = Some s"
      using z(1) u v by (simp add: gc_zval_possible_root_def split: zv_type.split)
    then show ?thesis using i d Some gsame_refl by blast
  qed
qed

lemma possible_object:
  assumes i: "gc_inv get_gc hnd s is us" and d: "idle s" and room: "us \<noteq> [] \<or> first_unused s \<noteq> last_unused s"
    and z: "zvals s zv = Some z" "zv_type z = IS_OBJECT h ht" and h0: "h \<noteq> 0"
  shows "\<exists>s' is' us'. gc_zval_possible_root get_gc collect zv s = Some s' \<and> gc_inv get_gc hnd s' is' us' \<and> idle s' \<and> gsame s s' \<and> rc s' = rc s \<and>
    (eligible get_gc s z \<longrightarrow> addr s' (Ob h) \<noteq> None)"
proof -
  have w: "gc_wf get_gc hnd s" using i by (simp add: gc_inv_def)
  have nz: "Zv zv \<in> nodes s" using z(1) by (simp add: nodes_def gnode_word.simps)
  have ht: "ht = hnd h" using w z unfolding gc_wf_def by blast
  have fl: "\<not> is_free_link (zv_u z)" using wf_word [OF w nz] z(1) by (simp add: gnode_word.simps)
  show ?thesis
  proof (cases "object_buckets_on s")
    case True
    have "set (kids get_gc hnd s (Zv zv)) \<subseteq> nodes s" using w nz unfolding gc_wf_def by blast
    then have n: "Ob h \<in> nodes s" using z True by (simp add: kids.simps)
    then obtain b where b: "objects s h = Some b" by (auto simp: nodes_def gnode_word.simps)
    have u: "so_buffered b = Buffered (addr s (Ob h)) (col s (Ob h))" using wf_word [OF w n] b by (simp add: gnode_word.simps)
    show ?thesis
    proof (cases "eligible get_gc s z \<and> addr s (Ob h) = None")
      case elig: True
      have c: "col s (Ob h) = GC_BLACK" using d elig by (auto simp: idle_def)
      obtain ps where v: "so_valid b" "get_gc ht h = Some ps" using elig b z(2) by (auto simp: eligible_def)
      obtain j s1 s2 us' where r: "take_slot collect zv s = Some (Some j, s1)" "gc_wf get_gc hnd s1" "Ob h \<in> nodes s1"
          "link_root j h (Handlers ht) (set_col (Ob h) GC_PURPLE s1) = Some s2" "gc_wf get_gc hnd s2" "Ob h \<in> nodes s2"
          "gc_inv get_gc hnd (set_addr (Ob h) (Some (Slot j)) s2) (j # is) us'" "idle (set_addr (Ob h) (Some (Slot j)) s2)"
          "gsame s (set_addr (Ob h) (Some (Slot j)) s2)" "rc (set_addr (Ob h) (Some (Slot j)) s2) = rc s" "addr (set_addr (Ob h) (Some (Slot j)) s2) (Ob h) \<noteq> None"
        using buffer_node [OF i d room n, of h "Handlers ht" collect zv] elig h0 ht unfolding Let_def by (auto simp: ref_of_def)
      have "gc_zval_possible_root get_gc collect zv s = Some (set_addr (Ob h) (Some (Slot j)) s2)"
        using z u c b v True elig fl r(1,4) set_color_node(2) [OF r(2,3)] set_address_node(2) [OF r(5,6)]
        by (simp add: gc_zval_possible_root_def gc_zobj_possible_root_def del: set_addr.simps)
      then show ?thesis using r(7-11) by blast
    next
      case False
      then have "gc_zval_possible_root get_gc collect zv s = Some s"
        using z u b True fl by (auto simp: gc_zval_possible_root_def gc_zobj_possible_root_def eligible_def)
      then show ?thesis using i d False gsame_refl by blast
    qed
  next
    case False
    then have "gc_zval_possible_root get_gc collect zv s = Some s" using z fl by (simp add: gc_zval_possible_root_def)
    moreover have "\<not> eligible get_gc s z" using False z(2) by (simp add: eligible_def)
    ultimately show ?thesis using i d gsame_refl by blast
  qed
qed

text \<open>
  C40. Buffering a possible root while the buffer has room keeps the heap, the counts, the ring of roots and the
  list of unused slots well formed, and afterwards the value, or its object if it is valid and can be traversed,
  is in the buffer. Handle 0 is never given to an object.
\<close>

theorem gc_possible_root_buffers:
  assumes "gc_inv get_gc hnd s is us" and "idle s" and "us \<noteq> [] \<or> first_unused s \<noteq> last_unused s"
    and "zvals s zv = Some z" and "\<And>ht. zv_type z \<noteq> IS_OBJECT 0 ht"
  shows "\<exists>s' is' us'. gc_zval_possible_root get_gc collect zv s = Some s' \<and> gc_inv get_gc hnd s' is' us' \<and> idle s' \<and> gsame s s' \<and> rc s' = rc s \<and>
    (eligible get_gc s z \<longrightarrow> addr s' (root_of zv z) \<noteq> None)"
proof (cases "zv_type z")
  case (IS_OBJECT h ht)
  then have "h \<noteq> 0" using assms(5) [of ht] by auto
  then show ?thesis using possible_object [OF assms(1-4) IS_OBJECT, of collect] by (simp add: root_of_def IS_OBJECT)
qed (use possible_value [OF assms(1-4), of collect] in \<open>fastforce simp: root_of_def\<close>)+

theorem gc_possible_root_buffers_witness:
  "gc_inv no_props (\<lambda>_. 0) idle_heap [0] [] \<and> idle idle_heap \<and> first_unused idle_heap \<noteq> last_unused idle_heap \<and>
   (\<exists>s' is' us'. gc_zval_possible_root no_props (\<lambda>s. None) 3 idle_heap = Some s' \<and> gc_inv no_props (\<lambda>_. 0) s' is' us' \<and> addr s' (Ob 5) \<noteq> None)"
proof -
  have e: "same_heap small_heap idle_heap" by (simp add: same_heap_def idle_heap_def)
  note i = same_heap_inv(1) [OF e small_inv] same_heap_inv(2) [OF e small_idle]
  have r: "[] \<noteq> [] \<or> first_unused idle_heap \<noteq> last_unused idle_heap" by (simp add: idle_heap_def small_heap_def)
  define z where "z = \<lparr>zv_type = IS_OBJECT 5 0, zv_refcount = 1, zv_u = Buffered None GC_BLACK\<rparr>"
  have z: "zvals idle_heap 3 = Some z" "\<And>ht. zv_type z \<noteq> IS_OBJECT 0 ht" by (simp_all add: idle_heap_def small_heap_def z_def)
  have "eligible no_props idle_heap z" "root_of 3 z = Ob 5" by (simp_all add: eligible_def root_of_def z_def idle_heap_def small_heap_def no_props_def)
  then show ?thesis using i r gc_possible_root_buffers [OF i r z, of "\<lambda>s. None"] by auto
qed

end
