(* ===== verification/Spec2Isabelle.thy ===== *)
theory Spec2Isabelle
  imports Zend_Hash_Key Zend_Ptr_Stack Zend_Llist Zend_Ts_Hash Std_Url Cal_Sdn Zend_Objects_API Zend_Numeric Zend_Gc_Cycles
begin

text \<open>
  A verification library for the runtime core of PHP 5.6.17: the data structures of the Zend
  engine and some of the pure routines of its standard and calendar extensions. All source
  paths below are under \<^verbatim>\<open>src/php-5.6.17\<close>.

  \<^bold>\<open>The program and its parts.\<close> Almost every table of the engine (symbol tables, arrays, class and
  function tables, the resource list) is a \<open>HashTable\<close> of \<^verbatim>\<open>Zend/zend_hash.c\<close>: an array of collision
  chains and one doubly linked list of all buckets in insertion order. It is sorted with
  \<^verbatim>\<open>Zend/zend_qsort.c\<close>, read through the symbol-table macros of \<^verbatim>\<open>Zend/zend_hash.h\<close> that turn numeric
  strings into integers, and shared between threads through \<^verbatim>\<open>Zend/zend_ts_hash.c\<close>. The compiler
  and the executor keep their state in \<^verbatim>\<open>Zend/zend_stack.c\<close>, \<^verbatim>\<open>Zend/zend_ptr_stack.c\<close> and
  \<^verbatim>\<open>Zend/zend_llist.c\<close>. Objects live in the store of \<^verbatim>\<open>Zend/zend_objects_API.c\<close>, counted by reference;
  what refers to itself is found by the cycle collector of \<^verbatim>\<open>Zend/zend_gc.c\<close>. The operators of
  \<^verbatim>\<open>Zend/zend_operators.c\<close> decide which strings are numbers and compare, search and increment them.

  \<^bold>\<open>Conventions.\<close> A C function is one definition of the same name. Machine integers are words of
  their width where they can wrap, and \<open>int\<close> or \<open>nat\<close> where the code keeps them in range. Memory is
  explicit where the code links nodes: a heap from addresses to nodes, a pointer a \<open>nat option\<close>. A
  result \<open>None\<close> is undefined behaviour: a dangling or null access, a read outside a buffer, memory
  never written. Every theorem that an operation has a result is therefore also a theorem that it
  stays inside its memory. Destructors, comparison functions, callbacks and allocation are
  parameters or explicit state; what a theorem needs of them is a hypothesis of its statement.

  \<^bold>\<open>The theories.\<close>

  \<^item> \<open>Zend_Prelude\<close>: heaps, fresh addresses, and one library on the links of a doubly linked segment,
    used twice by the hash table (collision chains and the global list) and by the linked list.

  \<^item> \<open>Zend_Hash\<close>: the records \<open>Bucket\<close> and \<open>HashTable\<close> and every operation of \<^verbatim>\<open>zend_hash.c\<close> that inserts,
    finds, deletes, grows or destroys. \<open>Zend_Hash_Rep\<close>: the representation invariant and the abstract
    value. \<open>Zend_Hash_Map\<close>: that value as an ordered map from keys to elements, an association list
    in list order with the library's update and delete. \<open>Zend_Hash_Ops\<close>: each operation preserves the invariant and is the
    corresponding operation on the ordered map. \<open>Zend_Hash_Iter\<close>, \<open>Zend_Hash_Copy\<close>, \<open>Zend_Hash_Sort\<close>,
    \<open>Zend_Hash_Key\<close>: the apply family, copying and merging and positions, sorting and comparing and
    renumbering, and changing a key in place. Sorting is proved once in the locale \<open>hash_sorter\<close>, for
    any sorter of an array of buckets. \<open>Zend_Hash_Props\<close>: the properties.

  \<^item> \<open>Zend_Qsort\<close>: \<open>zend_qsort_r\<close> with its explicit stack of 64 entries, its pivot and its swap by words:
    it ends, stays inside the array and the stack for every array below \<open>2 ^ 64\<close> elements, and
    returns a sorted permutation; it is the instance of the locales \<open>sorter\<close> and \<open>hash_sorter\<close>.

  \<^item> \<open>Zend_Stack\<close>, \<open>Zend_Ptr_Stack\<close>, \<open>Zend_Llist\<close>: the sequence containers, each a refinement of a list,
    with their traversals. Both stacks are instances of the locale \<open>lifo\<close>.

  \<^item> \<open>Zend_Decimal\<close>, \<open>Zend_Symtable\<close>: decimal notation; \<open>ZEND_HANDLE_NUMERIC_EX\<close> accepts exactly the
    canonical decimals of a \<^verbatim>\<open>long\<close>, and the \<open>zend_symtable\<close> operations act on the ordered map at the
    key PHP defines.

  \<^item> \<open>Zend_Ts_Hash\<close>: the operations of \<^verbatim>\<open>zend_ts_hash.c\<close> as sequences of accesses to shared memory, and
    the interleavings of any number of threads below \<open>2 ^ 32\<close> as a step relation: writers exclude
    everybody, the lock is never lost, every run is equivalent to a sequential one, no state is
    stuck before all threads are done; and the one operation that breaks this,
    \<open>zend_ts_hash_clean\<close>.

  \<^item> \<open>Zend_Objects_API\<close>: the object store as an array with a free list threaded through its union,
    and handles, reference counts, destructors that may call back into the store, and the shutdown
    loops. Theorems hold for stores below \<open>2 ^ 31\<close> handles, the range of the \<^verbatim>\<open>int\<close> in the free list.
    The two shutdown loops read their bound again in every round and need not end: they are
    partial functions with \<open>None\<close> for a run that does not, and they are shown to end when the
    functions they call keep the handles below some bound.

  \<^item> \<open>Zend_Gc\<close>: the records and every function of \<^verbatim>\<open>zend_gc.c\<close>: the buffer of possible roots, the mark,
    scan and collect passes, and a whole collection. \<open>Zend_Gc_Graph\<close>: the heap as a graph of values
    and objects with colours, counts and edges. \<open>Zend_Gc_Trace\<close>: the passes that colour what they
    reach, proved once in the locale \<open>colouring_pass\<close> and interpreted on \<open>mark_grey\<close> and \<open>scan_black\<close>.
    \<open>Zend_Gc_Scan\<close>: what the scan keeps and drops. \<open>Zend_Gc_Roots\<close>: the ring of roots and the list of
    unused slots. \<open>Zend_Gc_Passes\<close>: the passes over all roots: they end and find exactly the garbage,
    in exact 32-bit counts, for every finite heap whose counts are at least the references there are.
    \<open>Zend_Gc_Collect\<close>: the third pass: it gives the counts back and lists exactly the garbage values.
    \<open>Zend_Gc_Cycles\<close>: a whole collection, which releases the garbage if the code that destroys values
    returns and leaves the list alone (\<open>cb_contract\<close>); and how a possible root enters the buffer. The
    collection that a full buffer starts is a parameter of \<open>gc_zval_possible_root\<close>, and the theorem on
    buffering is for a buffer with room.

  \<^item> \<open>Zend_Strings\<close>, \<open>Zend_Numeric\<close>: searching, comparing, lower-casing and incrementing strings;
    \<open>is_numeric_string_ex\<close> with its jumps into the digit loop; incrementing and decrementing values.
    Doubles are an abstract type with \<open>zend_strtod\<close> as a parameter.

  \<^item> \<open>Std_Base64\<close>, \<open>Std_Url\<close>: \<^verbatim>\<open>ext/standard/base64.c\<close> and the coding routines of \<^verbatim>\<open>ext/standard/url.c\<close>:
    bounds of the buffers and round trips. The encoder's bound is that the length of its output is
    an \<^verbatim>\<open>int\<close>, about 1.6 GB of input.

  \<^item> \<open>Cal_Sdn\<close>: the conversions of \<^verbatim>\<open>ext/calendar\<close> between serial day numbers and the Gregorian, Julian and
    French republican calendars are inverse to each other and follow the calendar day by day, for
    day numbers up to 536,870,000, below which no \<^verbatim>\<open>int\<close> of the code overflows.

  \<^bold>\<open>Loops and fuel.\<close> Loops are recursive functions with a termination proof, or recursion on a count
  the code itself keeps. Loops over linked nodes, which need not end on a damaged structure, are
  \<open>partial_function (option)\<close>: \<open>None\<close> also stands for a run that does not end, and every theorem that
  such a function returns a value is a theorem that it ends.

  \<^bold>\<open>Not modelled.\<close> The scanner, the parsers and the virtual machine, which are generated; the compiler
  and executor, which need a semantics of zvals with references; the benchmark counters of the cycle collector;
  the memory manager, taken as the allocator of the models; \<^verbatim>\<open>Zend/zend_strtod.c\<close>; the conversions and
  arithmetic on zvals; proxies in the object store; streams, SAPI, TSRM and start-up; the URL
  parser and the Jewish calendar; and the vendored libraries under \<^verbatim>\<open>ext\<close>.
\<close>

end
